(* ===== verification/Kernel_Prelude.thy ===== *)
theory Kernel_Prelude
  imports Main "HOL-Library.Word" "HOL-Library.Multiset"
begin

text \<open>
  Shared vocabulary of the development: the machine types of \<open>kernel/types.h\<close>, the outcome of
  running a piece of kernel code, bounds-checked array accesses, and the generic list, array
  and word lemmas the component theories use.

  Running a C function has one of four outcomes. It returns (\<open>Ok\<close>), it calls \<open>panic(s)\<close>
  (\<open>Panic s\<close>), it performs an access C leaves undefined, that is, outside an array or through
  a null pointer (\<open>Fault\<close>, with a label saying which), or it spins or sleeps for ever on state
  that nobody changes (\<open>Diverge\<close>). \<open>Sleep c\<close> is the outcome of a call that blocks in
  \<open>sleep(c, ...)\<close> where the model follows a single thread.
\<close>

section \<open>Machine types\<close>

type_synonym uint = "32 word"
type_synonym uint64 = "64 word"
type_synonym uint16 = "16 word"
type_synonym byte = "8 word"

section \<open>Outcomes\<close>

text \<open>The channels the kernel sleeps on; every channel is the address of a kernel object.\<close>

datatype chan =
    Chan_log
  | Chan_buf nat
  | Chan_desc
  | Chan_lock string nat
  | Chan_proc nat
  | Chan_ticks
  | Chan_nread nat
  | Chan_nwrite nat
  | Chan_cons
  | Chan_uart

datatype 'a outcome =
    Ok 'a
  | Panic string
  | Fault string
  | Sleep chan
  | Diverge

fun bnd :: "'a outcome \<Rightarrow> ('a \<Rightarrow> 'b outcome) \<Rightarrow> 'b outcome" where
  "bnd (Ok x) f = f x"
| "bnd (Panic m) f = Panic m"
| "bnd (Fault m) f = Fault m"
| "bnd (Sleep c) f = Sleep c"
| "bnd Diverge f = Diverge"

definition returns :: "'a outcome \<Rightarrow> bool" where
  "returns r \<longleftrightarrow> (\<exists>x. r = Ok x)"

lemma bnd_Ok_iff [simp]: "bnd m f = Ok y \<longleftrightarrow> (\<exists>x. m = Ok x \<and> f x = Ok y)"
  by (cases m) auto

lemma bnd_Ok_right [simp]: "bnd m Ok = m"
  by (cases m) auto

lemma bnd_assoc: "bnd (bnd m f) g = bnd m (\<lambda>x. bnd (f x) g)"
  by (cases m) auto

lemma bnd_cong [fundef_cong]:
  "m = m' \<Longrightarrow> (\<And>x. m' = Ok x \<Longrightarrow> f x = g x) \<Longrightarrow> bnd m f = bnd m' g"
  by (cases m') auto

lemma returnsI [intro]: "r = Ok x \<Longrightarrow> returns r"
  by (simp add: returns_def)

lemma returnsE [elim]: "returns r \<Longrightarrow> (\<And>x. r = Ok x \<Longrightarrow> P) \<Longrightarrow> P"
  by (auto simp: returns_def)

lemma returns_bnd: "returns (bnd m f) \<longleftrightarrow> (\<exists>x. m = Ok x \<and> returns (f x))"
  by (auto simp: returns_def)

text \<open>Undefined behaviour, and code whose only failure is undefined behaviour.\<close>

definition faults :: "'a outcome \<Rightarrow> bool" where
  "faults r \<longleftrightarrow> (\<exists>l. r = Fault l)"

definition ok_or_fault :: "'a outcome \<Rightarrow> bool" where
  "ok_or_fault r \<longleftrightarrow> returns r \<or> faults r"

lemma faults_simps [simp]: "faults (Fault l)" "\<not> faults (Ok x)" "\<not> faults (Panic m)"
  "\<not> faults (Sleep c)" "\<not> faults Diverge"
  by (simp_all add: faults_def)

lemma faults_bnd_first: "faults r \<Longrightarrow> faults (bnd r f)"
  by (auto simp: faults_def)

lemma faults_bnd_second: "faults (bnd r f) \<Longrightarrow> faults (bnd r (\<lambda>x. bnd (f x) (g x)))"
  by (cases r) (auto simp: faults_bnd_first)

lemma faults_bnd: "ok_or_fault r \<Longrightarrow> (\<And>x. r = Ok x \<Longrightarrow> faults (f x)) \<Longrightarrow> faults (bnd r f)"
  by (auto simp: ok_or_fault_def faults_def returns_def)

lemma ok_or_fault_simps [simp]: "ok_or_fault (Ok x)" "ok_or_fault (Fault l)"
  by (auto simp: ok_or_fault_def)

lemma ok_or_fault_bnd: "ok_or_fault r \<Longrightarrow> (\<And>x. r = Ok x \<Longrightarrow> ok_or_fault (f x)) \<Longrightarrow> ok_or_fault (bnd r f)"
  by (auto simp: ok_or_fault_def faults_def returns_def)

section \<open>Arrays\<close>

text \<open>A C array is a list of fixed length; an index outside it is undefined behaviour.\<close>

definition aget :: "'a list \<Rightarrow> int \<Rightarrow> 'a outcome" where
  "aget xs i = (if 0 \<le> i \<and> i < int (length xs) then Ok (xs ! nat i) else Fault ''read outside array'')"

definition aset :: "'a list \<Rightarrow> int \<Rightarrow> 'a \<Rightarrow> 'a list outcome" where
  "aset xs i v =
     (if 0 \<le> i \<and> i < int (length xs) then Ok (xs[nat i := v]) else Fault ''write outside array'')"

lemma aget_Ok [simp]: "0 \<le> i \<Longrightarrow> i < int (length xs) \<Longrightarrow> aget xs i = Ok (xs ! nat i)"
  by (simp add: aget_def)

lemma aset_Ok [simp]: "0 \<le> i \<Longrightarrow> i < int (length xs) \<Longrightarrow> aset xs i v = Ok (xs[nat i := v])"
  by (simp add: aset_def)

lemma aget_int [simp]: "i < length xs \<Longrightarrow> aget xs (int i) = Ok (xs ! i)"
  by (simp add: aget_def)

lemma aset_int [simp]: "i < length xs \<Longrightarrow> aset xs (int i) v = Ok (xs[i := v])"
  by (simp add: aset_def)

lemma aget_OkD: "aget xs i = Ok v \<Longrightarrow> 0 \<le> i \<and> i < int (length xs) \<and> v = xs ! nat i"
  by (simp add: aget_def split: if_splits)

lemma aset_OkD: "aset xs i v = Ok ys \<Longrightarrow> 0 \<le> i \<and> i < int (length xs) \<and> ys = xs[nat i := v]"
  by (auto simp: aset_def split: if_splits)

lemma ok_or_fault_array [simp]: "ok_or_fault (aget xs i)" "ok_or_fault (aset xs i v)"
  by (simp_all add: aget_def aset_def)

section \<open>Lists\<close>

lemma in_set_tlD: "x \<in> set (tl xs) \<Longrightarrow> x \<in> set xs"
  by (cases xs) auto

lemma all_less_2: "(\<forall>t<(2 :: nat). P t) \<longleftrightarrow> P 0 \<and> P 1"
  by (auto simp: less_2_cases_iff)

lemma hd_tl_conv_nth: "2 \<le> length xs \<Longrightarrow> hd (tl xs) = xs ! 1"
  by (cases xs; cases "tl xs") auto

end
