(* ===== verification/Disk_Request.thy ===== *)
theory Disk_Request
  imports Kernel_Prelude
begin

text \<open>
  Disk requests (\<open>struct req\<close> of \<open>kernel/virtio_disk.c\<close>) and the contract the request queues
  of the I/O scheduler share.

  A request points to a \<open>struct buf\<close>; the scheduler reads \<open>b->blockno\<close> through that pointer, so
  every operation takes the block numbers of the buffers as an argument, a map that is
  undefined on the null pointer. \<open>TempBuf\<close> is the static buffer \<open>temp\<close>, \<open>CacheBuf i\<close> is
  \<open>bcache.buf[i]\<close>.
\<close>

section \<open>Requests\<close>

datatype bufp = NullBuf | TempBuf | CacheBuf nat

type_synonym blocknos = "bufp \<rightharpoonup> uint"

record req =
  rq_b :: bufp
  rq_write :: int

definition blockno_of :: "blocknos \<Rightarrow> req \<Rightarrow> uint outcome" where
  "blockno_of m r = (case m (rq_b r) of None \<Rightarrow> Fault ''null buf'' | Some k \<Rightarrow> Ok k)"

definition null_req :: req where
  "null_req = \<lparr>rq_b = NullBuf, rq_write = 0\<rparr>"

definition key :: "blocknos \<Rightarrow> req \<Rightarrow> uint" where
  "key m r = the (m (rq_b r))"

lemma blockno_of_key [simp]: "m (rq_b r) \<noteq> None \<Longrightarrow> blockno_of m r = Ok (key m r)"
  by (auto simp: blockno_of_def key_def)

section \<open>The contract of a request queue\<close>

text \<open>
  \<open>rw_queue\<close> inserts a request, hands the head of the queue to the driver and lets the
  interrupt handler delete the head. The min-heap and the nearest-first queue both promise
  the laws below.
\<close>

locale request_queue =
  fixes ins :: "'q \<Rightarrow> req \<Rightarrow> 'q outcome"
    and head :: "'q \<Rightarrow> req"
    and del :: "'q \<Rightarrow> 'q outcome"
    and pending :: "'q \<Rightarrow> req multiset"
    and invar :: "'q \<Rightarrow> bool"
    and room :: nat
    and good :: "req \<Rightarrow> bool"
  assumes ins_ok: "invar q \<Longrightarrow> size (pending q) < room \<Longrightarrow> good x \<Longrightarrow>
      \<exists>q'. ins q x = Ok q' \<and> invar q' \<and> pending q' = pending q + {#x#}"
    and head_pending: "invar q \<Longrightarrow> pending q \<noteq> {#} \<Longrightarrow> head q \<in># pending q"
    and del_ok: "invar q \<Longrightarrow> pending q \<noteq> {#} \<Longrightarrow>
      \<exists>q'. del q = Ok q' \<and> invar q' \<and> pending q' = pending q - {#head q#}"
begin

text \<open>A request that meets an empty queue is at the head, and the queue is empty again after it.\<close>

lemma single_request:
  assumes "invar q" "pending q = {#}" "0 < room" "good x"
  shows "\<exists>q' q''. ins q x = Ok q' \<and> head q' = x \<and> del q' = Ok q'' \<and> invar q'' \<and> pending q'' = {#}"
proof -
  obtain q' where q': "ins q x = Ok q'" "invar q'" "pending q' = {#x#}"
    using ins_ok[of q x] assms by auto
  then have "head q' = x" using head_pending[of q'] by simp
  then show ?thesis using q' del_ok[of q'] by auto
qed

fun ins_all :: "'q \<Rightarrow> req list \<Rightarrow> 'q outcome" where
  "ins_all q [] = Ok q"
| "ins_all q (x # xs) = bnd (ins q x) (\<lambda>q'. ins_all q' xs)"

fun serve :: "nat \<Rightarrow> 'q \<Rightarrow> req list outcome" where
  "serve 0 q = Ok []"
| "serve (Suc n) q = bnd (del q) (\<lambda>q'. bnd (serve n q') (\<lambda>rs. Ok (head q # rs)))"

lemma ins_all_ok:
  assumes "invar q" "\<forall>x\<in>set xs. good x" "size (pending q) + length xs \<le> room"
  shows "\<exists>q'. ins_all q xs = Ok q' \<and> invar q' \<and> pending q' = pending q + mset xs"
  using assms
proof (induction xs arbitrary: q)
  case Nil
  then show ?case by simp
next
  case (Cons x xs)
  then obtain q1 where q1: "ins q x = Ok q1" "invar q1" "pending q1 = pending q + {#x#}"
    using ins_ok[of q x] by auto
  then show ?case using Cons.IH[of q1] Cons.prems by auto
qed

lemma serve_ok:
  assumes "invar q" "size (pending q) = n"
  shows "\<exists>rs. serve n q = Ok rs \<and> mset rs = pending q"
  using assms
proof (induction n arbitrary: q)
  case 0
  then show ?case by simp
next
  case (Suc n)
  then have ne: "pending q \<noteq> {#}" by auto
  then obtain q' where q': "del q = Ok q'" "invar q'" "pending q' = pending q - {#head q#}"
    using del_ok Suc.prems by blast
  have "size (pending q') = n"
    using q'(3) head_pending[OF Suc.prems(1) ne] Suc.prems(2) by (simp add: size_Diff_singleton)
  then obtain rs where "serve n q' = Ok rs" "mset rs = pending q'"
    using Suc.IH q'(2) by blast
  then show ?case using q' head_pending[OF Suc.prems(1) ne] by simp
qed

text \<open>No request is lost and none is served twice.\<close>

lemma every_request_served_once:
  assumes "invar q" "pending q = {#}" "\<forall>x\<in>set xs. good x" "length xs \<le> room"
  shows "\<exists>q' rs. ins_all q xs = Ok q' \<and> serve (length xs) q' = Ok rs \<and> mset rs = mset xs"
proof -
  obtain q' where q': "ins_all q xs = Ok q'" "invar q'" "pending q' = mset xs"
    using ins_all_ok[of q xs] assms by auto
  then show ?thesis using serve_ok[of q' "length xs"] by auto
qed

end

end
