(* ===== verification/Min_Heap.thy ===== *)
theory Min_Heap
  imports Disk_Request
begin

text \<open>
  The binary min-heap of \<open>kernel/virtio_disk.c\<close> that orders pending disk requests by block
  number (\<open>IO_type == 1\<close>): \<open>struct HNode\<close>, \<open>insertMinHeap\<close> and \<open>deleteFromMinHeap\<close>. Slot 0 of the array holds a sentinel request whose block number is 0,
  the heap proper occupies slots \<open>1 .. Size\<close>.
\<close>

section \<open>Data\<close>

record HNode =
  hn_data :: "req list"
  hn_Size :: int
  hn_Capacity :: int

section \<open>Operations\<close>

text \<open>
  The loop of \<open>insertMinHeap\<close>. It leaves slot \<open>p\<close> free for \<open>x\<close> and moves the parent down
  while the parent's block number is larger. At \<open>p = 0\<close> the body changes nothing, so a true
  loop condition there repeats for ever.
\<close>

fun insert_loop :: "blocknos \<Rightarrow> req \<Rightarrow> req list \<Rightarrow> nat \<Rightarrow> req list outcome" where
  "insert_loop m x d p =
     bnd (aget d (int (p div 2))) (\<lambda>q.
     bnd (blockno_of m q) (\<lambda>kq.
     bnd (blockno_of m x) (\<lambda>kx.
     if kq > kx then
       bnd (aset d (int p) q) (\<lambda>d'. if p = 0 then Diverge else insert_loop m x d' (p div 2))
     else aset d (int p) x)))"

declare insert_loop.simps [simp del]

definition insertMinHeap :: "blocknos \<Rightarrow> HNode \<Rightarrow> req \<Rightarrow> HNode outcome" where
  "insertMinHeap m h x =
     (if hn_Size h = hn_Capacity h then Panic ''queue out of capacity''
      else let p = hn_Size h + 1 in
        if p < 0 then Fault ''write outside array''
        else bnd (insert_loop m x (hn_data h) (nat p)) (\<lambda>d.
             Ok (h\<lparr>hn_data := d, hn_Size := p\<rparr>)))"

text \<open>
  The loop of \<open>deleteFromMinHeap\<close>: slot \<open>parent\<close> is free, \<open>x\<close> (the source's \<open>last\<close>) is looking for its place,
  \<open>n\<close> is the decremented \<open>Size\<close>. The smaller child moves up unless it is larger than \<open>x\<close>.
\<close>

function delete_loop :: "blocknos \<Rightarrow> nat \<Rightarrow> req \<Rightarrow> req list \<Rightarrow> nat \<Rightarrow> req list outcome" where
  "delete_loop m n x d parent =
     (if 1 \<le> parent \<and> parent * 2 \<le> n then
        bnd (aget d (int (parent * 2))) (\<lambda>l.
        bnd (if parent * 2 \<noteq> n then
               bnd (aget d (int (parent * 2 + 1))) (\<lambda>r.
               bnd (blockno_of m l) (\<lambda>kl.
               bnd (blockno_of m r) (\<lambda>kr.
               Ok (if kl > kr then (parent * 2 + 1, r) else (parent * 2, l)))))
             else Ok (parent * 2, l)) (\<lambda>(child, c).
        bnd (blockno_of m c) (\<lambda>kc.
        bnd (blockno_of m x) (\<lambda>kx.
        if kc > kx then aset d (int parent) x
        else bnd (aset d (int parent) c) (\<lambda>d'. delete_loop m n x d' child)))))
      else aset d (int parent) x)"
  by pat_completeness auto
termination
  by (relation "measure (\<lambda>(m, n, x, d, parent). Suc n - parent)")
    (auto split: if_splits)

declare delete_loop.simps [simp del]

definition deleteFromMinHeap :: "blocknos \<Rightarrow> HNode \<Rightarrow> HNode outcome" where
  "deleteFromMinHeap m h =
     bnd (aget (hn_data h) (hn_Size h)) (\<lambda>x.
     bnd (delete_loop m (nat (hn_Size h - 1)) x (hn_data h) 1) (\<lambda>d.
     Ok (h\<lparr>hn_data := d, hn_Size := hn_Size h - 1\<rparr>)))"

text \<open>The part of \<open>virtio_disk_init\<close> that sets the heap up, on zero-initialised static storage.\<close>

definition heap_sentinel :: req where
  "heap_sentinel = \<lparr>rq_b = TempBuf, rq_write = 0\<rparr>"

definition heap_init :: HNode where
  "heap_init = \<lparr>hn_data = (replicate 128 null_req)[0 := heap_sentinel], hn_Size = 0, hn_Capacity = 128\<rparr>"

section \<open>Invariant and abstraction\<close>

definition slots :: "nat \<Rightarrow> req list \<Rightarrow> req list" where
  "slots n d = take n (drop 1 d)"

definition keyed :: "blocknos \<Rightarrow> nat \<Rightarrow> req list \<Rightarrow> bool" where
  "keyed m n d \<longleftrightarrow> (\<forall>i\<le>n. m (rq_b (d ! i)) \<noteq> None)"

definition heap_ord :: "blocknos \<Rightarrow> nat \<Rightarrow> req list \<Rightarrow> bool" where
  "heap_ord m n d \<longleftrightarrow> (\<forall>i. 2 \<le> i \<longrightarrow> i \<le> n \<longrightarrow> key m (d ! (i div 2)) \<le> key m (d ! i))"

definition heap_inv :: "blocknos \<Rightarrow> HNode \<Rightarrow> bool" where
  "heap_inv m h \<longleftrightarrow>
     length (hn_data h) = 128 \<and> hn_Capacity h = 128 \<and> 0 \<le> hn_Size h \<and> hn_Size h \<le> 127 \<and>
     m (rq_b (hn_data h ! 0)) = Some 0 \<and> keyed m (nat (hn_Size h)) (hn_data h) \<and>
     heap_ord m (nat (hn_Size h)) (hn_data h)"

text \<open>The requests waiting in the heap.\<close>

definition heap_pending :: "HNode \<Rightarrow> req multiset" where
  "heap_pending h = mset (slots (nat (hn_Size h)) (hn_data h))"

lemma keyedD: "keyed m n d \<Longrightarrow> i \<le> n \<Longrightarrow> m (rq_b (d ! i)) \<noteq> None"
  by (simp add: keyed_def)

lemma length_slots [simp]: "n < length d \<Longrightarrow> length (slots n d) = n"
  by (simp add: slots_def)

lemma nth_slots: "i < n \<Longrightarrow> n < length d \<Longrightarrow> slots n d ! i = d ! Suc i"
  by (simp add: slots_def)

lemma slots_update: "1 \<le> i \<Longrightarrow> slots n (d[i := v]) = (slots n d)[i - 1 := v]"
  by (cases d; cases i) (simp_all add: slots_def take_update_swap)

lemma slots_Suc: "Suc n < length d \<Longrightarrow> slots (Suc n) d = slots n d @ [d ! Suc n]"
  by (simp add: slots_def take_Suc_conv_app_nth)

lemma set_slots: "n < length d \<Longrightarrow> set (slots n d) = (\<lambda>i. d ! i) ` {1..n}"
proof (induction n)
  case 0
  then show ?case by (simp add: slots_def)
next
  case (Suc n)
  then show ?case by (auto simp: slots_Suc atLeastAtMostSuc_conv)
qed

lemma mset_slots_move:
  assumes "1 \<le> i" "i \<le> n" "1 \<le> j" "j \<le> n" "n < length d" "i \<noteq> j"
  shows "mset (slots n (d[i := d ! j, j := x])) = mset (slots n (d[i := x]))"
proof -
  let ?s = "slots n d"
  have l: "i - 1 < length ?s" "j - 1 < length ?s" "i - 1 \<noteq> j - 1"
    using assms by auto
  have "mset ((?s[i - 1 := x])[j - 1 := ?s[i - 1 := x] ! (i - 1), i - 1 := ?s[i - 1 := x] ! (j - 1)])
      = mset (?s[i - 1 := x])"
    by (rule mset_swap) (use l in auto)
  moreover have "(?s[i - 1 := x])[j - 1 := ?s[i - 1 := x] ! (i - 1), i - 1 := ?s[i - 1 := x] ! (j - 1)]
      = ?s[i - 1 := ?s ! (j - 1), j - 1 := x]"
    using l by (intro nth_equalityI) (auto simp: nth_list_update)
  moreover have "?s ! (j - 1) = d ! j"
    using assms nth_slots[of "j - 1" n d] by simp
  ultimately show ?thesis
    using assms by (simp add: slots_update)
qed

section \<open>Insertion\<close>

text \<open>
  While the request \<open>x\<close> moves up, the array with \<open>x\<close> in the free slot \<open>p\<close> is a heap but for
  the edge from \<open>p\<close> to its parent, and the children of \<open>p\<close> are above the parent of \<open>p\<close>.
\<close>

definition swim_inv :: "blocknos \<Rightarrow> nat \<Rightarrow> req list \<Rightarrow> nat \<Rightarrow> bool" where
  "swim_inv m n d p \<longleftrightarrow>
     (\<forall>i. 2 \<le> i \<longrightarrow> i \<le> n \<longrightarrow> i \<noteq> p \<longrightarrow> key m (d ! (i div 2)) \<le> key m (d ! i)) \<and>
     (\<forall>i. 2 \<le> i \<longrightarrow> i \<le> n \<longrightarrow> i div 2 = p \<longrightarrow> 2 \<le> p \<longrightarrow> key m (d ! (p div 2)) \<le> key m (d ! i))"

lemma swim_inv_exit:
  assumes "swim_inv m n d p" "2 \<le> p \<Longrightarrow> key m (d ! (p div 2)) \<le> key m (d ! p)"
  shows "heap_ord m n d"
  using assms unfolding swim_inv_def heap_ord_def by blast

lemma swim_inv_step:
  assumes inv: "swim_inv m n (d[p := x]) p" and p: "2 \<le> p" "p \<le> n" "n < length d"
    and less: "key m x < key m (d ! (p div 2))"
  shows "swim_inv m n (d[p := d ! (p div 2), p div 2 := x]) (p div 2)"
proof -
  let ?q = "p div 2"
  let ?D = "d[p := x]" and ?E = "d[p := d ! (p div 2), p div 2 := x]"
  have q: "1 \<le> ?q" "?q < p" "?q div 2 < ?q" using p by auto
  have E: "?E ! i = (if i = ?q then x else if i = p then d ! ?q else d ! i)" if "i \<le> n" for i
    using that p q by (auto simp: nth_list_update)
  have D: "?D ! i = (if i = p then x else d ! i)" if "i \<le> n" for i
    using that p by (auto simp: nth_list_update)
  have i1: "key m (?D ! (i div 2)) \<le> key m (?D ! i)" if "2 \<le> i" "i \<le> n" "i \<noteq> p" for i
    using inv that unfolding swim_inv_def by blast
  have i2: "key m (?D ! ?q) \<le> key m (?D ! i)" if "2 \<le> i" "i \<le> n" "i div 2 = p" for i
    using inv that p unfolding swim_inv_def by blast
  show ?thesis
    unfolding swim_inv_def
  proof (intro conjI allI impI)
    fix i assume i: "2 \<le> i" "i \<le> n" "i \<noteq> ?q"
    have half: "i div 2 \<le> n" "i div 2 < i" using i by auto
    show "key m (?E ! (i div 2)) \<le> key m (?E ! i)"
    proof (cases "i = p")
      case True
      then show ?thesis using E[of p] E[of ?q] p q less by auto
    next
      case False
      show ?thesis
      proof (cases "i div 2 = p")
        case True
        then show ?thesis using i2[OF i(1,2) True] False i half E[of i] E[of p] D[of i] D[of ?q] p q by auto
      next
        case nip: False
        show ?thesis
        proof (cases "i div 2 = ?q")
          case True
          have "key m (d ! ?q) \<le> key m (d ! i)"
            using i1[OF i(1,2) False] D[of i] D[of "i div 2"] i half False nip True by auto
          then show ?thesis using True i half False E[of i] E[of ?q] less by auto
        next
          case nq: False
          then show ?thesis
            using i1[OF i(1,2) False] i half False nip E[of i] E[of "i div 2"] D[of i] D[of "i div 2"] by auto
        qed
      qed
    qed
  next
    fix i assume i: "2 \<le> i" "i \<le> n" "i div 2 = ?q" "2 \<le> ?q"
    have up: "key m (d ! (?q div 2)) \<le> key m (d ! ?q)"
      using i1[of ?q] D[of ?q] D[of "?q div 2"] i p q by auto
    have "key m (d ! (?q div 2)) \<le> key m (?E ! i)"
    proof (cases "i = p")
      case True
      then show ?thesis using up E[of p] p q by auto
    next
      case False
      then have "key m (d ! ?q) \<le> key m (d ! i)"
        using i1[OF i(1,2) False] D[of i] D[of "i div 2"] i p q by auto
      then show ?thesis using up False i E[of i] q by fastforce
    qed
    then show "key m (?E ! (?q div 2)) \<le> key m (?E ! i)"
      using E[of "?q div 2"] p q by auto
  qed
qed

lemma keyed_update: "keyed m n d \<Longrightarrow> m (rq_b x) \<noteq> None \<Longrightarrow> keyed m n (d[i := x])"
  by (cases "i < length d") (auto simp: keyed_def nth_list_update list_update_beyond)

lemma insert_loop_correct:
  assumes "1 \<le> p" "p \<le> n" "n < length d" "m (rq_b (d ! 0)) = Some 0" "m (rq_b x) \<noteq> None"
    "keyed m n (d[p := x])" "swim_inv m n (d[p := x]) p"
  shows "\<exists>d'. insert_loop m x d p = Ok d' \<and> length d' = length d \<and> d' ! 0 = d ! 0 \<and>
    keyed m n d' \<and> heap_ord m n d' \<and> mset (slots n d') = mset (slots n (d[p := x]))"
  using assms
proof (induction m x d p rule: insert_loop.induct)
  case (1 m x d p)
  let ?q = "p div 2"
  have q0: "m (rq_b (d ! ?q)) \<noteq> None" "?q < length d" "p < length d"
    using "1.prems" keyedD[of m n "d[p := x]" ?q] by (auto simp: nth_list_update split: if_splits)
  show ?case
  proof (cases "key m x < key m (d ! ?q)")
    case True
    then have p2: "2 \<le> p" using "1.prems" by (cases "p = 1") (auto simp: key_def)
    let ?d = "d[p := d ! ?q]"
    have eq: "insert_loop m x d p = insert_loop m x ?d ?q"
      using True q0 "1.prems" p2 by (subst insert_loop.simps) simp
    have k: "keyed m n (?d[?q := x])"
      using "1.prems"(5,6) q0 p2
      by (auto simp: keyed_def nth_list_update)
    have "\<exists>d'. insert_loop m x ?d ?q = Ok d' \<and> length d' = length ?d \<and> d' ! 0 = ?d ! 0 \<and>
      keyed m n d' \<and> heap_ord m n d' \<and> mset (slots n d') = mset (slots n (?d[?q := x]))"
      using "1.IH"[of "d ! ?q" "key m (d ! ?q)" "key m x" ?d] True q0 p2 "1.prems" k
        swim_inv_step[OF "1.prems"(7) p2 "1.prems"(2,3) True] by simp
    then show ?thesis
      using eq mset_slots_move[of p n ?q d x] "1.prems" p2 by auto
  next
    case False
    have eq: "insert_loop m x d p = Ok (d[p := x])"
      using False q0 "1.prems" by (subst insert_loop.simps) simp
    have "heap_ord m n (d[p := x])"
      using swim_inv_exit[OF "1.prems"(7)] False q0 "1.prems" by (auto simp: nth_list_update)
    then show ?thesis using eq "1.prems" by auto
  qed
qed

lemma insertMinHeap_correct:
  assumes inv: "heap_inv m h" and size: "hn_Size h < 127" and x: "m (rq_b x) \<noteq> None"
  shows "\<exists>h'. insertMinHeap m h x = Ok h' \<and> heap_inv m h' \<and> hn_Size h' = hn_Size h + 1 \<and>
    heap_pending h' = heap_pending h + {#x#}"
proof -
  let ?d = "hn_data h" and ?n = "nat (hn_Size h)"
  have p: "nat (hn_Size h + 1) = Suc ?n" "Suc ?n < length ?d" "length ?d = 128"
    using inv size by (auto simp: heap_inv_def)
  have k: "keyed m (Suc ?n) (?d[Suc ?n := x])"
    using inv x p by (auto simp: heap_inv_def keyed_def nth_list_update le_Suc_eq)
  have ord: "heap_ord m ?n ?d" and sent: "m (rq_b (?d ! 0)) = Some 0"
    using inv by (auto simp: heap_inv_def)
  have s: "swim_inv m (Suc ?n) (?d[Suc ?n := x]) (Suc ?n)"
    using ord p unfolding swim_inv_def heap_ord_def by (auto simp: nth_list_update le_Suc_eq)
  obtain d' where d': "insert_loop m x ?d (Suc ?n) = Ok d'" "length d' = 128" "d' ! 0 = ?d ! 0"
    "keyed m (Suc ?n) d'" "heap_ord m (Suc ?n) d'"
    "mset (slots (Suc ?n) d') = mset (slots (Suc ?n) (?d[Suc ?n := x]))"
    using insert_loop_correct[of "Suc ?n" "Suc ?n" ?d m x] k s sent x p by auto
  have "mset (slots (Suc ?n) (?d[Suc ?n := x])) = mset (slots ?n ?d) + {#x#}"
    using p by (simp add: slots_Suc) (simp add: slots_update list_update_beyond)
  then show ?thesis
    using d' p inv size sent
    by (auto simp: insertMinHeap_def heap_inv_def heap_pending_def Let_def)
qed

section \<open>Deletion\<close>

text \<open>
  While \<open>x\<close> moves down, the array with \<open>x\<close> in the free slot \<open>p\<close> is a heap but for the edges
  from \<open>p\<close> to its children, and the children of \<open>p\<close> are above the parent of \<open>p\<close>.
\<close>

definition sink_inv :: "blocknos \<Rightarrow> nat \<Rightarrow> req list \<Rightarrow> nat \<Rightarrow> bool" where
  "sink_inv m n d p \<longleftrightarrow>
     (\<forall>i. 2 \<le> i \<longrightarrow> i \<le> n \<longrightarrow> i div 2 \<noteq> p \<longrightarrow> key m (d ! (i div 2)) \<le> key m (d ! i)) \<and>
     (\<forall>i. 2 \<le> i \<longrightarrow> i \<le> n \<longrightarrow> i div 2 = p \<longrightarrow> 2 \<le> p \<longrightarrow> key m (d ! (p div 2)) \<le> key m (d ! i))"

lemma sink_inv_exit:
  assumes "sink_inv m n d p"
    and "\<And>i. 2 \<le> i \<Longrightarrow> i \<le> n \<Longrightarrow> i div 2 = p \<Longrightarrow> key m (d ! p) \<le> key m (d ! i)"
  shows "heap_ord m n d"
  using assms unfolding sink_inv_def heap_ord_def by metis

lemma sink_inv_step:
  assumes inv: "sink_inv m n (d[p := x]) p" and p: "1 \<le> p" "c \<le> n" "n < length d" "c div 2 = p"
    and small: "\<And>i. i \<le> n \<Longrightarrow> i div 2 = p \<Longrightarrow> key m (d ! c) \<le> key m (d ! i)"
    and le: "key m (d ! c) \<le> key m x"
  shows "sink_inv m n (d[p := d ! c, c := x]) c"
proof -
  let ?D = "d[p := x]" and ?E = "d[p := d ! c, c := x]"
  have c: "2 \<le> c" "p < c" using p by auto
  have E: "?E ! i = (if i = c then x else if i = p then d ! c else d ! i)" if "i \<le> n" for i
    using that p c by (auto simp: nth_list_update)
  have D: "?D ! i = (if i = p then x else d ! i)" if "i \<le> n" for i
    using that p c by (auto simp: nth_list_update)
  have i1: "key m (?D ! (i div 2)) \<le> key m (?D ! i)" if "2 \<le> i" "i \<le> n" "i div 2 \<noteq> p" for i
    using inv that unfolding sink_inv_def by blast
  have i2: "key m (?D ! (p div 2)) \<le> key m (?D ! i)" if "2 \<le> i" "i \<le> n" "i div 2 = p" "2 \<le> p" for i
    using inv that unfolding sink_inv_def by blast
  show ?thesis
    unfolding sink_inv_def
  proof (intro conjI allI impI)
    fix i assume i: "2 \<le> i" "i \<le> n" "i div 2 \<noteq> c"
    have half: "i div 2 \<le> n" "i div 2 < i" using i by auto
    show "key m (?E ! (i div 2)) \<le> key m (?E ! i)"
    proof (cases "i div 2 = p")
      case True
      then have "key m (d ! c) \<le> key m (?E ! i)"
        using E[OF i(2)] small[OF i(2) True] le half by auto
      then show ?thesis using True E[of p] half c by auto
    next
      case False
      then have *: "key m (?D ! (i div 2)) \<le> key m (?D ! i)" by (rule i1[OF i(1,2)])
      show ?thesis
      proof (cases "i = p")
        case True
        have "key m (?D ! (p div 2)) \<le> key m (?D ! c)"
          using i2[of c] p c True i by auto
        then show ?thesis using True E[of p] E[of "p div 2"] D[of c] D[of "p div 2"] p c half by auto
      next
        case nip: False
        then show ?thesis
          using * False i half p E[of i] E[of "i div 2"] D[of i] D[of "i div 2"] by (cases "i = c") auto
      qed
    qed
  next
    fix i assume i: "2 \<le> i" "i \<le> n" "i div 2 = c" "2 \<le> c"
    have "i \<noteq> c" "i \<noteq> p" "c \<noteq> p" using i c by auto
    then have "key m (d ! c) \<le> key m (d ! i)"
      using i1[of i] i c D[of i] D[of c] p by auto
    then show "key m (?E ! (c div 2)) \<le> key m (?E ! i)"
      using E[of i] E[of p] p c i \<open>i \<noteq> c\<close> \<open>i \<noteq> p\<close> by auto
  qed
qed

text \<open>What one pass of the loop picks: the child with the smaller block number.\<close>

lemma delete_loop_unfold:
  assumes "1 \<le> p" "p * 2 \<le> n" "n < length d" "keyed m n (d[p := x])" "m (rq_b x) \<noteq> None"
  shows "\<exists>c. c \<le> n \<and> c div 2 = p \<and> p < c \<and>
    (\<forall>i. i \<le> n \<longrightarrow> i div 2 = p \<longrightarrow> key m (d ! c) \<le> key m (d ! i)) \<and>
    delete_loop m n x d p =
      (if key m (d ! c) > key m x then Ok (d[p := x]) else delete_loop m n x (d[p := d ! c]) c)"
proof -
  have k: "m (rq_b (d ! i)) \<noteq> None" if "i \<le> n" "i \<noteq> p" for i
    using keyedD[OF assms(4) that(1)] that assms by (auto simp: nth_list_update)
  have ch: "i = p * 2 \<or> i = p * 2 + 1" if "i div 2 = p" for i using that by arith
  define c where "c = (if p * 2 \<noteq> n \<and> key m (d ! (p * 2)) > key m (d ! (p * 2 + 1)) then p * 2 + 1 else p * 2)"
  have cn: "c \<le> n" "c div 2 = p" "p < c" using assms by (auto simp: c_def)
  have kc: "m (rq_b (d ! c)) \<noteq> None" using k cn by auto
  have small: "key m (d ! c) \<le> key m (d ! i)" if "i \<le> n" "i div 2 = p" for i
    using ch[OF that(2)] that assms by (auto simp: c_def)
  have sel: "(if p * 2 \<noteq> n then
       bnd (aget d (int (p * 2 + 1))) (\<lambda>r.
       bnd (blockno_of m (d ! (p * 2))) (\<lambda>kl.
       bnd (blockno_of m r) (\<lambda>kr.
       Ok (if kl > kr then (p * 2 + 1, r) else (p * 2, d ! (p * 2))))))
     else Ok (p * 2, d ! (p * 2))) = Ok (c, d ! c)"
    using assms k[of "p * 2"] k[of "p * 2 + 1"] aget_int[of "p * 2 + 1" d]
    by (auto simp: c_def simp del: aget_int)
  have "delete_loop m n x d p =
      (if key m (d ! c) > key m x then Ok (d[p := x]) else delete_loop m n x (d[p := d ! c]) c)"
    using assms cn kc sel aget_int[of "p * 2" d]
    by (subst delete_loop.simps) (simp del: aget_int)
  then show ?thesis using cn small by blast
qed

lemma delete_loop_correct:
  assumes "1 \<le> p" "p \<le> max 1 n" "n < length d" "1 < length d" "m (rq_b x) \<noteq> None"
    "keyed m n (d[p := x])" "sink_inv m n (d[p := x]) p"
  shows "\<exists>d'. delete_loop m n x d p = Ok d' \<and> length d' = length d \<and> d' ! 0 = d ! 0 \<and>
    keyed m n d' \<and> heap_ord m n d' \<and> mset (slots n d') = mset (slots n (d[p := x]))"
  using assms
proof (induction "Suc n - p" arbitrary: d p rule: less_induct)
  case less
  show ?case
  proof (cases "p * 2 \<le> n")
    case False
    have "delete_loop m n x d p = Ok (d[p := x])"
      using False less.prems by (subst delete_loop.simps) auto
    moreover have "heap_ord m n (d[p := x])"
      using False by (intro sink_inv_exit[OF less.prems(7)]) auto
    ultimately show ?thesis using less.prems by auto
  next
    case True
    then obtain c where c: "c \<le> n" "c div 2 = p" "p < c"
      "\<And>i. i \<le> n \<Longrightarrow> i div 2 = p \<Longrightarrow> key m (d ! c) \<le> key m (d ! i)"
      and eq: "delete_loop m n x d p =
        (if key m (d ! c) > key m x then Ok (d[p := x]) else delete_loop m n x (d[p := d ! c]) c)"
      using delete_loop_unfold[OF less.prems(1) True less.prems(3,6,5)] by blast
    show ?thesis
    proof (cases "key m (d ! c) > key m x")
      case gt: True
      have "heap_ord m n (d[p := x])"
      proof (rule sink_inv_exit[OF less.prems(7)])
        fix i assume i: "2 \<le> i" "i \<le> n" "i div 2 = p"
        then have "key m x \<le> key m (d ! i)" using c(4)[of i] gt by auto
        then show "key m (d[p := x] ! p) \<le> key m (d[p := x] ! i)"
          using i less.prems by (auto simp: nth_list_update)
      qed
      then show ?thesis using eq gt less.prems by auto
    next
      case False
      let ?d = "d[p := d ! c]"
      have k: "keyed m n (?d[c := x])"
        using less.prems(3,5,6) keyedD[OF less.prems(6), of c] c
        by (auto simp: keyed_def nth_list_update)
      have "\<exists>d'. delete_loop m n x ?d c = Ok d' \<and> length d' = length ?d \<and> d' ! 0 = ?d ! 0 \<and>
        keyed m n d' \<and> heap_ord m n d' \<and> mset (slots n d') = mset (slots n (?d[c := x]))"
        using less.hyps[of c ?d] sink_inv_step[OF less.prems(7,1) c(1) less.prems(3) c(2) c(4)]
          False c k less.prems by auto
      then show ?thesis
        using eq False mset_slots_move[of p n c d x] c less.prems by auto
    qed
  qed
qed

lemma heap_root_minimal:
  assumes "heap_ord m n d" "1 \<le> i" "i \<le> n"
  shows "key m (d ! 1) \<le> key m (d ! i)"
  using assms(2,3)
proof (induction i rule: less_induct)
  case (less i)
  show ?case
  proof (cases "i = 1")
    case False
    then have "key m (d ! 1) \<le> key m (d ! (i div 2))" using less by auto
    also have "\<dots> \<le> key m (d ! i)" using assms(1) less.prems False by (auto simp: heap_ord_def)
    finally show ?thesis .
  qed simp
qed

lemma deleteFromMinHeap_correct:
  assumes inv: "heap_inv m h" and size: "1 \<le> hn_Size h"
  shows "\<exists>h'. deleteFromMinHeap m h = Ok h' \<and> heap_inv m h' \<and> hn_Size h' = hn_Size h - 1 \<and>
    heap_pending h' = heap_pending h - {#hn_data h ! 1#}"
proof -
  obtain n where sz: "nat (hn_Size h) = Suc n"
    using size by (cases "nat (hn_Size h)") auto
  then have n: "hn_Size h = int n + 1" "nat (hn_Size h - 1) = n" "nat (int n + 1) = Suc n"
    by auto
  let ?d = "hn_data h" and ?x = "hn_data h ! Suc n"
  have len: "length ?d = 128" "Suc n \<le> 127" and sent: "m (rq_b (?d ! 0)) = Some 0"
    and k: "keyed m (Suc n) ?d" and ord: "heap_ord m (Suc n) ?d" and cap: "hn_Capacity h = 128"
    using inv n by (auto simp: heap_inv_def)
  have kx: "m (rq_b ?x) \<noteq> None" using keyedD[OF k] by auto
  have k1: "keyed m n (?d[1 := ?x])"
    using k kx by (intro keyed_update) (auto simp: keyed_def)
  have s: "sink_inv m n (?d[1 := ?x]) 1"
    using ord len unfolding sink_inv_def heap_ord_def by (auto simp: nth_list_update)
  obtain d' where d': "delete_loop m n ?x ?d 1 = Ok d'" "length d' = 128" "d' ! 0 = ?d ! 0"
    "keyed m n d'" "heap_ord m n d'" "mset (slots n d') = mset (slots n (?d[1 := ?x]))"
    using delete_loop_correct[of 1 n ?d m ?x] kx k1 s len by auto
  have "mset (slots n (?d[1 := ?x])) = mset (slots (Suc n) ?d) - {#?d ! 1#}"
  proof (cases n)
    case 0
    then show ?thesis using len by (simp add: slots_def take_Suc_conv_app_nth)
  next
    case (Suc j)
    then have s0: "slots n ?d ! 0 = ?d ! 1" using nth_slots[of 0 n ?d] len by simp
    have "slots n ?d ! 0 \<in> set (slots n ?d)"
      using Suc len by (intro nth_mem) simp
    then obtain M where M: "mset (slots n ?d) = add_mset (?d ! 1) M"
      unfolding s0 by (metis multi_member_split set_mset_mset)
    have "mset (slots (Suc n) ?d) = add_mset ?x (add_mset (?d ! 1) M)"
      using M len by (simp add: slots_Suc)
    moreover have "mset (slots n (?d[1 := ?x])) = add_mset ?x M"
      using M s0 Suc len by (simp add: slots_update mset_update)
    ultimately show ?thesis by simp
  qed
  then show ?thesis
    using d' n len sent cap
    by (auto simp: deleteFromMinHeap_def heap_inv_def heap_pending_def)
qed

section \<open>Serving order\<close>

text \<open>Take the request at the root and delete it, \<open>n\<close> times.\<close>

fun heap_serve :: "blocknos \<Rightarrow> nat \<Rightarrow> HNode \<Rightarrow> req list outcome" where
  "heap_serve m 0 h = Ok []"
| "heap_serve m (Suc n) h =
     bnd (aget (hn_data h) 1) (\<lambda>r.
     bnd (deleteFromMinHeap m h) (\<lambda>h'.
     bnd (heap_serve m n h') (\<lambda>rs. Ok (r # rs))))"

lemma heap_pending_nth:
  assumes "heap_inv m h" "1 \<le> hn_Size h"
  shows "hn_data h ! 1 \<in># heap_pending h"
    and "r \<in># heap_pending h \<Longrightarrow> key m (hn_data h ! 1) \<le> key m r"
  using assms heap_root_minimal[of m "nat (hn_Size h)" "hn_data h"]
  by (auto simp: heap_pending_def heap_inv_def set_slots)

lemma size_heap_pending: "heap_inv m h \<Longrightarrow> size (heap_pending h) = nat (hn_Size h)"
  by (auto simp: heap_pending_def heap_inv_def)

lemma heap_serve_sorted:
  assumes "heap_inv m h" "hn_Size h = int n"
  shows "\<exists>rs. heap_serve m n h = Ok rs \<and> mset rs = heap_pending h \<and> sorted (map (key m) rs)"
  using assms
proof (induction n arbitrary: h)
  case 0
  then show ?case using size_heap_pending[of m h] by simp
next
  case (Suc n)
  let ?r = "hn_data h ! 1"
  have len: "length (hn_data h) = 128" using Suc.prems by (simp add: heap_inv_def)
  obtain h' where h': "deleteFromMinHeap m h = Ok h'" "heap_inv m h'" "hn_Size h' = int n"
    "heap_pending h' = heap_pending h - {#?r#}"
    using deleteFromMinHeap_correct[of m h] Suc.prems by auto
  obtain rs where rs: "heap_serve m n h' = Ok rs" "mset rs = heap_pending h'"
    "sorted (map (key m) rs)"
    using Suc.IH[OF h'(2,3)] by blast
  have "key m ?r \<le> key m r" if "r \<in> set rs" for r
  proof -
    have "r \<in># heap_pending h'" using that rs(2) by (metis set_mset_mset)
    then have "r \<in># heap_pending h" unfolding h'(4) by (rule in_diffD)
    then show ?thesis using heap_pending_nth(2)[OF Suc.prems(1)] Suc.prems(2) by simp
  qed
  moreover have "mset (?r # rs) = heap_pending h"
    using rs(2) h'(4) heap_pending_nth(1)[OF Suc.prems(1)] Suc.prems(2) by simp
  ultimately show ?case
    using rs h'(1) len by auto
qed

lemma heap_inv_init: "m TempBuf = Some 0 \<Longrightarrow> heap_inv m heap_init"
  by (simp add: heap_inv_def heap_init_def heap_sentinel_def keyed_def heap_ord_def)

lemma heap_pending_init: "heap_pending heap_init = {#}"
  by (simp add: heap_pending_def heap_init_def slots_def)

text \<open>The min-heap is a request queue with room for 127 requests.\<close>

interpretation min_heap: request_queue "insertMinHeap m" "\<lambda>h. hn_data h ! 1" "deleteFromMinHeap m"
  heap_pending "heap_inv m" 127 "\<lambda>x. m (rq_b x) \<noteq> None" for m
proof
  fix q :: HNode and x :: req
  assume *: "heap_inv m q" "size (heap_pending q) < 127" "m (rq_b x) \<noteq> None"
  then have "hn_Size q < 127" using size_heap_pending[of m q] by (auto simp: heap_inv_def)
  with * show "\<exists>q'. insertMinHeap m q x = Ok q' \<and> heap_inv m q' \<and> heap_pending q' = heap_pending q + {#x#}"
    using insertMinHeap_correct[of m q x] by auto
next
  fix q :: HNode
  assume q: "heap_inv m q" "heap_pending q \<noteq> {#}"
  then have "1 \<le> hn_Size q" using size_heap_pending[of m q] by (cases "hn_Size q = 0") (auto simp: heap_inv_def)
  then show "hn_data q ! 1 \<in># heap_pending q"
    and "\<exists>q'. deleteFromMinHeap m q = Ok q' \<and> heap_inv m q' \<and>
      heap_pending q' = heap_pending q - {#hn_data q ! 1#}"
    using q heap_pending_nth(1) deleteFromMinHeap_correct[of m q] by auto
qed

section \<open>Example states\<close>

definition ex_blocks :: blocknos where
  "ex_blocks = (\<lambda>b. case b of NullBuf \<Rightarrow> None | TempBuf \<Rightarrow> Some 0 | CacheBuf i \<Rightarrow> Some (of_nat (100 - i)))"

definition ex_req :: "nat \<Rightarrow> req" where
  "ex_req i = \<lparr>rq_b = CacheBuf i, rq_write = 0\<rparr>"

definition ex_heap :: HNode where
  "ex_heap = heap_init\<lparr>hn_data := heap_sentinel # ex_req 9 # ex_req 7 # ex_req 8 # replicate 124 null_req,
     hn_Size := 3\<rparr>"

definition ex_full_heap :: HNode where
  "ex_full_heap = heap_init\<lparr>hn_data := heap_sentinel # replicate 127 (ex_req 0), hn_Size := 127\<rparr>"

lemma ex_blocks_temp: "ex_blocks TempBuf = Some 0"
  by (simp add: ex_blocks_def)

lemma key_ex_blocks [simp]: "key ex_blocks (ex_req i) = of_nat (100 - i)"
  "ex_blocks (rq_b (ex_req i)) = Some (of_nat (100 - i))" "ex_blocks (rq_b heap_sentinel) = Some 0"
  by (simp_all add: key_def ex_req_def ex_blocks_def heap_sentinel_def)

lemma ex_heap_inv: "heap_inv ex_blocks ex_heap"
proof -
  have fields: "length (hn_data ex_heap) = 128" "hn_Capacity ex_heap = 128" "hn_Size ex_heap = 3"
    by (simp_all add: ex_heap_def heap_init_def)
  have nth: "hn_data ex_heap ! 0 = heap_sentinel" "hn_data ex_heap ! 1 = ex_req 9"
    "hn_data ex_heap ! 2 = ex_req 7" "hn_data ex_heap ! 3 = ex_req 8"
    by (simp_all add: ex_heap_def)
  have "i \<in> {0, 1, 2, 3}" if "i \<le> 3" for i :: nat using that by auto
  then have "keyed ex_blocks 3 (hn_data ex_heap)"
    unfolding keyed_def using nth by fastforce
  moreover have "heap_ord ex_blocks 3 (hn_data ex_heap)"
    unfolding heap_ord_def
  proof (intro allI impI)
    fix i :: nat assume "2 \<le> i" "i \<le> 3"
    then consider "i = 2" | "i = 3" by linarith
    then show "key ex_blocks (hn_data ex_heap ! (i div 2)) \<le> key ex_blocks (hn_data ex_heap ! i)"
      using nth by cases simp_all
  qed
  ultimately show ?thesis using fields nth(1) by (simp add: heap_inv_def)
qed

lemma ex_full_heap_inv: "heap_inv ex_blocks ex_full_heap"
proof -
  have "hn_data ex_full_heap ! i = (if i = 0 then heap_sentinel else ex_req 0)" if "i \<le> 127" for i
    using that by (cases i) (auto simp: ex_full_heap_def)
  moreover have "length (hn_data ex_full_heap) = 128" "hn_Capacity ex_full_heap = 128"
    "hn_Size ex_full_heap = 127"
    by (simp_all add: ex_full_heap_def heap_init_def)
  ultimately show ?thesis
    by (auto simp: heap_inv_def keyed_def heap_ord_def)
qed

section \<open>Properties\<close>

text \<open>inserting a request into a well-formed heap with a free slot returns (no panic, no
  access outside the array, no endless loop), keeps the heap well formed and adds exactly that
  request to the pending ones.\<close>

theorem insertMinHeap_adds_request:
  assumes "heap_inv m h" and "hn_Size h < 127" and "m (rq_b x) \<noteq> None"
  shows "\<exists>h'. insertMinHeap m h x = Ok h' \<and> heap_inv m h' \<and> hn_Size h' = hn_Size h + 1 \<and>
    heap_pending h' = heap_pending h + {#x#}"
  using assms by (rule insertMinHeap_correct)

theorem insertMinHeap_adds_request_witness:
  "\<exists>h'. insertMinHeap ex_blocks ex_heap (ex_req 3) = Ok h' \<and> heap_inv ex_blocks h' \<and>
     hn_Size h' = 4 \<and> heap_pending h' = heap_pending ex_heap + {#ex_req 3#}"
proof -
  have "hn_Size ex_heap < 127" "ex_blocks (rq_b (ex_req 3)) \<noteq> None" "hn_Size ex_heap + 1 = 4"
    by (simp_all add: ex_heap_def ex_req_def ex_blocks_def)
  then show ?thesis using insertMinHeap_adds_request[OF ex_heap_inv, of "ex_req 3"] by auto
qed



text \<open>the capacity test of \<open>insertMinHeap\<close> is off by one. \<open>Capacity\<close> is 128, the array has
  128 slots and slot 0 is the sentinel, so with 127 requests pending the test still passes and
  the next insertion stores outside \<open>data[]\<close>.\<close>

theorem insertMinHeap_overflows_array:
  assumes "heap_inv m h" and "hn_Size h = 127" and "m (rq_b x) \<noteq> None"
  shows "insertMinHeap m h x = Fault ''write outside array''"
proof -
  have "insert_loop m x (hn_data h) 128 = Fault ''write outside array''"
    using assms keyedD[of m 127 "hn_data h" 64]
    by (subst insert_loop.simps) (auto simp: heap_inv_def aset_def)
  then show ?thesis using assms by (simp add: insertMinHeap_def heap_inv_def)
qed

theorem insertMinHeap_overflows_array_witness:
  "insertMinHeap ex_blocks ex_full_heap (ex_req 3) = Fault ''write outside array''"
  by (rule insertMinHeap_overflows_array[OF ex_full_heap_inv])
    (simp_all add: ex_full_heap_def ex_req_def ex_blocks_def)

text \<open>\<open>deleteFromMinHeap\<close> has no test for an empty heap. The call
  makes \<open>Size\<close> negative, and the next insertion lands in slot 0 and destroys the sentinel that
  bounds the insertion loop.\<close>

theorem delete_empty_heap_breaks_sentinel:
  assumes "heap_inv m h" and "hn_Size h = 0" and "m (rq_b x) = Some k"
  shows "\<exists>h' h''. deleteFromMinHeap m h = Ok h' \<and> hn_Size h' = -1 \<and>
    insertMinHeap m h' x = Ok h'' \<and> hn_data h'' ! 0 = x \<and> hn_Size h'' = 0"
proof -
  let ?d = "hn_data h"
  let ?h' = "h\<lparr>hn_data := ?d[1 := ?d ! 0], hn_Size := -1\<rparr>"
  have len: "length ?d = 128" and s: "m (rq_b (?d ! 0)) = Some 0" and cap: "hn_Capacity h = 128"
    using assms by (auto simp: heap_inv_def)
  have 1: "deleteFromMinHeap m h = Ok ?h'"
    using assms len by (simp add: deleteFromMinHeap_def delete_loop.simps)
  have 2: "insert_loop m x (?d[1 := ?d ! 0]) 0 = Ok (?d[1 := ?d ! 0, 0 := x])"
    using len s assms(3) by (subst insert_loop.simps) (simp add: blockno_of_def)
  show ?thesis
    using 1 2 cap len by (auto simp: insertMinHeap_def)
qed

theorem delete_empty_heap_breaks_sentinel_witness:
  "\<exists>h' h''. deleteFromMinHeap ex_blocks heap_init = Ok h' \<and> hn_Size h' = -1 \<and>
    insertMinHeap ex_blocks h' (ex_req 3) = Ok h'' \<and> hn_data h'' ! 0 = ex_req 3 \<and> hn_Size h'' = 0"
  by (rule delete_empty_heap_breaks_sentinel[OF heap_inv_init, where k = 97])
    (simp_all add: ex_blocks_temp heap_init_def ex_req_def ex_blocks_def)

end
