(* ===== verification/Sstf_Queue.thy ===== *)
theory Sstf_Queue
  imports Disk_Request
begin

text \<open>
  The nearest-first request queue of \<open>kernel/virtio_disk.c\<close> (\<open>IO_type == 2\<close>): \<open>struct Queue\<close>,
  \<open>distance\<close>, \<open>SSTF\<close>, \<open>enqueue\<close> and \<open>dequeue\<close>. Slot 0 holds the request being served; \<open>SSTF\<close>
  moves a request nearest to it into slot 1.
\<close>

section \<open>Data and operations\<close>

record Queue =
  q_data :: "req list"
  q_size :: int
  q_capacity :: int

text \<open>
  \<open>distance\<close> subtracts two unsigned 32-bit block numbers, stores the result in an \<open>int\<close> and
  negates it when it is negative; the result is compared as an \<open>int\<close>.
\<close>

definition distance :: "blocknos \<Rightarrow> req \<Rightarrow> req \<Rightarrow> uint outcome" where
  "distance m x y =
     bnd (blockno_of m x) (\<lambda>bx.
     bnd (blockno_of m y) (\<lambda>by'.
     let delta = bx - by' in Ok (if 0 <=s delta then delta else - delta)))"

function sstf_loop :: "blocknos \<Rightarrow> nat \<Rightarrow> nat \<Rightarrow> req list \<Rightarrow> req list outcome" where
  "sstf_loop m n i d =
     (if i < n then
        bnd (aget d 0) (\<lambda>d0.
        bnd (aget d (int i)) (\<lambda>di.
        bnd (aget d 1) (\<lambda>d1.
        bnd (distance m d0 di) (\<lambda>disti.
        bnd (distance m d0 d1) (\<lambda>dist1.
        if disti <s dist1 then
          bnd (aset d (int i) d1) (\<lambda>d'.
          bnd (aset d' 1 di) (\<lambda>d''. sstf_loop m n (i + 1) d''))
        else sstf_loop m n (i + 1) d)))))
      else Ok d)"
  by pat_completeness auto
termination
  by (relation "measure (\<lambda>(m, n, i, d). n - i)") auto

declare sstf_loop.simps [simp del]

definition SSTF :: "blocknos \<Rightarrow> Queue \<Rightarrow> Queue outcome" where
  "SSTF m q = bnd (sstf_loop m (nat (q_size q)) 1 (q_data q)) (\<lambda>d. Ok (q\<lparr>q_data := d\<rparr>))"

definition enqueue :: "blocknos \<Rightarrow> Queue \<Rightarrow> req \<Rightarrow> Queue outcome" where
  "enqueue m q x =
     (if q_size q = q_capacity q then Panic ''queue out of capacity''
      else bnd (aset (q_data q) (q_size q) x) (\<lambda>d.
           SSTF m (q\<lparr>q_data := d, q_size := q_size q + 1\<rparr>)))"

function shift_loop :: "nat \<Rightarrow> nat \<Rightarrow> req list \<Rightarrow> req list outcome" where
  "shift_loop n i d =
     (if i < n then
        bnd (aget d (int (i + 1))) (\<lambda>y.
        bnd (aset d (int i) y) (\<lambda>d'. shift_loop n (i + 1) d'))
      else Ok d)"
  by pat_completeness auto
termination
  by (relation "measure (\<lambda>(n, i, d). n - i)") auto

declare shift_loop.simps [simp del]

definition dequeue :: "blocknos \<Rightarrow> Queue \<Rightarrow> Queue outcome" where
  "dequeue m q =
     bnd (shift_loop (nat (q_size q - 1)) 0 (q_data q)) (\<lambda>d.
     SSTF m (q\<lparr>q_data := d, q_size := q_size q - 1\<rparr>))"

text \<open>The part of \<open>virtio_disk_init\<close> that sets the queue up.\<close>

definition sstf_init :: Queue where
  "sstf_init = \<lparr>q_data = replicate 128 null_req, q_size = 0, q_capacity = 128\<rparr>"

section \<open>Distances\<close>

definition absdist :: "blocknos \<Rightarrow> req \<Rightarrow> req \<Rightarrow> int" where
  "absdist m x y = \<bar>uint (key m x) - uint (key m y)\<bar>"

text \<open>A request with a buffer whose block number is below $2^{31}$, so that differences fit an \<open>int\<close>.\<close>

definition near :: "blocknos \<Rightarrow> req \<Rightarrow> bool" where
  "near m r \<longleftrightarrow> m (rq_b r) \<noteq> None \<and> uint (key m r) < 2 ^ 31"

lemma sint_small: "uint (a :: uint) < 2 ^ 31 \<Longrightarrow> sint a = uint a"
  unfolding sint_uint
  by (intro signed_take_bit_int_eq_self) (auto intro: order_trans[OF _ uint_ge_0])

lemma sint_diff_small:
  fixes a b :: uint
  assumes "uint a < 2 ^ 31" "uint b < 2 ^ 31"
  shows "sint (a - b) = uint a - uint b"
proof -
  have "sint (a - b) = signed_take_bit 31 (sint a - sint b)"
    by (simp add: sint_word_ariths)
  also have "\<dots> = uint a - uint b"
    using assms uint_ge_0[of a] uint_ge_0[of b]
    by (simp only: sint_small) (intro signed_take_bit_int_eq_self, linarith+)
  finally show ?thesis .
qed

lemma sint_abs_diff:
  fixes a b :: uint
  assumes "uint a < 2 ^ 31" "uint b < 2 ^ 31"
  shows "sint (if 0 <=s a - b then a - b else - (a - b)) = \<bar>uint a - uint b\<bar>"
proof -
  have "sint (- (a - b)) = \<bar>uint a - uint b\<bar>" if "sint (a - b) < 0"
  proof -
    have "sint (- (a - b)) = sint (b - a)" by simp
    then show ?thesis using that sint_diff_small[OF assms] sint_diff_small[OF assms(2,1)] by simp
  qed
  then show ?thesis
    using sint_diff_small[OF assms] by (auto simp: word_sle_eq)
qed

lemma distance_near:
  assumes "near m x" "near m y"
  shows "\<exists>w. distance m x y = Ok w \<and> sint w = absdist m x y"
  using assms sint_abs_diff[of "key m x" "key m y"]
  by (simp add: distance_def near_def absdist_def Let_def)

section \<open>Invariant\<close>

definition sstf_list :: "Queue \<Rightarrow> req list" where
  "sstf_list q = take (nat (q_size q)) (q_data q)"

definition sstf_inv :: "blocknos \<Rightarrow> Queue \<Rightarrow> bool" where
  "sstf_inv m q \<longleftrightarrow>
     length (q_data q) = 128 \<and> q_capacity q = 128 \<and> 0 \<le> q_size q \<and> q_size q \<le> 128 \<and>
     (\<forall>r\<in>set (sstf_list q). near m r)"

text \<open>Slot 1 is a nearest request to slot 0.\<close>

fun nearest_second :: "blocknos \<Rightarrow> req list \<Rightarrow> bool" where
  "nearest_second m (a # b # rs) = (\<forall>r\<in>set rs. absdist m a b \<le> absdist m a r)"
| "nearest_second m rs = True"

lemma nearest_second_nth:
  "(\<And>j. 1 \<le> j \<Longrightarrow> j < length l \<Longrightarrow> absdist m (l ! 0) (l ! 1) \<le> absdist m (l ! 0) (l ! j)) \<Longrightarrow>
   nearest_second m l"
proof (induction m l rule: nearest_second.induct)
  case (1 m a b rs)
  show ?case
  proof (simp, intro ballI)
    fix r assume "r \<in> set rs"
    then obtain j where "j < length rs" "rs ! j = r" by (auto simp: in_set_conv_nth)
    then show "absdist m a b \<le> absdist m a r" using "1.prems"[of "Suc (Suc j)"] by simp
  qed
qed auto

section \<open>The selection loop\<close>

lemma sstf_loop_correct:
  assumes "1 \<le> i" "n \<le> length d" "2 \<le> length d" "\<forall>j<n. near m (d ! j)"
    "\<forall>j. 1 \<le> j \<longrightarrow> j < i \<longrightarrow> j < n \<longrightarrow> absdist m (d ! 0) (d ! 1) \<le> absdist m (d ! 0) (d ! j)"
  shows "\<exists>d'. sstf_loop m n i d = Ok d' \<and> length d' = length d \<and> d' ! 0 = d ! 0 \<and>
    mset (take n d') = mset (take n d) \<and>
    (\<forall>j. 1 \<le> j \<longrightarrow> j < n \<longrightarrow> absdist m (d' ! 0) (d' ! 1) \<le> absdist m (d' ! 0) (d' ! j))"
  using assms
proof (induction m n i d rule: sstf_loop.induct)
  case (1 m n i d)
  show ?case
  proof (cases "i < n")
    case False
    then show ?thesis using "1.prems" by (subst sstf_loop.simps) auto
  next
    case True
    have nr: "near m (d ! 0)" "near m (d ! i)" "near m (d ! 1)"
      using "1.prems" True by auto
    obtain wi w1 where w: "distance m (d ! 0) (d ! i) = Ok wi" "sint wi = absdist m (d ! 0) (d ! i)"
      "distance m (d ! 0) (d ! 1) = Ok w1" "sint w1 = absdist m (d ! 0) (d ! 1)"
      using distance_near[OF nr(1,2)] distance_near[OF nr(1,3)] by blast
    have get: "aget d 0 = Ok (d ! 0)" "aget d (int i) = Ok (d ! i)" "aget d 1 = Ok (d ! 1)"
      using "1.prems"(2,3) True by (auto simp: aget_def)
    show ?thesis
    proof (cases "wi <s w1")
      case less: True
      have i1: "i \<noteq> 1" using less w by (auto simp: word_sless_eq)
      let ?d = "d[i := d ! 1, 1 := d ! i]"
      have eq: "sstf_loop m n i d = sstf_loop m n (i + 1) ?d"
        using True "1.prems" get w less by (subst sstf_loop.simps) (simp del: aget_int)
      have ms: "mset (take n ?d) = mset (take n d)"
        using mset_swap[of 1 "take n d" i] True "1.prems" i1
        by (simp add: take_update_swap nth_take)
      have nth: "?d ! 0 = d ! 0" "?d ! 1 = d ! i" "j < n \<Longrightarrow> near m (?d ! j)" for j
        using "1.prems" True nr i1 by (auto simp: nth_list_update)
      have lt: "absdist m (d ! 0) (d ! i) < absdist m (d ! 0) (d ! 1)"
        using less w by (simp add: word_sless_alt)
      have "absdist m (?d ! 0) (?d ! 1) \<le> absdist m (?d ! 0) (?d ! j)"
        if "1 \<le> j" "j < i + 1" "j < n" for j
        using that "1.prems" True lt nth i1 by (auto simp: nth_list_update less_Suc_eq)
      then show ?thesis
        using "1.IH"(1)[OF True get w(1,3) less, of "d[i := d ! 1]" ?d] "1.prems" True eq ms nth by auto
    next
      case ge: False
      have eq: "sstf_loop m n i d = sstf_loop m n (i + 1) d"
        using True "1.prems" get w ge by (subst sstf_loop.simps) (simp del: aget_int)
      have "absdist m (d ! 0) (d ! 1) \<le> absdist m (d ! 0) (d ! j)" if "1 \<le> j" "j < i + 1" "j < n" for j
        using that "1.prems" ge w by (cases "j = i") (auto simp: word_sless_alt)
      then show ?thesis
        using "1.IH"(2)[OF True get w(1,3) ge] "1.prems" eq by auto
    qed
  qed
qed

lemma SSTF_correct:
  assumes "sstf_inv m q"
  shows "\<exists>q'. SSTF m q = Ok q' \<and> sstf_inv m q' \<and> q_size q' = q_size q \<and>
    mset (sstf_list q') = mset (sstf_list q) \<and> nearest_second m (sstf_list q') \<and>
    (1 \<le> q_size q \<longrightarrow> hd (sstf_list q') = hd (sstf_list q))"
proof -
  let ?n = "nat (q_size q)" and ?d = "q_data q"
  have len: "length ?d = 128" "?n \<le> 128" "0 \<le> q_size q" "q_size q \<le> 128" "q_capacity q = 128"
    using assms by (auto simp: sstf_inv_def)
  have nr: "near m r" if "r \<in> set (take ?n ?d)" for r
    using assms that by (auto simp: sstf_inv_def sstf_list_def)
  have "\<forall>j<?n. near m (?d ! j)"
    using nr len by (metis in_set_conv_nth length_take min.absorb2 nth_take)
  then obtain d' where d': "sstf_loop m ?n 1 ?d = Ok d'" "length d' = 128" "d' ! 0 = ?d ! 0"
    "mset (take ?n d') = mset (take ?n ?d)"
    "\<And>j. 1 \<le> j \<Longrightarrow> j < ?n \<Longrightarrow> absdist m (d' ! 0) (d' ! 1) \<le> absdist m (d' ! 0) (d' ! j)"
    using sstf_loop_correct[of 1 ?n ?d m] len by auto
  have "nearest_second m (take ?n d')"
    using d' len by (intro nearest_second_nth) (auto simp: nth_take)
  moreover have "set (take ?n d') = set (take ?n ?d)"
    using d'(4) by (metis set_mset_mset)
  moreover have "hd (take ?n d') = hd (take ?n ?d)" if "1 \<le> q_size q"
    using that d' len hd_conv_nth[of d'] hd_conv_nth[of ?d] by force
  ultimately show ?thesis
    using d' len nr by (auto simp: SSTF_def sstf_inv_def sstf_list_def)
qed

section \<open>Enqueue and dequeue\<close>

lemma enqueue_correct:
  assumes inv: "sstf_inv m q" and size: "q_size q < 128" and x: "near m x"
  shows "\<exists>q'. enqueue m q x = Ok q' \<and> sstf_inv m q' \<and> q_size q' = q_size q + 1 \<and>
    mset (sstf_list q') = mset (sstf_list q) + {#x#} \<and> nearest_second m (sstf_list q') \<and>
    (1 \<le> q_size q \<longrightarrow> hd (sstf_list q') = hd (sstf_list q))"
proof -
  let ?q = "q\<lparr>q_data := (q_data q)[nat (q_size q) := x], q_size := q_size q + 1\<rparr>"
  have l: "sstf_list ?q = sstf_list q @ [x]"
    using inv size by (simp add: sstf_list_def sstf_inv_def nat_add_distrib take_Suc_conv_app_nth)
  have "sstf_inv m ?q"
    using inv size x l by (auto simp: sstf_inv_def)
  then obtain q' where q': "SSTF m ?q = Ok q'" "sstf_inv m q'" "q_size q' = q_size q + 1"
    "mset (sstf_list q') = mset (sstf_list ?q)" "nearest_second m (sstf_list q')"
    "1 \<le> q_size q + 1 \<longrightarrow> hd (sstf_list q') = hd (sstf_list ?q)"
    using SSTF_correct[of m ?q] by auto
  have "sstf_list q \<noteq> []" if "1 \<le> q_size q"
    using that inv by (auto simp: sstf_list_def sstf_inv_def)
  then show ?thesis
    using q' l inv size by (auto simp: enqueue_def sstf_inv_def)
qed

lemma shift_loop_correct:
  "i \<le> n \<Longrightarrow> n < length d \<Longrightarrow>
   shift_loop n i d = Ok (take i d @ drop (Suc i) (take (Suc n) d) @ drop n d)"
proof (induction n i d rule: shift_loop.induct)
  case (1 n i d)
  show ?case
  proof (cases "i < n")
    case False
    then show ?thesis using "1.prems" by (subst shift_loop.simps) simp
  next
    case True
    let ?d = "d[i := d ! Suc i]"
    have get: "aget d (int (i + 1)) = Ok (d ! Suc i)" "aset d (int i) (d ! Suc i) = Ok ?d"
      using aget_int[of "i + 1" d] True "1.prems" by (simp_all del: aget_int)
    have "shift_loop n i d = shift_loop n (i + 1) ?d"
      using True get by (subst shift_loop.simps) simp
    also have "\<dots> = Ok (take (i + 1) ?d @ drop (Suc (i + 1)) (take (Suc n) ?d) @ drop n ?d)"
      using "1.IH"[OF True get] True "1.prems" by simp
    also have "take (i + 1) ?d = take i d @ [d ! Suc i]"
      using True "1.prems" by (simp add: take_Suc_conv_app_nth)
    also have "drop (Suc (i + 1)) (take (Suc n) ?d) = drop (Suc (Suc i)) (take (Suc n) d)"
      using True by (simp only: take_update_swap) (simp del: take_Suc drop_take)
    finally show ?thesis
      using Cons_nth_drop_Suc[of "Suc i" "take (Suc n) d"] True "1.prems"
      by (simp del: take_Suc drop_take)
  qed
qed

lemma dequeue_correct:
  assumes inv: "sstf_inv m q" and size: "1 \<le> q_size q"
  shows "\<exists>q'. dequeue m q = Ok q' \<and> sstf_inv m q' \<and> q_size q' = q_size q - 1 \<and>
    mset (sstf_list q') = mset (tl (sstf_list q)) \<and> nearest_second m (sstf_list q') \<and>
    (2 \<le> q_size q \<longrightarrow> hd (sstf_list q') = sstf_list q ! 1)"
proof -
  obtain n where sz: "nat (q_size q) = Suc n" using size by (cases "nat (q_size q)") auto
  then have n: "q_size q = int n + 1" "nat (q_size q - 1) = n" "nat (int n + 1) = Suc n" by auto
  have len: "length (q_data q) = 128" "n < 128" using inv sz by (auto simp: sstf_inv_def)
  let ?d = "take 0 (q_data q) @ drop 1 (take (Suc n) (q_data q)) @ drop n (q_data q)"
  let ?q = "q\<lparr>q_data := ?d, q_size := q_size q - 1\<rparr>"
  have sh: "shift_loop n 0 (q_data q) = Ok ?d" using shift_loop_correct[of 0 n] len by simp
  have l: "sstf_list ?q = tl (sstf_list q)"
    using n len by (simp add: sstf_list_def drop_Suc tl_take)
  have "sstf_inv m ?q"
    using inv size l n len by (auto simp: sstf_inv_def dest: in_set_tlD)
  then obtain q' where q': "SSTF m ?q = Ok q'" "sstf_inv m q'" "q_size q' = q_size q - 1"
    "mset (sstf_list q') = mset (sstf_list ?q)" "nearest_second m (sstf_list q')"
    "1 \<le> q_size q - 1 \<longrightarrow> hd (sstf_list q') = hd (sstf_list ?q)"
    using SSTF_correct[of m ?q] by auto
  have "hd (tl (sstf_list q)) = sstf_list q ! 1" if "2 \<le> q_size q"
    using that n len by (intro hd_tl_conv_nth) (simp add: sstf_list_def)
  then show ?thesis using q' l sh n by (auto simp: dequeue_def)
qed

definition sstf_pending :: "Queue \<Rightarrow> req multiset" where
  "sstf_pending q = mset (sstf_list q)"

definition sstf_ok :: "blocknos \<Rightarrow> Queue \<Rightarrow> bool" where
  "sstf_ok m q \<longleftrightarrow> sstf_inv m q \<and> nearest_second m (sstf_list q)"

lemma size_sstf_pending: "sstf_inv m q \<Longrightarrow> size (sstf_pending q) = nat (q_size q)"
  by (auto simp: sstf_pending_def sstf_list_def sstf_inv_def)

lemma sstf_list_head:
  assumes "sstf_inv m q" "1 \<le> q_size q"
  shows "sstf_list q = q_data q ! 0 # tl (sstf_list q)"
proof -
  have "length (sstf_list q) = nat (q_size q)" "sstf_list q ! 0 = q_data q ! 0"
    using assms by (auto simp: sstf_list_def sstf_inv_def)
  then show ?thesis using assms(2) by (cases "sstf_list q") auto
qed

text \<open>The queue is a request queue with room for 128 requests; its head is \<open>data[0]\<close>.\<close>

interpretation sstf: request_queue "enqueue m" "\<lambda>q. q_data q ! 0" "dequeue m" sstf_pending
  "sstf_ok m" 128 "near m" for m
proof
  fix q :: Queue and x :: req
  assume q: "sstf_ok m q" "size (sstf_pending q) < 128" "near m x"
  then have "q_size q < 128" using size_sstf_pending[of m q] by (auto simp: sstf_ok_def)
  then show "\<exists>q'. enqueue m q x = Ok q' \<and> sstf_ok m q' \<and> sstf_pending q' = sstf_pending q + {#x#}"
    using enqueue_correct[of m q x] q by (auto simp: sstf_ok_def sstf_pending_def)
next
  fix q :: Queue
  assume q: "sstf_ok m q" "sstf_pending q \<noteq> {#}"
  then have inv: "sstf_inv m q" and pos: "1 \<le> q_size q"
    using size_sstf_pending[of m q] by (cases "q_size q = 0"; auto simp: sstf_ok_def sstf_inv_def)+
  have mset: "sstf_pending q = add_mset (q_data q ! 0) (mset (tl (sstf_list q)))"
    using arg_cong[OF sstf_list_head[OF inv pos], of mset] by (simp add: sstf_pending_def)
  then show "q_data q ! 0 \<in># sstf_pending q" by simp
  show "\<exists>q'. dequeue m q = Ok q' \<and> sstf_ok m q' \<and> sstf_pending q' = sstf_pending q - {#q_data q ! 0#}"
    using dequeue_correct[OF inv pos] mset by (auto simp: sstf_ok_def sstf_pending_def)
qed

section \<open>Example states\<close>

definition ex_sstf_blocks :: blocknos where
  "ex_sstf_blocks = (\<lambda>b. case b of CacheBuf i \<Rightarrow> Some (if i = 0 then 50 else if i = 1 then 90 else 55) | _ \<Rightarrow> None)"

definition ex_sreq :: "nat \<Rightarrow> req" where
  "ex_sreq i = \<lparr>rq_b = CacheBuf i, rq_write = 0\<rparr>"

definition ex_sstf :: Queue where
  "ex_sstf = sstf_init\<lparr>q_data := ex_sreq 0 # ex_sreq 1 # replicate 126 null_req, q_size := 2\<rparr>"

lemma key_ex_sstf [simp]:
  "key ex_sstf_blocks (ex_sreq i) = (if i = 0 then 50 else if i = 1 then 90 else 55)"
  "ex_sstf_blocks (rq_b (ex_sreq i)) \<noteq> None"
  by (simp_all add: key_def ex_sreq_def ex_sstf_blocks_def)

lemma near_ex_sreq: "near ex_sstf_blocks (ex_sreq i)"
  by (simp add: near_def)

lemma ex_sstf_ok: "sstf_ok ex_sstf_blocks ex_sstf"
  by (simp add: sstf_ok_def sstf_inv_def ex_sstf_def sstf_init_def sstf_list_def near_ex_sreq)

section \<open>Properties\<close>

text \<open>C39: the queue serves nearest first. Completing the request in slot 0 of a well-formed
  queue removes exactly that request, the request that becomes current is one whose block is
  nearest to the completed one among all that waited, and the queue is well formed again.\<close>

theorem dequeue_serves_nearest_next:
  assumes "sstf_ok m q" and "2 \<le> q_size q"
  shows "\<exists>q'. dequeue m q = Ok q' \<and> sstf_ok m q' \<and>
    sstf_pending q' = sstf_pending q - {#q_data q ! 0#} \<and>
    (\<forall>r \<in># sstf_pending q'.
       absdist m (q_data q ! 0) (q_data q' ! 0) \<le> absdist m (q_data q ! 0) r)"
proof -
  have inv: "sstf_inv m q" and near2: "nearest_second m (sstf_list q)"
    using assms by (auto simp: sstf_ok_def)
  obtain a b rs where l: "sstf_list q = a # b # rs"
    using assms(2) inv by (cases "sstf_list q"; cases "tl (sstf_list q)")
      (auto simp: sstf_inv_def sstf_list_def take_Suc_conv_app_nth dest!: arg_cong[of _ _ length])
  have a: "q_data q ! 0 = a" using sstf_list_head[OF inv] assms(2) l by simp
  obtain q' where q': "dequeue m q = Ok q'" "sstf_inv m q'" "q_size q' = q_size q - 1"
    "mset (sstf_list q') = mset (b # rs)" "nearest_second m (sstf_list q')"
    "hd (sstf_list q') = b"
    using dequeue_correct[OF inv] assms(2) l by auto
  have "q_data q' ! 0 = b"
    using sstf_list_head[OF q'(2)] q'(3,6) assms(2) by (metis add_le_imp_le_diff list.sel(1) one_add_one)
  moreover have "set (sstf_list q') = insert b (set rs)"
    using mset_eq_setD[OF q'(4)] by simp
  ultimately show ?thesis
    using q' l a near2 by (auto simp: sstf_ok_def sstf_pending_def)
qed

theorem dequeue_serves_nearest_next_witness:
  "\<exists>q'. dequeue ex_sstf_blocks ex_sstf = Ok q' \<and> sstf_ok ex_sstf_blocks q' \<and>
    sstf_pending q' = {#ex_sreq 1#} \<and>
    (\<forall>r \<in># sstf_pending q'. absdist ex_sstf_blocks (ex_sreq 0) (q_data q' ! 0)
       \<le> absdist ex_sstf_blocks (ex_sreq 0) r)"
proof -
  have "2 \<le> q_size ex_sstf" "q_data ex_sstf ! 0 = ex_sreq 0"
    "sstf_pending ex_sstf - {#ex_sreq 0#} = {#ex_sreq 1#}"
    by (simp_all add: ex_sstf_def sstf_pending_def sstf_list_def)
  then show ?thesis using dequeue_serves_nearest_next[OF ex_sstf_ok] by auto
qed

text \<open>adding a request never moves the request in service. On a well-formed queue
  with room \<open>enqueue\<close> returns, adds exactly the new request, keeps slot 0 when it was occupied
  and leaves the nearest other request in slot 1.\<close>

theorem enqueue_keeps_current_request:
  assumes "sstf_ok m q" and "q_size q < 128" and "near m x"
  shows "\<exists>q'. enqueue m q x = Ok q' \<and> sstf_ok m q' \<and> sstf_pending q' = sstf_pending q + {#x#} \<and>
    (1 \<le> q_size q \<longrightarrow> q_data q' ! 0 = q_data q ! 0)"
proof -
  obtain q' where q': "enqueue m q x = Ok q'" "sstf_inv m q'" "q_size q' = q_size q + 1"
    "mset (sstf_list q') = mset (sstf_list q) + {#x#}" "nearest_second m (sstf_list q')"
    "1 \<le> q_size q \<longrightarrow> hd (sstf_list q') = hd (sstf_list q)"
    using enqueue_correct[of m q x] assms by (auto simp: sstf_ok_def)
  have "q_data q' ! 0 = q_data q ! 0" if "1 \<le> q_size q"
    using that q'(3,6) sstf_list_head[OF q'(2)] sstf_list_head[of m q] assms(1)
    by (metis list.sel(1) sstf_ok_def add_increasing2 zero_le_one)
  then show ?thesis using q' by (auto simp: sstf_ok_def sstf_pending_def)
qed

theorem enqueue_keeps_current_request_witness:
  "\<exists>q'. enqueue ex_sstf_blocks ex_sstf (ex_sreq 2) = Ok q' \<and> sstf_ok ex_sstf_blocks q' \<and>
    sstf_pending q' = sstf_pending ex_sstf + {#ex_sreq 2#} \<and> q_data q' ! 0 = ex_sreq 0"
proof -
  have "q_size ex_sstf < 128" "1 \<le> q_size ex_sstf" "q_data ex_sstf ! 0 = ex_sreq 0"
    by (simp_all add: ex_sstf_def)
  then show ?thesis
    using enqueue_keeps_current_request[OF ex_sstf_ok _ near_ex_sreq, of 2] by auto
qed

end
