(* ===== verification/Deadline_Sched.thy ===== *)
theory Deadline_Sched
  imports Disk_Request
begin

text \<open>
  The deadline scheduler of \<open>kernel/virtio_disk.c\<close> (\<open>IO_type == 3\<close>): two red-black trees and two
  rings (index 0 for reads, 1 for writes) with cross pointers between nodes and sections. The
  code works on static arrays through pointers, so the model is a store: a pointer names the
  tree or ring and the slot, and a read or write through a null pointer or outside an array is
  a \<open>Fault\<close>.

  Loops that follow pointers carry a bound of 129 passes. A tree has 128 nodes and a sentinel,
  and the walks do not change the store, so a walk of more than 129 steps has met a node twice
  and never ends; the bound loses nothing.
\<close>

section \<open>Data\<close>

datatype nptr = NNull | NSen nat | NNode nat nat

datatype sptr = SNull | SSen nat | SSec nat nat

record Node =
  nd_rank :: int
  nd_color :: int
  nd_data :: req
  nd_p :: "nptr list"
  nd_pSection :: sptr

record RBTree =
  rt_node :: "Node list"
  rt_sen :: Node
  rt_root :: nptr
  rt_pos :: int
  rt_avail :: "int list"
  rt_size :: int
  rt_capacity :: int

record Section =
  sc_rank :: int
  sc_time :: uint
  sc_data :: req
  sc_pFront :: sptr
  sc_pBack :: sptr
  sc_pNode :: nptr

record Ring =
  rg_section :: "Section list"
  rg_sen :: Section
  rg_head :: sptr
  rg_rear :: sptr
  rg_pos :: int
  rg_avail :: "int list"
  rg_timeLimit :: int
  rg_size :: int
  rg_capacity :: int

text \<open>The fields of \<open>struct disk\<close> the scheduler uses, with the clock \<open>ticks\<close> it reads.\<close>

record ddl =
  dd_tree :: "RBTree list"
  dd_ring :: "Ring list"
  dd_readyArea :: req
  dd_ticks :: uint

definition RED :: int where "RED = 0"
definition BLACK :: int where "BLACK = 1"

section \<open>Access through pointers\<close>

definition tree_get :: "ddl \<Rightarrow> nat \<Rightarrow> RBTree outcome" where
  "tree_get s t = aget (dd_tree s) (int t)"

definition tree_put :: "ddl \<Rightarrow> nat \<Rightarrow> RBTree \<Rightarrow> ddl outcome" where
  "tree_put s t v = bnd (aset (dd_tree s) (int t) v) (\<lambda>ts. Ok (s\<lparr>dd_tree := ts\<rparr>))"

definition ring_get :: "ddl \<Rightarrow> nat \<Rightarrow> Ring outcome" where
  "ring_get s t = aget (dd_ring s) (int t)"

definition ring_put :: "ddl \<Rightarrow> nat \<Rightarrow> Ring \<Rightarrow> ddl outcome" where
  "ring_put s t v = bnd (aset (dd_ring s) (int t) v) (\<lambda>ts. Ok (s\<lparr>dd_ring := ts\<rparr>))"

fun node_get :: "ddl \<Rightarrow> nptr \<Rightarrow> Node outcome" where
  "node_get s NNull = Fault ''null node''"
| "node_get s (NSen t) = bnd (tree_get s t) (\<lambda>T. Ok (rt_sen T))"
| "node_get s (NNode t i) = bnd (tree_get s t) (\<lambda>T. aget (rt_node T) (int i))"

fun node_put :: "ddl \<Rightarrow> nptr \<Rightarrow> Node \<Rightarrow> ddl outcome" where
  "node_put s NNull v = Fault ''null node''"
| "node_put s (NSen t) v = bnd (tree_get s t) (\<lambda>T. tree_put s t (T\<lparr>rt_sen := v\<rparr>))"
| "node_put s (NNode t i) v =
     bnd (tree_get s t) (\<lambda>T.
     bnd (aset (rt_node T) (int i) v) (\<lambda>ns. tree_put s t (T\<lparr>rt_node := ns\<rparr>)))"

fun sec_get :: "ddl \<Rightarrow> sptr \<Rightarrow> Section outcome" where
  "sec_get s SNull = Fault ''null section''"
| "sec_get s (SSen t) = bnd (ring_get s t) (\<lambda>R. Ok (rg_sen R))"
| "sec_get s (SSec t i) = bnd (ring_get s t) (\<lambda>R. aget (rg_section R) (int i))"

fun sec_put :: "ddl \<Rightarrow> sptr \<Rightarrow> Section \<Rightarrow> ddl outcome" where
  "sec_put s SNull v = Fault ''null section''"
| "sec_put s (SSen t) v = bnd (ring_get s t) (\<lambda>R. ring_put s t (R\<lparr>rg_sen := v\<rparr>))"
| "sec_put s (SSec t i) v =
     bnd (ring_get s t) (\<lambda>R.
     bnd (aset (rg_section R) (int i) v) (\<lambda>ns. ring_put s t (R\<lparr>rg_section := ns\<rparr>)))"

definition get_p :: "ddl \<Rightarrow> nptr \<Rightarrow> int \<Rightarrow> nptr outcome" where
  "get_p s n d = bnd (node_get s n) (\<lambda>N. aget (nd_p N) d)"

definition set_p :: "ddl \<Rightarrow> nptr \<Rightarrow> int \<Rightarrow> nptr \<Rightarrow> ddl outcome" where
  "set_p s n d v =
     bnd (node_get s n) (\<lambda>N. bnd (aset (nd_p N) d v) (\<lambda>ps. node_put s n (N\<lparr>nd_p := ps\<rparr>)))"

definition get_color :: "ddl \<Rightarrow> nptr \<Rightarrow> int outcome" where
  "get_color s n = bnd (node_get s n) (\<lambda>N. Ok (nd_color N))"

definition set_color :: "ddl \<Rightarrow> nptr \<Rightarrow> int \<Rightarrow> ddl outcome" where
  "set_color s n c = bnd (node_get s n) (\<lambda>N. node_put s n (N\<lparr>nd_color := c\<rparr>))"

text \<open>A free-list entry used as an array offset.\<close>

definition slot_of :: "int \<Rightarrow> nat outcome" where
  "slot_of i = (if i < 0 then Fault ''read outside array'' else Ok (nat i))"

section \<open>Red-black tree\<close>

definition Rotate :: "ddl \<Rightarrow> nptr \<Rightarrow> int \<Rightarrow> ddl outcome" where
  "Rotate s node dir =
     bnd (get_p s node (1 - dir)) (\<lambda>newP.
     bnd (get_p s node 2) (\<lambda>par.
     bnd (get_p s par 0) (\<lambda>left.
     bnd (if node = left then set_p s par 0 newP else set_p s par 1 newP) (\<lambda>s.
     bnd (get_p s node 2) (\<lambda>par.
     bnd (set_p s newP 2 par) (\<lambda>s.
     bnd (get_p s newP dir) (\<lambda>inner.
     bnd (set_p s node (1 - dir) inner) (\<lambda>s.
     bnd (get_p s newP (1 - dir)) (\<lambda>outer.
     bnd (set_p s outer 2 newP) (\<lambda>s.
     bnd (set_p s node 2 newP) (\<lambda>s.
     set_p s newP dir node)))))))))))"

fun balance_add_loop :: "nat \<Rightarrow> ddl \<Rightarrow> nptr \<Rightarrow> ddl outcome" where
  "balance_add_loop 0 s node = Diverge"
| "balance_add_loop (Suc fuel) s node =
     bnd (get_p s node 2) (\<lambda>p.
     bnd (get_color s p) (\<lambda>pc.
     if pc = RED then
       bnd (get_p s p 2) (\<lambda>g.
       bnd (get_p s g 0) (\<lambda>gl.
       let dir = (if p = gl then 0 else 1) in
       bnd (get_p s g (1 - dir)) (\<lambda>u.
       bnd (get_color s u) (\<lambda>uc.
       bnd (get_p s p 1) (\<lambda>pr.
       if uc = RED then
         bnd (set_color s p BLACK) (\<lambda>s.
         bnd (set_color s u BLACK) (\<lambda>s.
         bnd (set_color s g RED) (\<lambda>s.
         balance_add_loop fuel s g)))
       else if node = pr then
         bnd (Rotate s p dir) (\<lambda>s. balance_add_loop fuel s p)
       else
         bnd (set_color s p BLACK) (\<lambda>s.
         bnd (set_color s g RED) (\<lambda>s.
         bnd (Rotate s g (1 - dir)) (\<lambda>s.
         balance_add_loop fuel s node))))))))
     else Ok s))"

definition BalanceAfterAddition :: "ddl \<Rightarrow> nptr \<Rightarrow> nat \<Rightarrow> ddl outcome" where
  "BalanceAfterAddition s node t =
     bnd (balance_add_loop 129 s node) (\<lambda>s.
     bnd (tree_get s t) (\<lambda>T.
     if rt_root T \<noteq> NNull then set_color s (rt_root T) BLACK else Ok s))"

text \<open>\<open>for (; ; dir++) if (ps[dir] == v) break;\<close> runs past the three links when none matches.\<close>

definition find_dir :: "nptr list \<Rightarrow> nptr \<Rightarrow> int outcome" where
  "find_dir ps v =
     bnd (aget ps 0) (\<lambda>p0. if p0 = v then Ok 0 else
     bnd (aget ps 1) (\<lambda>p1. if p1 = v then Ok 1 else
     bnd (aget ps 2) (\<lambda>p2. if p2 = v then Ok 2 else Fault ''link index out of range'')))"

fun BalanceAfterDeletion :: "nat \<Rightarrow> ddl \<Rightarrow> nptr \<Rightarrow> nat \<Rightarrow> ddl outcome" where
  "BalanceAfterDeletion 0 s tmp t = Diverge"
| "BalanceAfterDeletion (Suc fuel) s tmp t =
     bnd (node_get s tmp) (\<lambda>T.
     bnd (find_dir (nd_p T) NNull) (\<lambda>dir.
     bnd (get_p s tmp 2) (\<lambda>p.
     bnd (if p = NSen t then Ok True else bnd (get_color s p) (\<lambda>c. Ok (c = RED))) (\<lambda>stop.
     if stop then set_color s tmp BLACK
     else
       bnd (get_p s p (1 - dir)) (\<lambda>b.
       bnd (get_p s b dir) (\<lambda>cin.
       bnd (get_p s b (1 - dir)) (\<lambda>cout.
       bnd (get_color s b) (\<lambda>bc.
       if bc = BLACK then
         bnd (if cin \<noteq> NNull \<and> cout = NNull then
                bnd (set_color s cin BLACK) (\<lambda>s.
                bnd (set_color s b RED) (\<lambda>s.
                bnd (Rotate s b (1 - dir)) (\<lambda>s. Ok (s, cin, b))))
              else Ok (s, b, cout)) (\<lambda>(s, b, cout).
         if cout \<noteq> NNull then
           bnd (get_color s p) (\<lambda>pc.
           bnd (set_color s b pc) (\<lambda>s.
           bnd (set_color s cout BLACK) (\<lambda>s.
           bnd (set_color s p BLACK) (\<lambda>s.
           Rotate s p dir))))
         else
           bnd (set_color s p BLACK) (\<lambda>s.
           bnd (set_color s b RED) (\<lambda>s.
           BalanceAfterDeletion fuel s p t)))
       else
         bnd (set_color s b BLACK) (\<lambda>s.
         bnd (set_color s cin RED) (\<lambda>s.
         Rotate s p dir)))))))))) "

text \<open>\<open>while (temp->p[0] != NULL) temp = temp->p[0];\<close>\<close>

fun leftmost :: "nat \<Rightarrow> ddl \<Rightarrow> nptr \<Rightarrow> nptr outcome" where
  "leftmost 0 s tmp = Diverge"
| "leftmost (Suc fuel) s tmp =
     bnd (get_p s tmp 0) (\<lambda>l. if l \<noteq> NNull then leftmost fuel s l else Ok tmp)"

definition pick_tree :: "ddl \<Rightarrow> nat \<Rightarrow> nat outcome" where
  "pick_tree s t = bnd (tree_get s t) (\<lambda>T. Ok (if t = 0 \<and> rt_size T = 0 then 1 else t))"

definition GetFromRBTree :: "ddl \<Rightarrow> nat \<Rightarrow> req outcome" where
  "GetFromRBTree s t =
     bnd (pick_tree s t) (\<lambda>t.
     bnd (leftmost 129 s (NSen t)) (\<lambda>tmp.
     bnd (node_get s tmp) (\<lambda>N. Ok (nd_data N))))"

definition PrimRBTree :: "ddl \<Rightarrow> nat \<Rightarrow> ddl outcome" where
  "PrimRBTree s t =
     bnd (pick_tree s t) (\<lambda>t.
     bnd (tree_get s t) (\<lambda>T.
     bnd (if rt_size T \<noteq> 0 then tree_put s t (T\<lparr>rt_size := rt_size T - 1\<rparr>) else Ok s) (\<lambda>s.
     bnd (leftmost 129 s (NSen t)) (\<lambda>tmp.
     bnd (node_get s tmp) (\<lambda>N.
     bnd (tree_get s t) (\<lambda>T.
     bnd (aset (rt_avail T) (rt_pos T + 1) (nd_rank N)) (\<lambda>av.
     bnd (tree_put s t (T\<lparr>rt_pos := rt_pos T + 1, rt_avail := av\<rparr>)) (\<lambda>s.
     bnd (get_p s tmp 2) (\<lambda>par.
     bnd (set_p s par 0 NNull) (\<lambda>s.
     bnd (node_get s tmp) (\<lambda>N.
     if rq_write (nd_data N) < 0 then Fault ''read outside array'' else
     let r = nat (rq_write (nd_data N)) in
     bnd (ring_get s r) (\<lambda>R.
     bnd (sec_get s (nd_pSection N)) (\<lambda>S.
     bnd (aset (rg_avail R) (rg_pos R + 1) (sc_rank S)) (\<lambda>av.
     bnd (ring_put s r (R\<lparr>rg_pos := rg_pos R + 1, rg_avail := av, rg_size := rg_size R - 1\<rparr>)) (\<lambda>s.
     bnd (sec_get s (sc_pFront S)) (\<lambda>F.
     bnd (sec_put s (sc_pFront S) (F\<lparr>sc_pBack := sc_pBack S\<rparr>)) (\<lambda>s.
     bnd (sec_get s (nd_pSection N)) (\<lambda>S.
     bnd (if sc_pBack S \<noteq> SNull then
            bnd (sec_get s (sc_pBack S)) (\<lambda>B. sec_put s (sc_pBack S) (B\<lparr>sc_pFront := sc_pFront S\<rparr>))
          else Ok s) (\<lambda>s.
     bnd (get_p s tmp 1) (\<lambda>right.
     if right \<noteq> NNull then
       bnd (get_p s tmp 2) (\<lambda>par. set_p s par 0 right)
     else BalanceAfterDeletion 129 s tmp t))))))))))))))))))))"

definition DeleteFromRBTree :: "ddl \<Rightarrow> nptr \<Rightarrow> nat \<Rightarrow> ddl outcome" where
  "DeleteFromRBTree s node t =
     bnd (get_p s node 2) (\<lambda>par.
     bnd (node_get s par) (\<lambda>P.
     bnd (find_dir (nd_p P) node) (\<lambda>dir.
     bnd (set_p s par dir NNull) (\<lambda>s.
     bnd (tree_get s t) (\<lambda>T.
     bnd (node_get s node) (\<lambda>N.
     bnd (aset (rt_avail T) (rt_pos T + 1) (nd_rank N)) (\<lambda>av.
     bnd (tree_put s t (T\<lparr>rt_pos := rt_pos T + 1, rt_avail := av\<rparr>)) (\<lambda>s.
     bnd (get_p s node 2) (\<lambda>par.
     bnd (set_p s par 0 NNull) (\<lambda>s.
     bnd (get_p s node 2) (\<lambda>par.
     BalanceAfterDeletion 129 s par t)))))))))))"

section \<open>Ring and ready area\<close>

text \<open>\<open>Nowtime\<close> reads \<open>ticks\<close> into a \<open>uint64\<close>.\<close>

definition Nowtime :: "ddl \<Rightarrow> uint64" where
  "Nowtime s = ucast (dd_ticks s)"

definition InsertToRing :: "ddl \<Rightarrow> nat \<Rightarrow> req \<Rightarrow> (sptr \<times> ddl) outcome" where
  "InsertToRing s t x =
     bnd (ring_get s t) (\<lambda>R.
     if rg_size R = rg_capacity R then Panic ''ring out of capacity''
     else
       bnd (bnd (aget (rg_avail R) (rg_pos R)) slot_of) (\<lambda>i.
       bnd (ring_put s t (R\<lparr>rg_size := rg_size R + 1, rg_pos := rg_pos R - 1\<rparr>)) (\<lambda>s.
       let pSection = SSec t i in
       bnd (sec_get s pSection) (\<lambda>S.
       bnd (sec_put s pSection
              (S\<lparr>sc_data := x, sc_time := ucast (Nowtime s), sc_pFront := rg_rear R\<rparr>)) (\<lambda>s.
       bnd (sec_get s (rg_rear R)) (\<lambda>B.
       bnd (sec_put s (rg_rear R) (B\<lparr>sc_pBack := pSection\<rparr>)) (\<lambda>s.
       bnd (ring_get s t) (\<lambda>R.
       bnd (ring_put s t (R\<lparr>rg_rear := pSection\<rparr>)) (\<lambda>s.
       Ok (pSection, s)))))))))) "

text \<open>One pass of the loop of \<open>RenewReadyArea\<close>, for ring \<open>i\<close>.\<close>

definition renew_pass :: "ddl \<Rightarrow> nat \<Rightarrow> ddl outcome" where
  "renew_pass s i =
     bnd (ring_get s i) (\<lambda>R.
     if sc_pBack (rg_sen R) \<noteq> SNull then
       bnd (sec_get s (sc_pBack (rg_sen R))) (\<lambda>B.
       let timecost = Nowtime s - scast (sc_time B) in
       if timecost > word_of_int (rg_timeLimit R) then
         bnd (Ok (s\<lparr>dd_readyArea := sc_data B\<rparr>)) (\<lambda>s.
         bnd (if rq_write (sc_data B) < 0 then Fault ''read outside array''
              else DeleteFromRBTree s (sc_pNode B) (nat (rq_write (sc_data B)))) (\<lambda>s.
         bnd (ring_get s i) (\<lambda>R.
         bnd (sec_get s (sc_pBack (rg_sen R))) (\<lambda>B.
         bnd (aset (rg_avail R) (rg_pos R + 1) (sc_rank B)) (\<lambda>av.
         bnd (ring_put s i (R\<lparr>rg_size := rg_size R - 1, rg_pos := rg_pos R + 1, rg_avail := av,
                rg_sen := (rg_sen R)\<lparr>sc_pBack := sc_pBack B\<rparr>\<rparr>)) (\<lambda>s.
         bnd (sec_get s (sc_pBack B)) (\<lambda>B'.
         sec_put s (sc_pBack B) (B'\<lparr>sc_pFront := SSen i\<rparr>))))))))
       else Ok s)
     else Ok s)"

definition RenewReadyArea :: "ddl \<Rightarrow> ddl outcome" where
  "RenewReadyArea s =
     bnd (renew_pass s 0) (\<lambda>s.
     bnd (renew_pass s 1) (\<lambda>s.
     bnd (GetFromRBTree s 0) (\<lambda>r. Ok (s\<lparr>dd_readyArea := r\<rparr>))))"

text \<open>The descent of \<open>InsertToRBTree\<close>: the parent \<open>hot\<close> and the direction of the new leaf.\<close>

fun descend :: "blocknos \<Rightarrow> nat \<Rightarrow> ddl \<Rightarrow> req \<Rightarrow> nptr \<Rightarrow> nptr \<Rightarrow> int \<Rightarrow> (nptr \<times> int) outcome" where
  "descend m 0 s x tmp hot dir = Diverge"
| "descend m (Suc fuel) s x tmp hot dir =
     (if tmp \<noteq> NNull then
        bnd (node_get s tmp) (\<lambda>N.
        bnd (blockno_of m (nd_data N)) (\<lambda>kn.
        bnd (blockno_of m x) (\<lambda>kx.
        let d = (if kn > kx then 0 else 1) in
        bnd (aget (nd_p N) d) (\<lambda>nxt. descend m fuel s x nxt tmp d))))
      else Ok (hot, dir))"

definition InsertToRBTree :: "blocknos \<Rightarrow> ddl \<Rightarrow> nat \<Rightarrow> req \<Rightarrow> (nptr \<times> ddl) outcome" where
  "InsertToRBTree m s t x =
     bnd (tree_get s t) (\<lambda>T.
     if rt_size T = rt_capacity T then Panic ''queue out of capacity''
     else
       bnd (tree_put s t (T\<lparr>rt_size := rt_size T + 1\<rparr>)) (\<lambda>s.
       bnd (descend m 129 s x (rt_root T) (NSen t) 0) (\<lambda>(hot, dir).
       bnd (tree_get s t) (\<lambda>T.
       bnd (bnd (aget (rt_avail T) (rt_pos T)) slot_of) (\<lambda>i.
       bnd (tree_put s t (T\<lparr>rt_pos := rt_pos T - 1\<rparr>)) (\<lambda>s.
       let tmp = NNode t i in
       bnd (node_get s tmp) (\<lambda>N.
       bnd (aset (nd_p N) 2 hot) (\<lambda>ps.
       bnd (node_put s tmp (N\<lparr>nd_color := RED, nd_data := x, nd_p := ps\<rparr>)) (\<lambda>s.
       bnd (set_p s hot dir tmp) (\<lambda>s.
       bnd (if hot = NSen t then set_color s tmp BLACK else set_p s hot 1 tmp) (\<lambda>s.
       bnd (BalanceAfterAddition s tmp t) (\<lambda>s.
       bnd (RenewReadyArea s) (\<lambda>s.
       Ok (tmp, s)))))))))))))) "

text \<open>The branch \<open>IO_type == 3\<close> of \<open>rw_queue\<close> up to the choice of the request to issue.\<close>

definition ddl_submit :: "blocknos \<Rightarrow> ddl \<Rightarrow> req \<Rightarrow> ddl outcome" where
  "ddl_submit m s r =
     (if rq_write r < 0 then Fault ''read outside array'' else
      let w = nat (rq_write r) in
      bnd (InsertToRing s w r) (\<lambda>(pSection, s).
      bnd (InsertToRBTree m s w r) (\<lambda>(pNode, s).
      bnd (sec_get s pSection) (\<lambda>S.
      bnd (sec_put s pSection (S\<lparr>sc_pNode := pNode\<rparr>)) (\<lambda>s.
      bnd (node_get s pNode) (\<lambda>N.
      node_put s pNode (N\<lparr>nd_pSection := pSection\<rparr>)))))))"

section \<open>Initialisation\<close>

definition zero_node :: Node where
  "zero_node = \<lparr>nd_rank = 0, nd_color = 0, nd_data = null_req, nd_p = [NNull, NNull, NNull],
     nd_pSection = SNull\<rparr>"

definition zero_section :: Section where
  "zero_section = \<lparr>sc_rank = 0, sc_time = 0, sc_data = null_req, sc_pFront = SNull, sc_pBack = SNull,
     sc_pNode = NNull\<rparr>"

text \<open>
  The part of \<open>virtio_disk_init\<close> that sets up trees and rings, on zero-initialised static
  storage. Both inner loops store through \<open>disk.tree->avail\<close> and \<open>disk.ring->avail\<close>, which is
  index 0 in either pass of the outer loop, so the free list of index 1 stays all zero.
\<close>

definition tree_init :: "int list \<Rightarrow> RBTree" where
  "tree_init av = \<lparr>rt_node = replicate 128 zero_node, rt_sen = zero_node\<lparr>nd_color := BLACK\<rparr>, rt_root = NNull,
     rt_pos = 127, rt_avail = av, rt_size = 0, rt_capacity = 128\<rparr>"

definition ring_init :: "nat \<Rightarrow> int list \<Rightarrow> Ring" where
  "ring_init t av = \<lparr>rg_section = replicate 128 zero_section, rg_sen = zero_section, rg_head = SSen t,
     rg_rear = SSen t, rg_pos = 127, rg_avail = av, rg_timeLimit = 22, rg_size = 0, rg_capacity = 128\<rparr>"

definition ddl_init :: ddl where
  "ddl_init = \<lparr>dd_tree = [tree_init (map int [0..<128]), tree_init (replicate 128 0)],
     dd_ring = [ring_init 0 (map int [0..<128]), ring_init 1 (replicate 128 0)],
     dd_readyArea = null_req, dd_ticks = 0\<rparr>"

section \<open>Invariant\<close>

text \<open>
  The root of a tree is set to \<open>NULL\<close> by \<open>virtio_disk_init\<close> and never assigned again, so every
  insertion hangs its node directly under the sentinel and no node gets children.
\<close>

definition tree_ok :: "nat \<Rightarrow> RBTree \<Rightarrow> bool" where
  "tree_ok t T \<longleftrightarrow>
     length (rt_node T) = 128 \<and> length (rt_avail T) = 128 \<and> (\<forall>a\<in>set (rt_avail T). 0 \<le> a \<and> a < 128) \<and>
     rt_root T = NNull \<and> nd_color (rt_sen T) = BLACK \<and> rt_capacity T = 128 \<and>
     0 \<le> rt_size T \<and> rt_size T \<le> 128 \<and> rt_pos T = 127 - rt_size T \<and>
     (\<exists>q. nd_p (rt_sen T) = [q, NNull, NNull] \<and> (q = NNull \<or> (\<exists>k<128. q = NNode t k))) \<and>
     (\<forall>N\<in>set (rt_node T). nd_rank N = 0 \<and> (\<exists>q. nd_p N = [NNull, NNull, q] \<and> (q = NNull \<or> q = NSen t)))"

definition ring_ok :: "nat \<Rightarrow> Ring \<Rightarrow> bool" where
  "ring_ok t R \<longleftrightarrow>
     length (rg_section R) = 128 \<and> length (rg_avail R) = 128 \<and> (\<forall>a\<in>set (rg_avail R). 0 \<le> a \<and> a < 128) \<and>
     rg_capacity R = 128 \<and> 0 \<le> rg_size R \<and> rg_size R \<le> 128 \<and> rg_pos R = 127 - rg_size R \<and>
     rg_timeLimit R = 22 \<and> (rg_rear R = SSen t \<or> (\<exists>k<128. rg_rear R = SSec t k))"

definition ddl_inv :: "ddl \<Rightarrow> bool" where
  "ddl_inv s \<longleftrightarrow> length (dd_tree s) = 2 \<and> length (dd_ring s) = 2 \<and>
     (\<forall>t<2. tree_ok t (dd_tree s ! t) \<and> ring_ok t (dd_ring s ! t))"

text \<open>The oldest request of ring \<open>i\<close> is not past its deadline.\<close>

definition head_section :: "ddl \<Rightarrow> nat \<Rightarrow> sptr" where
  "head_section s i = sc_pBack (rg_sen (dd_ring s ! i))"

definition in_time :: "ddl \<Rightarrow> nat \<Rightarrow> bool" where
  "in_time s i \<longleftrightarrow> head_section s i = SNull \<or>
     (\<exists>j<128. head_section s i = SSec i j \<and>
        Nowtime s - scast (sc_time (rg_section (dd_ring s ! i) ! j)) \<le> 22)"

definition overdue :: "ddl \<Rightarrow> nat \<Rightarrow> bool" where
  "overdue s i \<longleftrightarrow>
     (\<exists>j<128. head_section s i = SSec i j \<and>
        Nowtime s - scast (sc_time (rg_section (dd_ring s ! i) ! j)) > 22)"

named_theorems ddl_simps

lemma get_put_simps [ddl_simps]:
  "t < length (dd_tree s) \<Longrightarrow> tree_get s t = Ok (dd_tree s ! t)"
  "t < length (dd_tree s) \<Longrightarrow> tree_put s t T = Ok (s\<lparr>dd_tree := (dd_tree s)[t := T]\<rparr>)"
  "t < length (dd_ring s) \<Longrightarrow> ring_get s t = Ok (dd_ring s ! t)"
  "t < length (dd_ring s) \<Longrightarrow> ring_put s t R = Ok (s\<lparr>dd_ring := (dd_ring s)[t := R]\<rparr>)"
  by (simp_all add: tree_get_def tree_put_def ring_get_def ring_put_def)


lemma ddl_inv_init: "ddl_inv ddl_init"
  by (auto simp: ddl_inv_def all_less_2 ddl_init_def tree_ok_def ring_ok_def tree_init_def ring_init_def
      zero_node_def)

lemma ticks_in_time:
  fixes w :: uint
  assumes "uint w < 2 ^ 31"
  shows "(ucast w :: uint64) - scast (ucast (ucast w :: uint64) :: uint) = 0"
proof -
  have "sint w = uint w"
    using assms by (simp add: sint_uint) (intro signed_take_bit_int_eq_self; auto intro: order_trans[OF _ uint_ge_0])
  then have "(scast w :: uint64) = ucast w"
    by (metis of_int_sint of_int_uint)
  moreover have "(ucast (ucast w :: uint64) :: uint) = w"
    by (rule bit_word_eqI) (simp add: bit_unsigned_iff)
  ultimately show ?thesis by simp
qed

section \<open>Expired requests\<close>

text \<open>Any attempt to delete a node from a tree goes wrong, whatever the node pointer is.\<close>

lemma tree_ok_of_inv: "ddl_inv s \<Longrightarrow> t < 2 \<Longrightarrow> tree_ok t (dd_tree s ! t)"
  and ring_ok_of_inv: "ddl_inv s \<Longrightarrow> t < 2 \<Longrightarrow> ring_ok t (dd_ring s ! t)"
  and lengths_of_inv: "ddl_inv s \<Longrightarrow> length (dd_tree s) = 2 \<and> length (dd_ring s) = 2"
  by (auto simp: ddl_inv_def)

lemma tree_get_cases:
  "ddl_inv s \<Longrightarrow> tree_get s t = (if t < 2 then Ok (dd_tree s ! t) else Fault ''read outside array'')"
  by (auto simp: tree_get_def aget_def dest!: lengths_of_inv)

text \<open>The sentinel of a tree has neither a second child nor a parent.\<close>

lemma BalanceAfterDeletion_sentinel:
  assumes "tree_get s t' = Ok T" "nd_p (rt_sen T) = [q, NNull, NNull]"
  shows "faults (BalanceAfterDeletion (Suc n) s (NSen t') t)"
  using assms
  by (auto simp: find_dir_def get_p_def get_color_def aget_def)

lemma node_get_parent:
  assumes "ddl_inv s" "node_get s (NNode t k) = Ok N"
  shows "t < 2 \<and> k < 128 \<and> (\<exists>q. nd_p N = [NNull, NNull, q] \<and> (q = NNull \<or> q = NSen t))"
proof -
  have t: "t < 2" using assms by (cases "t < 2") (auto simp: tree_get_cases)
  note ok = tree_ok_of_inv[OF assms(1) t]
  have "k < 128" and N: "N \<in> set (rt_node (dd_tree s ! t))"
    using assms t ok by (auto simp: tree_get_cases aget_def tree_ok_def split: if_splits)
  then show ?thesis using t ok by (simp add: tree_ok_def)
qed

text \<open>Node \<open>k\<close> of tree \<open>u\<close> hangs under the sentinel.\<close>

definition under_sentinel :: "ddl \<Rightarrow> nat \<Rightarrow> nat \<Rightarrow> bool" where
  "under_sentinel s u k \<longleftrightarrow> u < 2 \<and> length (dd_tree s) = 2 \<and> k < length (rt_node (dd_tree s ! u)) \<and>
     (\<exists>l r. nd_p (rt_node (dd_tree s ! u) ! k) = [l, r, NSen u]) \<and>
     (\<exists>q. nd_p (rt_sen (dd_tree s ! u)) = [q, NNull, NNull])"

lemma under_sentinel_get_p:
  "under_sentinel s u k \<Longrightarrow> get_p s (NNode u k) 2 = Ok (NSen u)"
  "under_sentinel s u k \<Longrightarrow> \<exists>q. node_get s (NSen u) = Ok (rt_sen (dd_tree s ! u)) \<and>
     nd_p (rt_sen (dd_tree s ! u)) = [q, NNull, NNull]"
  by (auto simp: under_sentinel_def get_p_def ddl_simps aget_def)

lemma under_sentinel_set_p:
  assumes "under_sentinel s u k" "set_p s (NSen u) 0 NNull = Ok s'"
  shows "under_sentinel s' u k"
  using assms by (auto simp: under_sentinel_def set_p_def ddl_simps aset_def)

lemma under_sentinel_tree_put:
  assumes "under_sentinel s u k" "tree_get s t = Ok T" "tree_put s t (T\<lparr>rt_pos := i, rt_avail := av\<rparr>) = Ok s'"
  shows "under_sentinel s' u k"
  using assms
  by (cases "t = u") (auto simp: under_sentinel_def tree_get_def tree_put_def dest!: aget_OkD aset_OkD)

lemma ok_or_fault_tree [simp]: "ok_or_fault (tree_get s t)" "ok_or_fault (tree_put s t T)"
  by (simp_all add: tree_get_def tree_put_def ok_or_fault_bnd)

lemma ok_or_fault_node [simp]: "ok_or_fault (node_get s n)" "ok_or_fault (node_put s n N)"
  by (cases n; simp add: ok_or_fault_bnd)+

lemma ok_or_fault_link [simp]: "ok_or_fault (get_p s n d)" "ok_or_fault (set_p s n d p)"
  by (simp_all add: get_p_def set_p_def ok_or_fault_bnd)

lemma delete_tail_faults:
  assumes "under_sentinel s u k" "node = NNode u k"
  shows "faults (bnd (get_p s node 2) (\<lambda>par. bnd (set_p s par 0 NNull) (\<lambda>s.
    bnd (get_p s node 2) (\<lambda>par. BalanceAfterDeletion 129 s par t))))"
proof -
  have "faults (bnd (get_p s' node 2) (\<lambda>par. BalanceAfterDeletion 129 s' par t))"
    if "set_p s (NSen u) 0 NNull = Ok s'" for s'
  proof -
    have us: "under_sentinel s' u k" using under_sentinel_set_p assms(1) that by blast
    then obtain q where "tree_get s' u = Ok (dd_tree s' ! u)" "nd_p (rt_sen (dd_tree s' ! u)) = [q, NNull, NNull]"
      by (auto simp: under_sentinel_def ddl_simps)
    then have "faults (BalanceAfterDeletion (Suc 128) s' (NSen u) t)"
      by (rule BalanceAfterDeletion_sentinel)
    then show ?thesis using under_sentinel_get_p(1)[OF us] assms(2) by (simp del: BalanceAfterDeletion.simps)
  qed
  then show ?thesis using under_sentinel_get_p(1)[OF assms(1)] assms(2)
    by (auto intro!: faults_bnd simp del: BalanceAfterDeletion.simps)
qed

lemma DeleteFromRBTree_faults:
  assumes inv: "ddl_inv s"
  shows "faults (DeleteFromRBTree s node t)"
proof (cases node)
  case NNull
  then show ?thesis by (simp add: DeleteFromRBTree_def get_p_def)
next
  case (NSen u)
  then show ?thesis using inv tree_ok_of_inv[OF inv, of u]
    by (auto simp: DeleteFromRBTree_def get_p_def tree_get_cases tree_ok_def aget_def)
next
  case (NNode u k)
  show ?thesis
  proof (cases "\<exists>N. node_get s node = Ok N \<and> nd_p N ! 2 = NSen u")
    case False
    have "faults (bnd (get_p s node 2) (node_get s))"
    proof (cases "node_get s node")
      case (Ok N)
      then have "nd_p N = [NNull, NNull, NNull]"
        using False node_get_parent[OF inv, of u k N] NNode by auto
      then show ?thesis using Ok by (simp add: get_p_def aget_def)
    qed (use ok_or_fault_node(1)[of s node] in \<open>auto simp: get_p_def ok_or_fault_def faults_def returns_def\<close>)
    then show ?thesis
      unfolding DeleteFromRBTree_def by (rule faults_bnd_second)
  next
    case True
    then obtain N where N: "node_get s (NNode u k) = Ok N" "nd_p N ! 2 = NSen u"
      using NNode by blast
    then obtain l r where u: "u < 2" "k < 128" and l: "nd_p N = [l, r, NSen u]"
      using node_get_parent[OF inv N(1)] by auto
    note ok = tree_ok_of_inv[OF inv u(1)]
    have k: "k < length (rt_node (dd_tree s ! u))" using ok u(2) by (simp add: tree_ok_def)
    have "N = rt_node (dd_tree s ! u) ! k" using N(1) u(1) k inv by (simp add: tree_get_cases)
    then have us: "under_sentinel s u k"
      using u(1) k l ok lengths_of_inv[OF inv] by (auto simp: under_sentinel_def tree_ok_def)
    obtain q where q: "node_get s (NSen u) = Ok (rt_sen (dd_tree s ! u))"
        "nd_p (rt_sen (dd_tree s ! u)) = [q, NNull, NNull]"
      using under_sentinel_get_p(2)[OF us] by blast
    show ?thesis
    proof (cases "q = node")
      case False
      then show ?thesis using q NNode under_sentinel_get_p(1)[OF us]
        by (simp add: DeleteFromRBTree_def find_dir_def aget_def del: node_get.simps)
    next
      case True
      then have "find_dir (nd_p (rt_sen (dd_tree s ! u))) node = Ok 0"
        using q by (simp add: find_dir_def)
      note d = this
      have "faults (bnd (tree_get s1 t) (\<lambda>T. bnd (node_get s1 node) (\<lambda>N.
          bnd (aset (rt_avail T) (rt_pos T + 1) (nd_rank N)) (\<lambda>av.
          bnd (tree_put s1 t (T\<lparr>rt_pos := rt_pos T + 1, rt_avail := av\<rparr>)) (\<lambda>s.
          bnd (get_p s node 2) (\<lambda>par. bnd (set_p s par 0 NNull) (\<lambda>s.
          bnd (get_p s node 2) (\<lambda>par. BalanceAfterDeletion 129 s par t))))))))"
        if "under_sentinel s1 u k" for s1
        using that by (intro faults_bnd delete_tail_faults[OF _ NNode]) (simp_all add: under_sentinel_tree_put)
      then show ?thesis
        using q(1) d under_sentinel_get_p(1)[OF us] under_sentinel_set_p[OF us] NNode
        by (auto simp: DeleteFromRBTree_def simp del: node_get.simps intro!: faults_bnd[of "set_p s (NSen u) 0 NNull"])
    qed
  qed
qed

lemma renew_pass_in_time:
  assumes "ddl_inv s" "i < 2" "in_time s i"
  shows "renew_pass s i = Ok s"
proof -
  have R: "ring_get s i = Ok (dd_ring s ! i)" and lim: "rg_timeLimit (dd_ring s ! i) = 22"
      and len: "length (rg_section (dd_ring s ! i)) = 128"
    using ring_ok_of_inv[OF assms(1,2)] lengths_of_inv[OF assms(1)] assms(2)
    by (simp_all add: ddl_simps ring_ok_def)
  then show ?thesis using assms(3)
    by (auto simp: renew_pass_def in_time_def head_section_def Let_def not_less)
qed

lemma renew_pass_overdue:
  assumes "ddl_inv s" "i < 2" "overdue s i"
  shows "faults (renew_pass s i)"
proof -
  have R: "ring_get s i = Ok (dd_ring s ! i)" and lim: "rg_timeLimit (dd_ring s ! i) = 22"
      and len: "length (rg_section (dd_ring s ! i)) = 128"
    using ring_ok_of_inv[OF assms(1,2)] lengths_of_inv[OF assms(1)] assms(2)
    by (simp_all add: ddl_simps ring_ok_def)
  have "ddl_inv (s\<lparr>dd_readyArea := r\<rparr>)" for r using assms(1) by (simp add: ddl_inv_def)
  then have del: "faults (DeleteFromRBTree (s\<lparr>dd_readyArea := r\<rparr>) n t)" for r n t
    by (rule DeleteFromRBTree_faults)
  obtain j where j: "j < 128" "sc_pBack (rg_sen (dd_ring s ! i)) = SSec i j"
      "22 < Nowtime s - scast (sc_time (rg_section (dd_ring s ! i) ! j))"
    using assms(3) by (auto simp: overdue_def head_section_def)
  then show ?thesis using R lim len del
    by (simp add: renew_pass_def Let_def faults_bnd_first)
qed

text \<open>As soon as the oldest request of the read or the write ring has waited longer than the
  22 ticks of its deadline, the next \<open>RenewReadyArea\<close> performs an undefined access: the request is
  never handed to the driver by the deadline path.\<close>

theorem expired_request_faults:
  assumes "ddl_inv s" "i < 2" "overdue s i" "\<forall>k<i. in_time s k"
  shows "faults (RenewReadyArea s)"
proof (cases "i = 0")
  case True
  then show ?thesis using renew_pass_overdue assms by (simp add: RenewReadyArea_def faults_bnd_first)
next
  case False
  then have i: "i = 1" and "in_time s 0" using assms by auto
  then show ?thesis using renew_pass_overdue[of s 1] renew_pass_in_time[of s 0] assms
    by (simp add: RenewReadyArea_def faults_bnd_first)
qed

section \<open>Submitting a request\<close>

text \<open>The tree after hanging request \<open>x\<close> in slot \<open>i\<close>.\<close>

definition hung :: "nat \<Rightarrow> RBTree \<Rightarrow> nat \<Rightarrow> req \<Rightarrow> RBTree" where
  "hung t T i x = T\<lparr>rt_size := rt_size T + 1, rt_pos := rt_pos T - 1,
     rt_sen := (rt_sen T)\<lparr>nd_p := [NNode t i, NNull, NNull]\<rparr>,
     rt_node := (rt_node T)[i := (rt_node T ! i)\<lparr>nd_data := x, nd_p := [NNull, NNull, NSen t],
        nd_color := BLACK\<rparr>]\<rparr>"

lemma tree_ok_hung:
  assumes "tree_ok t T" "rt_size T < 128" "i < 128"
  shows "tree_ok t (hung t T i x)"
  using assms by (auto simp: tree_ok_def hung_def dest!: set_update_subset_insert[THEN subsetD])

lemma free_slot:
  assumes "tree_ok t T" "rt_size T < 128"
  obtains i where "bnd (aget (rt_avail T) (rt_pos T)) slot_of = Ok i" "i < 128"
proof -
  have r: "0 \<le> rt_pos T \<and> rt_pos T < 128" and l: "length (rt_avail T) = 128"
    using assms by (auto simp: tree_ok_def)
  then have "rt_avail T ! nat (rt_pos T) \<in> set (rt_avail T)" by (intro nth_mem) auto
  then have "0 \<le> rt_avail T ! nat (rt_pos T) \<and> rt_avail T ! nat (rt_pos T) < 128"
    using assms(1) by (auto simp: tree_ok_def)
  then show thesis using r l that[of "nat (rt_avail T ! nat (rt_pos T))"] by (auto simp: slot_of_def)
qed

lemma InsertToRBTree_hangs:
  assumes inv: "ddl_inv s" and t: "t < 2" and room: "rt_size (dd_tree s ! t) < 128"
  obtains i where "i < 128"
    "InsertToRBTree m s t x =
       bnd (RenewReadyArea (s\<lparr>dd_tree := (dd_tree s)[t := hung t (dd_tree s ! t) i x]\<rparr>))
         (\<lambda>s. Ok (NNode t i, s))"
proof -
  let ?T = "dd_tree s ! t"
  note ok = tree_ok_of_inv[OF inv t]
  obtain i where i: "bnd (aget (rt_avail ?T) (rt_pos ?T)) slot_of = Ok i" "i < 128"
    using free_slot[OF ok room] by blast
  have N: "i < length (rt_node ?T)" using ok i(2) by (simp add: tree_ok_def)
  then have "rt_node ?T ! i \<in> set (rt_node ?T)" by simp
  then obtain q0 q where q: "nd_p (rt_node ?T ! i) = [NNull, NNull, q0]" "nd_p (rt_sen ?T) = [q, NNull, NNull]"
    using ok by (auto simp: tree_ok_def)
  have l: "t < length (dd_tree s)" using lengths_of_inv[OF inv] t by simp
  have T: "rt_root ?T = NNull" "nd_color (rt_sen ?T) = BLACK" "rt_size ?T \<noteq> rt_capacity ?T"
    using ok room by (auto simp: tree_ok_def)
  have bal: "balance_add_loop 129 s' (NNode t i) = Ok s'"
    if "dd_tree s' = (dd_tree s)[t := hung t ?T i x]" for s'
  proof -
    have "balance_add_loop (Suc 128) s' (NNode t i) = Ok s'"
      using that l N T(2)
      by (subst balance_add_loop.simps) (simp add: get_p_def get_color_def ddl_simps hung_def RED_def BLACK_def)
    then show ?thesis by (simp del: balance_add_loop.simps)
  qed
  have desc: "descend m 129 s' x NNull (NSen t) 0 = Ok (NSen t, 0)" for s'
    using descend.simps(2)[of m 128 s' x NNull "NSen t" 0] by simp
  have "InsertToRBTree m s t x =
       bnd (RenewReadyArea (s\<lparr>dd_tree := (dd_tree s)[t := hung t ?T i x]\<rparr>)) (\<lambda>s. Ok (NNode t i, s))"
    using i(1) N q l T bal desc
    by (simp add: InsertToRBTree_def BalanceAfterAddition_def ddl_simps set_p_def set_color_def hung_def Let_def
        del: balance_add_loop.simps descend.simps bnd_Ok_iff)
  then show thesis using that i(2) by blast
qed

lemma ring_slot:
  assumes "ring_ok t R" "rg_size R < 128"
  obtains i where "bnd (aget (rg_avail R) (rg_pos R)) slot_of = Ok i" "i < 128"
proof -
  have r: "0 \<le> rg_pos R \<and> rg_pos R < 128" and l: "length (rg_avail R) = 128"
    using assms by (auto simp: ring_ok_def)
  then have "rg_avail R ! nat (rg_pos R) \<in> set (rg_avail R)" by (intro nth_mem) auto
  then have "0 \<le> rg_avail R ! nat (rg_pos R) \<and> rg_avail R ! nat (rg_pos R) < 128"
    using assms(1) by (auto simp: ring_ok_def)
  then show thesis using r l that[of "nat (rg_avail R ! nat (rg_pos R))"] by (auto simp: slot_of_def)
qed

text \<open>A ring whose sections keep their time stamp or get the current one stays in time.\<close>

lemma ring_replaced:
  fixes s :: ddl
  assumes inv: "ddl_inv s" and t: "t < 2" and R: "ring_ok t R" and tm: "\<forall>k<2. in_time s k"
    and ticks: "uint (dd_ticks s) < 2 ^ 31"
    and hd: "sc_pBack (rg_sen R) = head_section s t \<or> sc_pBack (rg_sen R) = SSec t i"
    and i: "i < 128" "sc_time (rg_section R ! i) = ucast (Nowtime s)"
    and times: "\<forall>j<128. sc_time (rg_section R ! j) = sc_time (rg_section (dd_ring s ! t) ! j) \<or>
       sc_time (rg_section R ! j) = ucast (Nowtime s)"
  shows "ddl_inv (s\<lparr>dd_ring := (dd_ring s)[t := R]\<rparr>) \<and> (\<forall>k<2. in_time (s\<lparr>dd_ring := (dd_ring s)[t := R]\<rparr>) k)"
proof -
  let ?s = "s\<lparr>dd_ring := (dd_ring s)[t := R]\<rparr>"
  have l: "length (dd_ring s) = 2" using lengths_of_inv[OF inv] by simp
  have nth: "dd_ring ?s ! k = (if k = t then R else dd_ring s ! k)" for k using t l by simp
  have now: "Nowtime s - scast (ucast (Nowtime s) :: uint) = 0"
    using ticks_in_time[OF ticks] by (simp add: Nowtime_def)
  have now': "Nowtime ?s = Nowtime s" by (simp add: Nowtime_def)
  have "in_time ?s t"
  proof (cases "sc_pBack (rg_sen R) = SSec t i")
    case True
    then show ?thesis using i now nth[of t] now' by (auto simp: in_time_def head_section_def)
  next
    case False
    then have h: "head_section ?s t = head_section s t" using hd nth[of t] by (simp add: head_section_def)
    show ?thesis
    proof (cases "head_section s t = SNull")
      case False
      then obtain j where j: "j < 128" "head_section s t = SSec t j"
          "Nowtime s - scast (sc_time (rg_section (dd_ring s ! t) ! j)) \<le> 22"
        using tm t by (auto simp: in_time_def)
      have "Nowtime s - scast (sc_time (rg_section R ! j)) \<le> 22"
        using spec[OF times, of j] j now by auto
      then show ?thesis using h j nth[of t] now' by (auto simp: in_time_def)
    qed (simp add: in_time_def h)
  qed
  moreover have "in_time ?s k" if "k < 2" "k \<noteq> t" for k
    using tm that nth[of k] now' by (simp add: in_time_def head_section_def)
  moreover have "ddl_inv ?s"
    using inv R l nth by (auto simp: ddl_inv_def)
  ultimately show ?thesis by blast
qed

lemma InsertToRing_queues:
  assumes inv: "ddl_inv s" and t: "t < 2" and room: "rg_size (dd_ring s ! t) < 128"
    and ticks: "uint (dd_ticks s) < 2 ^ 31" and tm: "\<forall>k<2. in_time s k"
  obtains i R where "i < 128" "InsertToRing s t x = Ok (SSec t i, s\<lparr>dd_ring := (dd_ring s)[t := R]\<rparr>)"
    "ddl_inv (s\<lparr>dd_ring := (dd_ring s)[t := R]\<rparr>)" "\<forall>k<2. in_time (s\<lparr>dd_ring := (dd_ring s)[t := R]\<rparr>) k"
    "rg_size R = rg_size (dd_ring s ! t) + 1"
proof -
  let ?R = "dd_ring s ! t"
  note ok = ring_ok_of_inv[OF inv t]
  obtain i where i: "bnd (aget (rg_avail ?R) (rg_pos ?R)) slot_of = Ok i" "i < 128"
    using ring_slot[OF ok room] by blast
  have l: "t < length (dd_ring s)" and len: "length (rg_section ?R) = 128"
      and cap: "rg_size ?R \<noteq> rg_capacity ?R"
    using lengths_of_inv[OF inv] t ok room by (auto simp: ring_ok_def)
  define S where "S = (rg_section ?R ! i)\<lparr>sc_data := x, sc_time := ucast (Nowtime s), sc_pFront := rg_rear ?R\<rparr>"
  define R1 where "R1 = ?R\<lparr>rg_size := rg_size ?R + 1, rg_pos := rg_pos ?R - 1, rg_section := (rg_section ?R)[i := S]\<rparr>"
  have S: "sc_time S = ucast (Nowtime s)" by (simp add: S_def)
  consider (empty) "rg_rear ?R = SSen t" | (queued) k where "k < 128" "rg_rear ?R = SSec t k"
    using ok by (auto simp: ring_ok_def)
  then show thesis
  proof cases
    case empty
    define R where "R = R1\<lparr>rg_sen := (rg_sen ?R)\<lparr>sc_pBack := SSec t i\<rparr>, rg_rear := SSec t i\<rparr>"
    have ins: "InsertToRing s t x = Ok (SSec t i, s\<lparr>dd_ring := (dd_ring s)[t := R]\<rparr>)"
      using i l len cap empty by (simp add: InsertToRing_def ddl_simps R_def R1_def S_def Nowtime_def Let_def del: bnd_Ok_iff)
    have "ring_ok t R" using ok room i(2) by (simp add: ring_ok_def R_def R1_def)
    then have "ddl_inv (s\<lparr>dd_ring := (dd_ring s)[t := R]\<rparr>) \<and> (\<forall>k<2. in_time (s\<lparr>dd_ring := (dd_ring s)[t := R]\<rparr>) k)"
      using i(2) len S by (intro ring_replaced[OF inv t _ tm ticks]) (auto simp: R_def R1_def nth_list_update)
    then show thesis using that[OF i(2) ins] by (simp add: R_def R1_def)
  next
    case queued
    define R where "R = R1\<lparr>rg_section := (rg_section R1)[k := (rg_section R1 ! k)\<lparr>sc_pBack := SSec t i\<rparr>],
      rg_rear := SSec t i\<rparr>"
    have ins: "InsertToRing s t x = Ok (SSec t i, s\<lparr>dd_ring := (dd_ring s)[t := R]\<rparr>)"
      using i l len cap queued by (simp add: InsertToRing_def ddl_simps R_def R1_def S_def Nowtime_def Let_def del: bnd_Ok_iff)
    have "ring_ok t R" using ok room i(2) by (simp add: ring_ok_def R_def R1_def)
    then have "ddl_inv (s\<lparr>dd_ring := (dd_ring s)[t := R]\<rparr>) \<and> (\<forall>k<2. in_time (s\<lparr>dd_ring := (dd_ring s)[t := R]\<rparr>) k)"
      using i(2) len S queued
      by (intro ring_replaced[OF inv t _ tm ticks, of _ i]) (auto simp: R_def R1_def nth_list_update head_section_def)
    then show thesis using that[OF i(2) ins] by (simp add: R_def R1_def)
  qed
qed

lemma GetFromRBTree_hung:
  assumes inv: "ddl_inv s" and t: "t < 2" and T: "dd_tree s ! t = hung t T i x" "i < length (rt_node T)"
    and first: "t = 0 \<or> rt_size (dd_tree s ! 0) = 0" and T0: "t = 0 \<Longrightarrow> 0 \<le> rt_size T"
  shows "GetFromRBTree s 0 = Ok x"
proof -
  have l: "t < length (dd_tree s)" "0 < length (dd_tree s)" using lengths_of_inv[OF inv] t by simp_all
  have "pick_tree s 0 = Ok t"
  proof (cases "t = 0")
    case True
    then show ?thesis using l T T0 by (simp add: pick_tree_def ddl_simps hung_def)
  next
    case False
    then have "t = 1" "rt_size (dd_tree s ! 0) = 0" using t first by auto
    then show ?thesis using l by (simp add: pick_tree_def ddl_simps)
  qed
  moreover have "leftmost 129 s (NSen t) = Ok (NNode t i)"
  proof -
    have "leftmost (Suc 127) s (NNode t i) = Ok (NNode t i)"
      using l T by (subst leftmost.simps) (simp add: get_p_def ddl_simps hung_def)
    then have "leftmost (Suc 128) s (NSen t) = Ok (NNode t i)"
      using l T by (subst leftmost.simps) (simp add: get_p_def ddl_simps hung_def)
    then show ?thesis by (simp del: leftmost.simps)
  qed
  ultimately show ?thesis using l T by (simp add: GetFromRBTree_def ddl_simps hung_def del: leftmost.simps)
qed

lemma tree_replaced:
  assumes "ddl_inv s" "t < 2" "tree_ok t T"
  shows "ddl_inv (s\<lparr>dd_tree := (dd_tree s)[t := T]\<rparr>)"
  using assms by (auto simp: ddl_inv_def nth_list_update)

lemma ring_ok_section:
  assumes "ring_ok t R" "j < 128"
  shows "ring_ok t (R\<lparr>rg_section := (rg_section R)[j := S]\<rparr>)"
  using assms by (simp add: ring_ok_def)

lemma tree_ok_pSection:
  assumes "tree_ok t T" "j < 128"
  shows "tree_ok t (T\<lparr>rt_node := (rt_node T)[j := (rt_node T ! j)\<lparr>nd_pSection := p\<rparr>]\<rparr>)"
proof -
  have "rt_node T ! j \<in> set (rt_node T)" using assms by (simp add: tree_ok_def)
  then show ?thesis using assms
    by (auto simp: tree_ok_def dest!: set_update_subset_insert[THEN subsetD])
qed

text \<open>The cross pointers \<open>rw_queue\<close> sets after both insertions.\<close>

lemma link_section_node:
  assumes inv: "ddl_inv s" and t: "t < 2" and i: "i < 128" and j: "j < 128"
  shows "\<exists>s'. bnd (sec_get s (SSec t i)) (\<lambda>S. bnd (sec_put s (SSec t i) (S\<lparr>sc_pNode := n\<rparr>)) (\<lambda>s.
      bnd (node_get s (NNode t j)) (\<lambda>N. node_put s (NNode t j) (N\<lparr>nd_pSection := p\<rparr>)))) = Ok s' \<and>
    dd_readyArea s' = dd_readyArea s \<and> ddl_inv s'"
proof -
  note okT = tree_ok_of_inv[OF inv t] and okR = ring_ok_of_inv[OF inv t]
  have l: "t < length (dd_tree s)" "t < length (dd_ring s)"
      "i < length (rg_section (dd_ring s ! t))" "j < length (rt_node (dd_tree s ! t))"
    using lengths_of_inv[OF inv] t i j okT okR by (simp_all add: tree_ok_def ring_ok_def)
  let ?R = "(dd_ring s ! t)\<lparr>rg_section := (rg_section (dd_ring s ! t))[i := (rg_section (dd_ring s ! t) ! i)\<lparr>sc_pNode := n\<rparr>]\<rparr>"
  let ?T = "(dd_tree s ! t)\<lparr>rt_node := (rt_node (dd_tree s ! t))[j := (rt_node (dd_tree s ! t) ! j)\<lparr>nd_pSection := p\<rparr>]\<rparr>"
  have "ddl_inv (s\<lparr>dd_ring := (dd_ring s)[t := ?R], dd_tree := (dd_tree s)[t := ?T]\<rparr>)"
    using inv t tree_ok_pSection[OF okT j] ring_ok_section[OF okR i]
    by (auto simp: ddl_inv_def nth_list_update)
  then show ?thesis using l by (simp add: ddl_simps del: bnd_Ok_iff)
qed

lemma ddl_submit_steps:
  assumes inv: "ddl_inv s" and w: "rq_write r = int t" "t < 2"
    and room: "rg_size (dd_ring s ! t) < 128" "rt_size (dd_tree s ! t) < 128"
    and ticks: "uint (dd_ticks s) < 2 ^ 31" and tm: "\<forall>k<2. in_time s k"
    and first: "t = 0 \<or> rt_size (dd_tree s ! 0) = 0"
  shows "\<exists>s'. ddl_submit m s r = Ok s' \<and> dd_readyArea s' = r \<and> ddl_inv s'"
proof -
  obtain i R where i: "i < 128" and ins: "InsertToRing s t r = Ok (SSec t i, s\<lparr>dd_ring := (dd_ring s)[t := R]\<rparr>)"
      and inv1: "ddl_inv (s\<lparr>dd_ring := (dd_ring s)[t := R]\<rparr>)"
      and tm1: "\<forall>k<2. in_time (s\<lparr>dd_ring := (dd_ring s)[t := R]\<rparr>) k"
    using InsertToRing_queues[OF inv w(2) room(1) ticks tm] by blast
  define s1 where "s1 = s\<lparr>dd_ring := (dd_ring s)[t := R]\<rparr>"
  have trees: "dd_tree s1 = dd_tree s" by (simp add: s1_def)
  obtain j where j: "j < 128" and hang: "InsertToRBTree m s1 t r =
      bnd (RenewReadyArea (s1\<lparr>dd_tree := (dd_tree s1)[t := hung t (dd_tree s1 ! t) j r]\<rparr>)) (\<lambda>s. Ok (NNode t j, s))"
    using InsertToRBTree_hangs[of s1 t m r] inv1 w(2) room(2) trees unfolding s1_def[symmetric] by auto
  define s2 where "s2 = s1\<lparr>dd_tree := (dd_tree s1)[t := hung t (dd_tree s1 ! t) j r]\<rparr>"
  note ok = tree_ok_of_inv[OF inv w(2)]
  have inv2: "ddl_inv s2"
    unfolding s2_def using inv1 w(2) tree_ok_hung[OF ok room(2) j] trees
    by (intro tree_replaced) (simp_all add: s1_def)
  have tm2: "\<forall>k<2. in_time s2 k" using tm1 by (simp add: in_time_def head_section_def s2_def s1_def Nowtime_def)
  have T2: "dd_tree s2 ! t = hung t (dd_tree s ! t) j r"
    using lengths_of_inv[OF inv] w(2) by (simp add: s2_def trees)
  have "GetFromRBTree s2 0 = Ok r"
  proof (rule GetFromRBTree_hung[OF inv2 w(2) T2])
    show "j < length (rt_node (dd_tree s ! t))" "0 \<le> rt_size (dd_tree s ! t)" using ok j by (simp_all add: tree_ok_def)
    show "t = 0 \<or> rt_size (dd_tree s2 ! 0) = 0"
      using first w(2) lengths_of_inv[OF inv] by (cases "t = 0") (auto simp: s2_def trees)
  qed
  then have ren: "RenewReadyArea s2 = Ok (s2\<lparr>dd_readyArea := r\<rparr>)"
    using renew_pass_in_time[OF inv2, of 0] renew_pass_in_time[OF inv2, of 1] tm2 by (simp add: RenewReadyArea_def)
  have inv3: "ddl_inv (s2\<lparr>dd_readyArea := r\<rparr>)" using inv2 by (simp add: ddl_inv_def)
  show ?thesis
    using ins hang ren link_section_node[OF inv3 w(2) i j] w(1)
    by (auto simp: ddl_submit_def Let_def s1_def[symmetric] s2_def[symmetric])
qed

section \<open>Completing a request\<close>

lemma ring_ops_keep_trees:
  "ring_put s t R = Ok s' \<Longrightarrow> dd_tree s' = dd_tree s"
  "sec_put s p S = Ok s' \<Longrightarrow> dd_tree s' = dd_tree s"
  by (auto simp: ring_put_def) (cases p; auto simp: ring_put_def)

lemma leftmost_inv:
  assumes inv: "ddl_inv s" and t: "t < 2" and q: "nd_p (rt_sen (dd_tree s ! t)) = [q, NNull, NNull]"
  shows "leftmost 129 s (NSen t) = Ok (if q = NNull then NSen t else q)"
proof -
  note ok = tree_ok_of_inv[OF inv t]
  have l: "t < length (dd_tree s)" using lengths_of_inv[OF inv] t by simp
  have "leftmost (Suc 128) s (NSen t) = Ok (if q = NNull then NSen t else q)"
  proof (cases "q = NNull")
    case True
    then show ?thesis using l q by (subst leftmost.simps) (simp add: get_p_def ddl_simps)
  next
    case False
    then obtain k where k: "k < 128" "q = NNode t k" using ok q by (auto simp: tree_ok_def)
    then have kl: "k < length (rt_node (dd_tree s ! t))" using ok by (simp add: tree_ok_def)
    then have "rt_node (dd_tree s ! t) ! k \<in> set (rt_node (dd_tree s ! t))" by simp
    then obtain q' where "nd_p (rt_node (dd_tree s ! t) ! k) = [NNull, NNull, q']"
      using ok by (auto simp: tree_ok_def)
    then have "leftmost (Suc 127) s (NNode t k) = Ok (NNode t k)"
      using l kl by (subst leftmost.simps) (simp add: get_p_def ddl_simps)
    then show ?thesis using l q k by (subst leftmost.simps) (simp add: get_p_def ddl_simps)
  qed
  then show ?thesis by (simp del: leftmost.simps)
qed

text \<open>With no request in either tree, \<open>PrimRBTree\<close>, which the interrupt handler calls once
  per interrupt, writes past the end of the free list.\<close>

theorem PrimRBTree_empty_faults:
  assumes inv: "ddl_inv s" and "rt_size (dd_tree s ! 0) = 0" "rt_size (dd_tree s ! 1) = 0"
  shows "PrimRBTree s 0 = Fault ''write outside array''"
proof -
  have l: "length (dd_tree s) = 2" using lengths_of_inv[OF inv] by simp
  note ok = tree_ok_of_inv[OF inv, of 1]
  obtain q where q: "nd_p (rt_sen (dd_tree s ! 1)) = [q, NNull, NNull]" "q = NNull \<or> (\<exists>k<128. q = NNode 1 k)"
    using ok by (auto simp: tree_ok_def)
  have pos: "rt_pos (dd_tree s ! 1) = 127" "length (rt_avail (dd_tree s ! 1)) = 128" "length (rt_node (dd_tree s ! 1)) = 128"
    using ok assms(3) by (auto simp: tree_ok_def)
  then show ?thesis using assms l q leftmost_inv[OF inv _ q(1)]
    by (auto simp: PrimRBTree_def pick_tree_def ddl_simps aset_def)
qed

lemma PrimRBTree_unlinked:
  assumes l: "length (dd_tree s) = 2" and sz: "rt_size (dd_tree s ! 0) > 0"
    and p: "nd_p (rt_sen (dd_tree s ! 0)) = [NNull, NNull, NNull]"
  shows "faults (PrimRBTree s 0)"
proof -
  have lm: "leftmost 129 s' (NSen 0) = Ok (NSen 0)" 
    if "length (dd_tree s') = 2" "nd_p (rt_sen (dd_tree s' ! 0)) = [NNull, NNull, NNull]" for s'
  proof -
    have "leftmost (Suc 128) s' (NSen 0) = Ok (NSen 0)"
      using that by (subst leftmost.simps) (simp add: get_p_def ddl_simps)
    then show ?thesis by (simp del: leftmost.simps)
  qed
  show ?thesis using l sz p
    by (auto simp: PrimRBTree_def pick_tree_def ddl_simps lm get_p_def set_p_def intro!: faults_bnd)
qed

lemma leftmost_link:
  assumes "length (dd_tree s) = 2" "k < length (rt_node (dd_tree s ! 0))"
    "nd_p (rt_sen (dd_tree s ! 0)) = [NNode 0 k, x, y]" "nd_p (rt_node (dd_tree s ! 0) ! k) = [NNull, NNull, p]"
  shows "leftmost 129 s (NSen 0) = Ok (NNode 0 k)"
proof -
  have "leftmost (Suc 127) s (NNode 0 k) = Ok (NNode 0 k)"
    using assms by (subst leftmost.simps) (simp add: get_p_def ddl_simps)
  then have "leftmost (Suc 128) s (NSen 0) = Ok (NNode 0 k)"
    using assms by (subst leftmost.simps) (simp add: get_p_def ddl_simps)
  then show ?thesis by (simp del: leftmost.simps)
qed

lemma balance_link:
  assumes "length (dd_tree s) = 2" "k < length (rt_node (dd_tree s ! 0))"
    "nd_p (rt_node (dd_tree s ! 0) ! k) = [NNull, NNull, NSen 0]"
  shows "BalanceAfterDeletion 129 s (NNode 0 k) 0 = set_color s (NNode 0 k) BLACK"
proof -
  have "BalanceAfterDeletion (Suc 128) s (NNode 0 k) 0 = set_color s (NNode 0 k) BLACK"
    using assms by (subst BalanceAfterDeletion.simps) (simp add: get_p_def ddl_simps find_dir_def)
  then show ?thesis by (simp del: BalanceAfterDeletion.simps)
qed

lemma PrimRBTree_unlinks:
  assumes inv: "ddl_inv s" and sz: "rt_size (dd_tree s ! 0) > 0" and ret: "PrimRBTree s 0 = Ok s'"
  shows "length (dd_tree s') = 2 \<and> rt_size (dd_tree s' ! 0) = rt_size (dd_tree s ! 0) - 1 \<and>
    nd_p (rt_sen (dd_tree s' ! 0)) = [NNull, NNull, NNull]"
proof -
  let ?T = "dd_tree s ! 0"
  note ok = tree_ok_of_inv[OF inv, of 0]
  have l: "length (dd_tree s) = 2" using lengths_of_inv[OF inv] by simp
  obtain q where q: "nd_p (rt_sen ?T) = [q, NNull, NNull]" "q = NNull \<or> (\<exists>k<128. q = NNode 0 k)"
    using ok by (auto simp: tree_ok_def)
  have "q \<noteq> NNull" using PrimRBTree_unlinked[OF l sz] q(1) ret by auto
  then obtain k where k: "k < 128" "q = NNode 0 k" using q by blast
  then have kl: "k < length (rt_node ?T)" using ok by (simp add: tree_ok_def)
  then have "rt_node ?T ! k \<in> set (rt_node ?T)" by simp
  then obtain p where p: "nd_p (rt_node ?T ! k) = [NNull, NNull, p]" "p = NNull \<or> p = NSen 0"
    using ok by (auto simp: tree_ok_def)
  have lm: "leftmost 129 s1 (NSen 0) = Ok (NNode 0 k)"
    if "dd_tree s1 = (dd_tree s)[0 := ?T\<lparr>rt_size := v\<rparr>]" for s1 v
    using leftmost_link[of s1 k] that l kl q(1) k p(1) by simp
  have bal: "BalanceAfterDeletion 129 s1 (NNode 0 k) 0 = set_color s1 (NNode 0 k) BLACK"
    if "dd_tree s1 = (dd_tree s)[0 := T1]" "rt_node T1 = rt_node ?T" "p = NSen 0" for s1 T1
    using balance_link[of s1 k] that l kl p(1) by simp
  have "p = NSen 0" using ret sz l q k kl p lm
    by (auto simp: PrimRBTree_def pick_tree_def ddl_simps get_p_def set_p_def simp del: leftmost.simps)
  then show ?thesis using ret sz l q k kl p lm
    by (auto simp: PrimRBTree_def pick_tree_def ddl_simps get_p_def set_p_def Let_def bal set_color_def
        simp del: leftmost.simps BalanceAfterDeletion.simps dest!: ring_ops_keep_trees split: if_splits)
qed

text \<open>When two or more reads are outstanding and one completes, the sentinel of the read tree
  loses its only link, so the completion of the next read dereferences a null pointer.\<close>

theorem second_completion_faults:
  assumes "ddl_inv s" "rt_size (dd_tree s ! 0) \<ge> 2" "PrimRBTree s 0 = Ok s'"
  shows "faults (PrimRBTree s' 0)"
  using PrimRBTree_unlinks[of s s'] PrimRBTree_unlinked[of s'] assms by auto


section \<open>Examples\<close>

definition ex_read :: req where
  "ex_read = \<lparr>rq_b = CacheBuf 0, rq_write = 0\<rparr>"

text \<open>A read queued at tick 0 in section 127 of ring 0, seen at tick 23.\<close>

definition ex_overdue :: ddl where
  "ex_overdue = ddl_init\<lparr>dd_ticks := 23, dd_ring := (dd_ring ddl_init)[0 := (dd_ring ddl_init ! 0)\<lparr>
     rg_sen := (rg_sen (dd_ring ddl_init ! 0))\<lparr>sc_pBack := SSec 0 127\<rparr>\<rparr>]\<rparr>"

text \<open>Two reads in the read tree, the last one in node 126.\<close>

definition ex_linked :: "Node" where
  "ex_linked = zero_node\<lparr>nd_p := [NNull, NNull, NSen 0], nd_pSection := SSec 0 126, nd_data := ex_read\<rparr>"

definition ex_two_reads :: ddl where
  "ex_two_reads = ddl_init\<lparr>dd_tree := (dd_tree ddl_init)[0 := (dd_tree ddl_init ! 0)\<lparr>rt_size := 2, rt_pos := 125,
        rt_sen := (rt_sen (dd_tree ddl_init ! 0))\<lparr>nd_p := [NNode 0 126, NNull, NNull]\<rparr>,
        rt_node := (rt_node (dd_tree ddl_init ! 0))[126 := ex_linked]\<rparr>],
     dd_ring := (dd_ring ddl_init)[0 := (dd_ring ddl_init ! 0)\<lparr>rg_size := 2, rg_pos := 125,
        rg_section := (rg_section (dd_ring ddl_init ! 0))[126 := zero_section\<lparr>sc_pFront := SSec 0 127\<rparr>]\<rparr>]\<rparr>"

lemma ddl_inv_ex_overdue: "ddl_inv ex_overdue"
  using ddl_inv_init by (auto simp: ex_overdue_def ddl_inv_def nth_list_update ring_ok_def all_less_2)

lemma ddl_inv_ex_two_reads: "ddl_inv ex_two_reads"
  by (auto simp: ex_two_reads_def ddl_inv_def all_less_2 ddl_init_def tree_ok_def ring_ok_def tree_init_def
      ring_init_def zero_node_def ex_linked_def dest!: set_update_subset_insert[THEN subsetD])

theorem expired_request_faults_witness: "faults (RenewReadyArea ex_overdue)"
proof (rule expired_request_faults[OF ddl_inv_ex_overdue, of 0])
  show "overdue ex_overdue 0"
    by (auto simp: overdue_def head_section_def ex_overdue_def ddl_init_def ring_init_def zero_section_def Nowtime_def)
qed simp_all

theorem PrimRBTree_empty_faults_witness: "PrimRBTree ddl_init 0 = Fault ''write outside array''"
  by (rule PrimRBTree_empty_faults[OF ddl_inv_init]) (simp_all add: ddl_init_def tree_init_def)

lemma ex_two_reads_completes: "\<exists>s'. PrimRBTree ex_two_reads 0 = Ok s'"
  by (simp add: PrimRBTree_def pick_tree_def ddl_simps leftmost_link[of _ 126] balance_link[of _ 126] get_p_def
      set_p_def set_color_def Let_def ex_two_reads_def ddl_init_def tree_init_def ring_init_def zero_node_def
      zero_section_def ex_linked_def ex_read_def del: bnd_Ok_iff leftmost.simps BalanceAfterDeletion.simps)

theorem second_completion_faults_witness:
  "\<exists>s'. PrimRBTree ex_two_reads 0 = Ok s' \<and> faults (PrimRBTree s' 0)"
proof -
  obtain s' where "PrimRBTree ex_two_reads 0 = Ok s'" using ex_two_reads_completes by blast
  moreover have "rt_size (dd_tree ex_two_reads ! 0) \<ge> 2" by (simp add: ex_two_reads_def ddl_init_def)
  ultimately show ?thesis using second_completion_faults[OF ddl_inv_ex_two_reads] by blast
qed


end
