(* ===== verification/Virtio_Ring.thy ===== *)
theory Virtio_Ring
  imports Disk_Request
begin

text \<open>
  The virtio driver of \<open>kernel/virtio_disk.c\<close>: descriptors, available and used rings,
  \<open>virtio_disk_init\<close>, \<open>virtio_disk_rw\<close> and the completion loop of \<open>virtio_disk_intr\<close>.

  \<open>virtio_disk_rw\<close> sleeps twice, so it is two operations here, each run with \<open>vdisk_lock\<close> held:
  \<open>virtio_disk_rw_start\<close> up to the notification of the device, and \<open>virtio_disk_rw_finish\<close> from the
  test of \<open>b->disk\<close>. Each of them is \<open>Sleep\<close> where the code sleeps, with the state in which it sleeps
  being the state it started from. Addresses stored in descriptors are symbolic. The device is not
  code of the repository: it is an argument of the driver system, with what the virtio
  specification says about a completion as a named hypothesis.
\<close>

unbundle bit_operations_syntax

section \<open>Data\<close>

datatype daddr = Addr0 | AddrOps nat | AddrData bufp | AddrStatus nat

record virtq_desc =
  ds_addr :: daddr
  ds_len :: uint
  ds_flags :: uint16
  ds_next :: uint16

record virtio_blk_req =
  br_type :: uint
  br_reserved :: uint
  br_sector :: uint64

record vdisk =
  vd_desc :: "virtq_desc list"
  vd_avail_idx :: uint16
  vd_avail_ring :: "uint16 list"
  vd_used_dev :: uint16
  vd_used_ring :: "uint list"
  vd_free :: "bool list"
  vd_used_idx :: uint16
  vd_info_b :: "bufp list"
  vd_info_status :: "byte list"
  vd_ops :: "virtio_blk_req list"
  vd_busy :: "bufp \<Rightarrow> bool"

definition NUM :: nat where "NUM = 128"
definition BSIZE :: nat where "BSIZE = 1024"
definition VRING_DESC_F_NEXT :: uint16 where "VRING_DESC_F_NEXT = 1"
definition VRING_DESC_F_WRITE :: uint16 where "VRING_DESC_F_WRITE = 2"
definition VIRTIO_BLK_T_IN :: uint where "VIRTIO_BLK_T_IN = 0"
definition VIRTIO_BLK_T_OUT :: uint where "VIRTIO_BLK_T_OUT = 1"

definition zero_desc :: virtq_desc where
  "zero_desc = \<lparr>ds_addr = Addr0, ds_len = 0, ds_flags = 0, ds_next = 0\<rparr>"

definition zero_blk_req :: virtio_blk_req where
  "zero_blk_req = \<lparr>br_type = 0, br_reserved = 0, br_sector = 0\<rparr>"

section \<open>Initialisation\<close>

text \<open>
  \<open>virtio_disk_init\<close> up to the scheduler queues. The device registers are an argument \<open>mmio\<close>
  (register offset to value read); the result lists the register writes in order.
\<close>

definition clear_bit :: "nat \<Rightarrow> uint64 \<Rightarrow> uint64" where
  "clear_bit k features = features AND scast (NOT (push_bit k 1) :: uint)"

definition negotiate :: "uint64 \<Rightarrow> uint64" where
  "negotiate features =
     clear_bit 28 (clear_bit 29 (clear_bit 27 (clear_bit 12 (clear_bit 11 (clear_bit 7 (clear_bit 5 features))))))"

definition vdisk_zero :: vdisk where
  "vdisk_zero = \<lparr>vd_desc = replicate NUM zero_desc, vd_avail_idx = 0, vd_avail_ring = replicate NUM 0,
     vd_used_dev = 0, vd_used_ring = replicate NUM 0, vd_free = replicate NUM False, vd_used_idx = 0,
     vd_info_b = replicate NUM NullBuf, vd_info_status = replicate NUM 0, vd_ops = replicate NUM zero_blk_req,
     vd_busy = (\<lambda>_. False)\<rparr>"

definition virtio_disk_init :: "(nat \<Rightarrow> uint) \<Rightarrow> uint \<Rightarrow> ((nat \<times> uint) list \<times> vdisk) outcome" where
  "virtio_disk_init mmio pfn =
     (if mmio 0x000 \<noteq> 0x74726976 \<or> mmio 0x004 \<noteq> 1 \<or> mmio 0x008 \<noteq> 2 \<or> mmio 0x00c \<noteq> 0x554d4551 then
        Panic ''could not find virtio disk''
      else
        let st1 = 0 OR 1; st2 = st1 OR 2;
            features = negotiate (ucast (mmio 0x010));
            st3 = st2 OR 8; st4 = st3 OR 4;
            mx = mmio 0x034
        in if mx = 0 then Panic ''virtio disk has no queue 0''
           else if mx < of_nat NUM then Panic ''virtio disk max queue too short''
           else Ok ([(0x070, st1), (0x070, st2), (0x020, ucast features), (0x070, st3), (0x070, st4),
                     (0x028, 4096), (0x030, 0), (0x038, of_nat NUM), (0x040, pfn)],
                    vdisk_zero\<lparr>vd_free := replicate NUM True\<rparr>))"

section \<open>Descriptors\<close>

fun alloc_desc_from :: "bool list \<Rightarrow> nat \<Rightarrow> int" where
  "alloc_desc_from [] i = -1"
| "alloc_desc_from (f # fs) i = (if f then int i else alloc_desc_from fs (Suc i))"

definition alloc_desc :: "vdisk \<Rightarrow> int \<times> vdisk" where
  "alloc_desc s =
     (let i = alloc_desc_from (vd_free s) 0
      in if i < 0 then (i, s) else (i, s\<lparr>vd_free := (vd_free s)[nat i := False]\<rparr>))"

definition free_desc :: "vdisk \<Rightarrow> int \<Rightarrow> vdisk outcome" where
  "free_desc s i =
     (if i \<ge> int NUM then Panic ''free_desc 1''
      else bnd (aget (vd_free s) i) (\<lambda>f.
        if f then Panic ''free_desc 2''
        else
          bnd (aset (vd_desc s) i zero_desc) (\<lambda>ds.
          bnd (aset (vd_free s) i True) (\<lambda>fs.
          Ok (s\<lparr>vd_desc := ds, vd_free := fs\<rparr>)))))"

lemma free_desc_marks:
  "free_desc s i = Ok s' \<Longrightarrow>
     0 \<le> i \<and> i < int (length (vd_free s)) \<and> \<not> vd_free s ! nat i \<and>
     vd_free s' = (vd_free s)[nat i := True] \<and> vd_desc s' = (vd_desc s)[nat i := zero_desc]"
  by (auto simp: free_desc_def split: if_splits dest!: aget_OkD aset_OkD)

text \<open>The loop ends because every pass frees a descriptor, and freeing one twice panics.\<close>

function free_chain :: "vdisk \<Rightarrow> int \<Rightarrow> vdisk outcome" where
  "free_chain s i =
     bnd (aget (vd_desc s) i) (\<lambda>d.
     bnd (free_desc s i) (\<lambda>s'.
     if ds_flags d AND VRING_DESC_F_NEXT \<noteq> 0 then free_chain s' (uint (ds_next d)) else Ok s'))"
  by pat_completeness auto

lemma count_free_update:
  "i < length fs \<Longrightarrow> \<not> fs ! i \<Longrightarrow> length (filter Not (fs[i := True])) < length (filter Not fs)"
proof (induction fs arbitrary: i)
  case (Cons f fs)
  then show ?case by (cases i) auto
qed simp

termination free_chain
  by (relation "measure (\<lambda>(s, i). length (filter Not (vd_free s)))")
    (auto dest!: free_desc_marks simp: count_free_update)

declare free_chain.simps [simp del]

fun free_all :: "vdisk \<Rightarrow> int list \<Rightarrow> vdisk outcome" where
  "free_all s [] = Ok s"
| "free_all s (i # is) = bnd (free_desc s i) (\<lambda>s. free_all s is)"

text \<open>\<open>alloc3_desc\<close>: \<open>None\<close> is the return value -1; \<open>got\<close> are the descriptors of the earlier passes.\<close>

fun alloc3_loop :: "nat \<Rightarrow> vdisk \<Rightarrow> int list \<Rightarrow> (int list option \<times> vdisk) outcome" where
  "alloc3_loop 0 s got = Ok (Some got, s)"
| "alloc3_loop (Suc n) s got =
     (case alloc_desc s of (i, s') \<Rightarrow>
        if i < 0 then bnd (free_all s' got) (\<lambda>s''. Ok (None, s''))
        else alloc3_loop n s' (got @ [i]))"

definition alloc3_desc :: "vdisk \<Rightarrow> (int list option \<times> vdisk) outcome" where
  "alloc3_desc s = alloc3_loop 3 s []"

section \<open>Requests\<close>

definition put_desc :: "vdisk \<Rightarrow> int \<Rightarrow> virtq_desc \<Rightarrow> vdisk outcome" where
  "put_desc s i d = bnd (aset (vd_desc s) i d) (\<lambda>ds. Ok (s\<lparr>vd_desc := ds\<rparr>))"

text \<open>Filling in the three descriptors, the command header and the book-keeping of a request.\<close>

definition format_request :: "vdisk \<Rightarrow> bufp \<Rightarrow> bool \<Rightarrow> uint64 \<Rightarrow> int \<Rightarrow> int \<Rightarrow> int \<Rightarrow> vdisk outcome" where
  "format_request s b write sector i0 i1 i2 =
     bnd (aset (vd_ops s) i0 \<lparr>br_type = (if write then VIRTIO_BLK_T_OUT else VIRTIO_BLK_T_IN), br_reserved = 0,
            br_sector = sector\<rparr>) (\<lambda>ops.
     bnd (put_desc (s\<lparr>vd_ops := ops\<rparr>) i0
            \<lparr>ds_addr = AddrOps (nat i0), ds_len = 16, ds_flags = VRING_DESC_F_NEXT, ds_next = word_of_int i1\<rparr>) (\<lambda>s.
     bnd (put_desc s i1
            \<lparr>ds_addr = AddrData b, ds_len = of_nat BSIZE,
              ds_flags = (if write then 0 else VRING_DESC_F_WRITE) OR VRING_DESC_F_NEXT, ds_next = word_of_int i2\<rparr>) (\<lambda>s.
     bnd (aset (vd_info_status s) i0 0xff) (\<lambda>st.
     bnd (put_desc (s\<lparr>vd_info_status := st\<rparr>) i2
            \<lparr>ds_addr = AddrStatus (nat i0), ds_len = 1, ds_flags = VRING_DESC_F_WRITE, ds_next = 0\<rparr>) (\<lambda>s.
     bnd (aset (vd_info_b s) i0 b) (\<lambda>ib.
     Ok (s\<lparr>vd_info_b := ib, vd_busy := (vd_busy s)(b := True)\<rparr>)))))))"

definition publish :: "vdisk \<Rightarrow> int \<Rightarrow> vdisk outcome" where
  "publish s i0 =
     bnd (aset (vd_avail_ring s) (uint (vd_avail_idx s) mod int NUM) (word_of_int i0)) (\<lambda>r.
     Ok (s\<lparr>vd_avail_ring := r, vd_avail_idx := vd_avail_idx s + 1\<rparr>))"

definition virtio_disk_rw_start :: "blocknos \<Rightarrow> vdisk \<Rightarrow> bufp \<Rightarrow> bool \<Rightarrow> (int list \<times> vdisk) outcome" where
  "virtio_disk_rw_start m s b write =
     (case m b of None \<Rightarrow> Fault ''null buf''
      | Some blockno \<Rightarrow>
          let sector = ucast (blockno * 2) :: uint64 in
          bnd (alloc3_desc s) (\<lambda>(idx, s).
          case idx of
            None \<Rightarrow> Sleep Chan_desc
          | Some is \<Rightarrow>
              bnd (aget is 0) (\<lambda>i0. bnd (aget is 1) (\<lambda>i1. bnd (aget is 2) (\<lambda>i2.
              bnd (format_request s b write sector i0 i1 i2) (\<lambda>s.
              bnd (publish s i0) (\<lambda>s. Ok (is, s))))))))"

definition buf_chan :: "bufp \<Rightarrow> chan" where
  "buf_chan b = Chan_buf (case b of CacheBuf i \<Rightarrow> Suc (Suc i) | TempBuf \<Rightarrow> 1 | NullBuf \<Rightarrow> 0)"

definition virtio_disk_rw_finish :: "vdisk \<Rightarrow> bufp \<Rightarrow> int \<Rightarrow> vdisk outcome" where
  "virtio_disk_rw_finish s b i0 =
     (if vd_busy s b then Sleep (buf_chan b)
      else
        bnd (aset (vd_info_b s) i0 NullBuf) (\<lambda>ib.
        free_chain (s\<lparr>vd_info_b := ib\<rparr>) i0))"

section \<open>Completion interrupt\<close>

text \<open>The loop of \<open>virtio_disk_intr\<close>. The wait ends because the 16-bit distance to the device's index shrinks.\<close>

function intr_loop :: "vdisk \<Rightarrow> vdisk outcome" where
  "intr_loop s =
     (if vd_used_idx s \<noteq> vd_used_dev s then
        bnd (aget (vd_used_ring s) (uint (vd_used_idx s) mod int NUM)) (\<lambda>e.
        bnd (aget (vd_info_status s) (sint e)) (\<lambda>st.
        if st \<noteq> 0 then Panic ''virtio_disk_intr status''
        else
          bnd (aget (vd_info_b s) (sint e)) (\<lambda>b.
          if b = NullBuf then Fault ''null buf''
          else intr_loop (s\<lparr>vd_busy := (vd_busy s)(b := False), vd_used_idx := vd_used_idx s + 1\<rparr>))))
      else Ok s)"
  by pat_completeness auto

lemma distance_shrinks:
  fixes a b :: uint16
  assumes "a \<noteq> b"
  shows "unat (b - (a + 1)) < unat (b - a)"
proof -
  have "b - a \<noteq> 0" using assms by simp
  then have "unat (b - a - 1) = unat (b - a) - 1" "0 < unat (b - a)"
    by (simp_all add: unat_minus_one unat_gt_0)
  then show ?thesis by (simp add: algebra_simps)
qed

termination intr_loop
  by (relation "measure (\<lambda>s. unat (vd_used_dev s - vd_used_idx s))") (auto simp: distance_shrinks)

declare intr_loop.simps [simp del]

section \<open>Allocation is all or nothing\<close>

lemma alloc_desc_from_spec:
  "(alloc_desc_from fs k = -1 \<and> True \<notin> set fs) \<or>
   (\<exists>j<length fs. alloc_desc_from fs k = int (k + j) \<and> fs ! j \<and> (\<forall>l<j. \<not> fs ! l))"
proof (induction fs arbitrary: k)
  case (Cons f fs)
  show ?case
  proof (cases f)
    case False
    from Cons[of "Suc k"] show ?thesis
    proof
      assume "\<exists>j<length fs. alloc_desc_from fs (Suc k) = int (Suc k + j) \<and> fs ! j \<and> (\<forall>l<j. \<not> fs ! l)"
      then obtain j where "j < length fs" "alloc_desc_from fs (Suc k) = int (Suc k + j)" "fs ! j" "\<forall>l<j. \<not> fs ! l"
        by blast
      then show ?thesis using False by (intro disjI2 exI[of _ "Suc j"]) (auto simp: less_Suc_eq_0_disj)
    qed (use False in simp)
  qed auto
qed simp

lemma alloc_desc_cases:
  obtains (none) "alloc_desc s = (-1, s)" "True \<notin> set (vd_free s)"
  | (some) i where "i < length (vd_free s)" "vd_free s ! i" "alloc_desc s = (int i, s\<lparr>vd_free := (vd_free s)[i := False]\<rparr>)"
  using alloc_desc_from_spec[of "vd_free s" 0] by (auto simp: alloc_desc_def)

definition free_count :: "vdisk \<Rightarrow> nat" where
  "free_count s = length (filter id (vd_free s))"

lemma free_count_0: "free_count s = 0 \<longleftrightarrow> True \<notin> set (vd_free s)"
  by (auto simp: free_count_def filter_empty_conv)

lemma filter_id_update:
  "i < length fs \<Longrightarrow> fs ! i \<Longrightarrow> length (filter id fs) = Suc (length (filter id (fs[i := False])))"
proof (induction fs arbitrary: i)
  case (Cons f fs)
  then show ?case by (cases i) auto
qed simp

lemma free_count_take:
  assumes "i < length (vd_free s)" "vd_free s ! i"
  shows "free_count s = Suc (free_count (s\<lparr>vd_free := (vd_free s)[i := False]\<rparr>))"
  using filter_id_update[OF assms] by (simp add: free_count_def)

lemma alloc_desc_take:
  assumes "0 < free_count s"
  obtains i where "i < length (vd_free s)" "vd_free s ! i" "alloc_desc s = (int i, s\<lparr>vd_free := (vd_free s)[i := False]\<rparr>)"
    "free_count (s\<lparr>vd_free := (vd_free s)[i := False]\<rparr>) = free_count s - 1"
proof (cases rule: alloc_desc_cases[of s])
  case none
  then show thesis using assms free_count_0[of s] by simp
next
  case (some i)
  then show thesis using that free_count_take[OF some(1,2)] by simp
qed

text \<open>Giving back the descriptors of earlier passes restores the free map.\<close>

lemma free_desc_ok:
  assumes "length (vd_free s) = NUM" "length (vd_desc s) = NUM" "i < NUM" "\<not> vd_free s ! i"
  shows "free_desc s (int i) = Ok (s\<lparr>vd_desc := (vd_desc s)[i := zero_desc], vd_free := (vd_free s)[i := True]\<rparr>)"
  using assms by (simp add: free_desc_def)

lemma alloc3_none:
  assumes "length (vd_free s) = NUM" "length (vd_desc s) = NUM" "free_count s < 3"
  shows "\<exists>ds. alloc3_desc s = Ok (None, s\<lparr>vd_desc := ds\<rparr>) \<and> length ds = NUM \<and>
    (\<forall>i<NUM. \<not> vd_free s ! i \<longrightarrow> ds ! i = vd_desc s ! i)"
proof -
  have empty: "alloc_desc s' = (-1, s')" if "free_count s' = 0" for s'
    using that free_count_0[of s'] by (cases rule: alloc_desc_cases[of s']) (auto simp: in_set_conv_nth)
  consider "free_count s = 0" | "free_count s = 1" | "free_count s = 2" using assms(3) by linarith
  then show ?thesis
  proof cases
    case 1
    then show ?thesis using empty[OF 1] assms(2)
      by (auto simp: alloc3_desc_def numeral_3_eq_3 intro!: exI[of _ "vd_desc s"])
  next
    case 2
    then obtain i where i: "i < length (vd_free s)" "vd_free s ! i"
        "alloc_desc s = (int i, s\<lparr>vd_free := (vd_free s)[i := False]\<rparr>)" "free_count (s\<lparr>vd_free := (vd_free s)[i := False]\<rparr>) = 0"
      using alloc_desc_take[of s] by auto
    have "(vd_free s)[i := True] = vd_free s" using i(2) by (metis list_update_id)
    then show ?thesis using i empty[OF i(4)] assms free_desc_ok[of "s\<lparr>vd_free := (vd_free s)[i := False]\<rparr>" i]
      by (auto simp: alloc3_desc_def numeral_3_eq_3 nth_list_update intro!: exI[of _ "(vd_desc s)[i := zero_desc]"])
  next
    case 3
    then obtain i where i: "i < length (vd_free s)" "vd_free s ! i"
        "alloc_desc s = (int i, s\<lparr>vd_free := (vd_free s)[i := False]\<rparr>)" "free_count (s\<lparr>vd_free := (vd_free s)[i := False]\<rparr>) = 1"
      using alloc_desc_take[of s] by auto
    define s1 where "s1 = s\<lparr>vd_free := (vd_free s)[i := False]\<rparr>"
    obtain j where j: "j < length (vd_free s1)" "vd_free s1 ! j"
        "alloc_desc s1 = (int j, s1\<lparr>vd_free := (vd_free s1)[j := False]\<rparr>)" "free_count (s1\<lparr>vd_free := (vd_free s1)[j := False]\<rparr>) = 0"
      using alloc_desc_take[of s1] i(4) by (auto simp: s1_def)
    have ij: "i \<noteq> j" "vd_free s ! j" using i(1) j(2) by (auto simp: s1_def nth_list_update split: if_splits)
    have restored: "(vd_free s)[i := False, j := False, i := True, j := True] = vd_free s"
      using ij i(1,2) j(1) by (intro nth_equalityI) (auto simp: nth_list_update s1_def)
    define s2 where "s2 = s1\<lparr>vd_free := (vd_free s1)[j := False]\<rparr>"
    define s3 where "s3 = s2\<lparr>vd_desc := (vd_desc s2)[i := zero_desc], vd_free := (vd_free s2)[i := True]\<rparr>"
    have "free_desc s2 (int i) = Ok s3"
      unfolding s3_def using assms i(1) ij by (intro free_desc_ok) (auto simp: s2_def s1_def nth_list_update)
    moreover have "free_desc s3 (int j) = Ok (s3\<lparr>vd_desc := (vd_desc s3)[j := zero_desc], vd_free := (vd_free s3)[j := True]\<rparr>)"
      using assms j(1) ij by (intro free_desc_ok) (auto simp: s3_def s2_def s1_def nth_list_update)
    ultimately have "alloc3_desc s = Ok (None, s\<lparr>vd_desc := (vd_desc s)[i := zero_desc, j := zero_desc]\<rparr>)"
      using i(3) j(3) empty[OF j(4)] restored
      by (simp add: alloc3_desc_def numeral_3_eq_3 s1_def[symmetric] s2_def[symmetric])
        (simp add: s3_def s2_def s1_def)
    then show ?thesis using assms(1,2) i(1,2) j(1) ij
      by (auto simp: nth_list_update s1_def intro!: exI[of _ "(vd_desc s)[i := zero_desc, j := zero_desc]"])
  qed
qed

lemma alloc3_some:
  assumes "free_count s \<ge> 3"
  obtains i0 i1 i2 where "distinct [i0, i1, i2]"
    "\<forall>i\<in>{i0, i1, i2}. i < length (vd_free s) \<and> vd_free s ! i"
    "alloc3_desc s = Ok (Some [int i0, int i1, int i2], s\<lparr>vd_free := (vd_free s)[i0 := False, i1 := False, i2 := False]\<rparr>)"
proof -
  obtain i where i: "i < length (vd_free s)" "vd_free s ! i"
      "alloc_desc s = (int i, s\<lparr>vd_free := (vd_free s)[i := False]\<rparr>)" "free_count (s\<lparr>vd_free := (vd_free s)[i := False]\<rparr>) = free_count s - 1"
    using alloc_desc_take[of s] assms by auto
  define s1 where "s1 = s\<lparr>vd_free := (vd_free s)[i := False]\<rparr>"
  obtain j where j: "j < length (vd_free s1)" "vd_free s1 ! j"
      "alloc_desc s1 = (int j, s1\<lparr>vd_free := (vd_free s1)[j := False]\<rparr>)" "free_count (s1\<lparr>vd_free := (vd_free s1)[j := False]\<rparr>) = free_count s1 - 1"
    using alloc_desc_take[of s1] i(4) assms by (auto simp: s1_def)
  define s2 where "s2 = s1\<lparr>vd_free := (vd_free s1)[j := False]\<rparr>"
  obtain k where k: "k < length (vd_free s2)" "vd_free s2 ! k"
      "alloc_desc s2 = (int k, s2\<lparr>vd_free := (vd_free s2)[k := False]\<rparr>)"
    using alloc_desc_take[of s2] i(4) j(4) assms by (auto simp: s1_def s2_def)
  show thesis
  proof (rule that[of i j k])
    show "distinct [i, j, k]" "\<forall>x\<in>{i, j, k}. x < length (vd_free s) \<and> vd_free s ! x"
      using i(1,2) j(1,2) k(1,2) by (auto simp: s1_def s2_def nth_list_update split: if_splits)
    show "alloc3_desc s = Ok (Some [int i, int j, int k], s\<lparr>vd_free := (vd_free s)[i := False, j := False, k := False]\<rparr>)"
      using i(3) j(3) k(3)
      by (simp add: alloc3_desc_def numeral_3_eq_3 s1_def[symmetric] s2_def[symmetric]) (simp add: s2_def s1_def)
  qed
qed

section \<open>The driver as a system of steps\<close>

text \<open>
  The threads inside \<open>virtio_disk_rw\<close>, the device and the interrupt handler interleave. A waiting
  request is its buffer and its three descriptors; \<open>dr_sent\<close> and \<open>dr_done\<close> are the chain heads the
  device still has and those it has put on the used ring but the handler has not seen.
\<close>

type_synonym waiting = "bufp \<times> nat \<times> nat \<times> nat"

record driver =
  dr_disk :: vdisk
  dr_wait :: "waiting list"
  dr_sent :: "nat list"
  dr_done :: "nat list"

text \<open>Completing the chain with head \<open>i\<close>: status 0, the head on the used ring, the index incremented.\<close>

definition device_completes :: "(nat \<Rightarrow> vdisk \<Rightarrow> vdisk) \<Rightarrow> bool" where
  "device_completes dev \<longleftrightarrow> (\<forall>i s. dev i s = s\<lparr>vd_info_status := (vd_info_status s)[i := 0],
     vd_used_ring := (vd_used_ring s)[unat (vd_used_dev s) mod NUM := of_nat i],
     vd_used_dev := vd_used_dev s + 1\<rparr>)"

inductive driver_step :: "blocknos \<Rightarrow> (nat \<Rightarrow> vdisk \<Rightarrow> vdisk) \<Rightarrow> driver \<Rightarrow> driver \<Rightarrow> bool" for m dev where
  start: "b \<notin> fst ` set (dr_wait d) \<Longrightarrow> b \<noteq> NullBuf \<Longrightarrow>
      virtio_disk_rw_start m (dr_disk d) b w = Ok ([int i0, int i1, int i2], s) \<Longrightarrow>
      driver_step m dev d (d\<lparr>dr_disk := s, dr_wait := (b, i0, i1, i2) # dr_wait d, dr_sent := dr_sent d @ [i0]\<rparr>)"
| complete: "i \<in> set (dr_sent d) \<Longrightarrow>
      driver_step m dev d (d\<lparr>dr_disk := dev i (dr_disk d), dr_sent := remove1 i (dr_sent d), dr_done := dr_done d @ [i]\<rparr>)"
| intr: "intr_loop (dr_disk d) = Ok s \<Longrightarrow> driver_step m dev d (d\<lparr>dr_disk := s, dr_done := []\<rparr>)"
| finish: "(b, i0, i1, i2) \<in> set (dr_wait d) \<Longrightarrow> virtio_disk_rw_finish (dr_disk d) b (int i0) = Ok s \<Longrightarrow>
      driver_step m dev d (d\<lparr>dr_disk := s, dr_wait := remove1 (b, i0, i1, i2) (dr_wait d)\<rparr>)"

definition driver_init :: driver where
  "driver_init = \<lparr>dr_disk = vdisk_zero\<lparr>vd_free := replicate NUM True\<rparr>, dr_wait = [], dr_sent = [], dr_done = []\<rparr>"

inductive driver_reach :: "blocknos \<Rightarrow> (nat \<Rightarrow> vdisk \<Rightarrow> vdisk) \<Rightarrow> driver \<Rightarrow> bool" for m dev where
  init: "driver_reach m dev driver_init"
| step: "driver_reach m dev d \<Longrightarrow> driver_step m dev d d' \<Longrightarrow> driver_reach m dev d'"

section \<open>Invariant of the driver\<close>

definition vdisk_shape :: "vdisk \<Rightarrow> bool" where
  "vdisk_shape s \<longleftrightarrow> length (vd_desc s) = NUM \<and> length (vd_avail_ring s) = NUM \<and> length (vd_used_ring s) = NUM \<and>
     length (vd_free s) = NUM \<and> length (vd_info_b s) = NUM \<and> length (vd_info_status s) = NUM \<and>
     length (vd_ops s) = NUM"

fun descs_of :: "waiting \<Rightarrow> nat list" where
  "descs_of (b, i0, i1, i2) = [i0, i1, i2]"

fun head_of :: "waiting \<Rightarrow> nat" where
  "head_of (b, i0, i1, i2) = i0"

text \<open>The chain the device finds for a waiting request, and the handler's record of its buffer.\<close>

fun chain_ok :: "vdisk \<Rightarrow> waiting \<Rightarrow> bool" where
  "chain_ok s (b, i0, i1, i2) \<longleftrightarrow>
     ds_flags (vd_desc s ! i0) AND VRING_DESC_F_NEXT \<noteq> 0 \<and> ds_next (vd_desc s ! i0) = of_nat i1 \<and>
     ds_flags (vd_desc s ! i1) AND VRING_DESC_F_NEXT \<noteq> 0 \<and> ds_next (vd_desc s ! i1) = of_nat i2 \<and>
     ds_flags (vd_desc s ! i2) AND VRING_DESC_F_NEXT = 0 \<and>
     ds_addr (vd_desc s ! i0) = AddrOps i0 \<and> ds_addr (vd_desc s ! i1) = AddrData b \<and>
     ds_addr (vd_desc s ! i2) = AddrStatus i0 \<and> vd_info_b s ! i0 = b \<and> b \<noteq> NullBuf"

definition used_ok :: "vdisk \<Rightarrow> nat list \<Rightarrow> bool" where
  "used_ok s don \<longleftrightarrow> vd_used_dev s = vd_used_idx s + of_nat (length don) \<and> length don \<le> NUM \<and>
     (\<forall>k<length don. vd_used_ring s ! ((unat (vd_used_idx s) + k) mod NUM) = of_nat (don ! k)) \<and>
     (\<forall>i\<in>set don. vd_info_status s ! i = 0)"

definition driver_inv :: "driver \<Rightarrow> bool" where
  "driver_inv d \<longleftrightarrow>
     (let s = dr_disk d; ws = dr_wait d in
      vdisk_shape s \<and> distinct (map fst ws) \<and> distinct (concat (map descs_of ws)) \<and>
      set (concat (map descs_of ws)) = {i. i < NUM \<and> \<not> vd_free s ! i} \<and>
      (\<forall>w\<in>set ws. chain_ok s w) \<and>
      distinct (dr_sent d @ dr_done d) \<and>
      set (dr_sent d @ dr_done d) = head_of ` {w\<in>set ws. vd_busy s (fst w)} \<and>
      used_ok s (dr_done d))"

lemma driver_inv_init: "driver_inv driver_init"
  by (auto simp: driver_inv_def driver_init_def vdisk_shape_def vdisk_zero_def used_ok_def NUM_def)

section \<open>Starting a request\<close>

definition desc_head :: "nat \<Rightarrow> nat \<Rightarrow> virtq_desc" where
  "desc_head i0 i1 = \<lparr>ds_addr = AddrOps i0, ds_len = 16, ds_flags = VRING_DESC_F_NEXT, ds_next = of_nat i1\<rparr>"

definition desc_data :: "bufp \<Rightarrow> bool \<Rightarrow> nat \<Rightarrow> virtq_desc" where
  "desc_data b w i2 = \<lparr>ds_addr = AddrData b, ds_len = 1024,
     ds_flags = (if w then VRING_DESC_F_NEXT else VRING_DESC_F_WRITE OR VRING_DESC_F_NEXT), ds_next = of_nat i2\<rparr>"

definition desc_status :: "nat \<Rightarrow> virtq_desc" where
  "desc_status i0 = \<lparr>ds_addr = AddrStatus i0, ds_len = 1, ds_flags = VRING_DESC_F_WRITE, ds_next = 0\<rparr>"

text \<open>The state after request \<open>(b, w)\<close> has been formatted in descriptors \<open>i0\<close>, \<open>i1\<close>, \<open>i2\<close> and published.\<close>

definition submitted :: "vdisk \<Rightarrow> bufp \<Rightarrow> bool \<Rightarrow> uint64 \<Rightarrow> nat \<Rightarrow> nat \<Rightarrow> nat \<Rightarrow> vdisk" where
  "submitted s b w sector i0 i1 i2 = s\<lparr>
     vd_free := (vd_free s)[i0 := False, i1 := False, i2 := False],
     vd_ops := (vd_ops s)[i0 := \<lparr>br_type = (if w then VIRTIO_BLK_T_OUT else VIRTIO_BLK_T_IN), br_reserved = 0,
       br_sector = sector\<rparr>],
     vd_info_status := (vd_info_status s)[i0 := 0xff],
     vd_desc := (vd_desc s)[i0 := desc_head i0 i1, i1 := desc_data b w i2, i2 := desc_status i0],
     vd_info_b := (vd_info_b s)[i0 := b], vd_busy := (vd_busy s)(b := True),
     vd_avail_ring := (vd_avail_ring s)[unat (vd_avail_idx s) mod NUM := of_nat i0],
     vd_avail_idx := vd_avail_idx s + 1\<rparr>"

lemma uint_mod_NUM: "uint (x :: uint16) mod int NUM = int (unat x mod NUM)"
  unfolding uint_nat zmod_int ..

lemma format_publish:
  assumes sh: "vdisk_shape s" and lt: "i0 < NUM" "i1 < NUM" "i2 < NUM" and dis: "distinct [i0, i1, i2]"
  shows "bnd (format_request (s\<lparr>vd_free := (vd_free s)[i0 := False, i1 := False, i2 := False]\<rparr>) b w sector
      (int i0) (int i1) (int i2)) (\<lambda>s. publish s (int i0)) = Ok (submitted s b w sector i0 i1 i2)"
proof -
  have "unat (vd_avail_idx s) mod NUM < NUM" by (simp add: NUM_def)
  then show ?thesis using assms
    by (simp add: format_request_def publish_def put_desc_def vdisk_shape_def uint_mod_NUM submitted_def
        desc_head_def desc_data_def desc_status_def BSIZE_def)
qed

lemma rw_start_cases:
  assumes sh: "vdisk_shape s" and m: "m b = Some k"
  obtains (wait) "free_count s < 3" "virtio_disk_rw_start m s b w = Sleep Chan_desc"
  | (go) i0 i1 i2 where "free_count s \<ge> 3" "distinct [i0, i1, i2]" "\<forall>i\<in>{i0, i1, i2}. i < NUM \<and> vd_free s ! i"
    "virtio_disk_rw_start m s b w = Ok ([int i0, int i1, int i2], submitted s b w (ucast (k * 2)) i0 i1 i2)"
proof (cases "free_count s < 3")
  case True
  then obtain ds where "alloc3_desc s = Ok (None, s\<lparr>vd_desc := ds\<rparr>)"
    using alloc3_none[of s] sh by (auto simp: vdisk_shape_def)
  then have "virtio_disk_rw_start m s b w = Sleep Chan_desc" using m by (simp add: virtio_disk_rw_start_def)
  then show thesis using wait True by blast
next
  case False
  then obtain i0 i1 i2 where i: "distinct [i0, i1, i2]" "\<forall>i\<in>{i0, i1, i2}. i < length (vd_free s) \<and> vd_free s ! i"
      "alloc3_desc s = Ok (Some [int i0, int i1, int i2], s\<lparr>vd_free := (vd_free s)[i0 := False, i1 := False, i2 := False]\<rparr>)"
    using alloc3_some[of s] by (auto simp: not_less)
  have "bnd (format_request (s\<lparr>vd_free := (vd_free s)[i0 := False, i1 := False, i2 := False]\<rparr>) b w (ucast (k * 2))
      (int i0) (int i1) (int i2)) (\<lambda>s. bnd (publish s (int i0)) (\<lambda>s. Ok ([int i0, int i1, int i2], s)))
      = Ok ([int i0, int i1, int i2], submitted s b w (ucast (k * 2)) i0 i1 i2)"
    using format_publish[OF sh _ _ _ i(1)] i(2) sh
    by (subst bnd_assoc[symmetric]) (simp add: vdisk_shape_def del: bnd_Ok_iff)
  then have "virtio_disk_rw_start m s b w = Ok ([int i0, int i1, int i2], submitted s b w (ucast (k * 2)) i0 i1 i2)"
    using m i(3) by (simp add: virtio_disk_rw_start_def del: bnd_Ok_iff)
  then show thesis using go i(1,2) False sh by (simp add: vdisk_shape_def)
qed

lemma rw_start_OkD:
  assumes sh: "vdisk_shape s" and st: "virtio_disk_rw_start m s b w = Ok ([int i0, int i1, int i2], s')"
  shows "\<exists>k. m b = Some k \<and> distinct [i0, i1, i2] \<and> (\<forall>i\<in>{i0, i1, i2}. i < NUM \<and> vd_free s ! i) \<and>
    s' = submitted s b w (ucast (k * 2)) i0 i1 i2"
proof -
  obtain k where m: "m b = Some k" using st by (auto simp: virtio_disk_rw_start_def split: option.splits)
  show ?thesis
  proof (cases rule: rw_start_cases[of s m b k w, OF sh m])
    case (2 j0 j1 j2)
    then have "j0 = i0" "j1 = i1" "j2 = i2" "s' = submitted s b w (ucast (k * 2)) i0 i1 i2" using st by auto
    then show ?thesis using 2 m by blast
  qed (use st in auto)
qed

lemma next_flags:
  "VRING_DESC_F_NEXT AND VRING_DESC_F_NEXT \<noteq> 0"
  "(VRING_DESC_F_WRITE OR VRING_DESC_F_NEXT) AND VRING_DESC_F_NEXT \<noteq> 0"
  "VRING_DESC_F_WRITE AND VRING_DESC_F_NEXT = 0"
  by (simp_all add: VRING_DESC_F_NEXT_def VRING_DESC_F_WRITE_def)

lemma chain_ok_submitted:
  assumes "vdisk_shape s" "i0 < NUM" "i1 < NUM" "i2 < NUM" "distinct [i0, i1, i2]" "b \<noteq> NullBuf"
  shows "chain_ok (submitted s b w sector i0 i1 i2) (b, i0, i1, i2)"
  using assms next_flags
  by (simp add: submitted_def vdisk_shape_def nth_list_update desc_head_def desc_data_def desc_status_def)

lemma chain_ok_other:
  assumes "chain_ok s w" "\<forall>i\<in>set (descs_of w). vd_desc s' ! i = vd_desc s ! i"
    "vd_info_b s' ! head_of w = vd_info_b s ! head_of w"
  shows "chain_ok s' w"
  using assms by (cases w) auto

lemma submitted_desc_other:
  "i \<noteq> i0 \<Longrightarrow> i \<noteq> i1 \<Longrightarrow> i \<noteq> i2 \<Longrightarrow> vd_desc (submitted s b w sector i0 i1 i2) ! i = vd_desc s ! i"
  by (simp add: submitted_def)

lemma driver_invD:
  assumes "driver_inv d"
  shows "vdisk_shape (dr_disk d)" "distinct (map fst (dr_wait d))" "distinct (concat (map descs_of (dr_wait d)))"
    "set (concat (map descs_of (dr_wait d))) = {i. i < NUM \<and> \<not> vd_free (dr_disk d) ! i}"
    "\<And>w. w \<in> set (dr_wait d) \<Longrightarrow> chain_ok (dr_disk d) w"
    "distinct (dr_sent d @ dr_done d)"
    "set (dr_sent d @ dr_done d) = head_of ` {w\<in>set (dr_wait d). vd_busy (dr_disk d) (fst w)}"
    "used_ok (dr_disk d) (dr_done d)"
  using assms unfolding driver_inv_def Let_def by blast+

lemma driver_invI:
  assumes "vdisk_shape (dr_disk d)" "distinct (map fst (dr_wait d))" "distinct (concat (map descs_of (dr_wait d)))"
    "set (concat (map descs_of (dr_wait d))) = {i. i < NUM \<and> \<not> vd_free (dr_disk d) ! i}"
    "\<And>w. w \<in> set (dr_wait d) \<Longrightarrow> chain_ok (dr_disk d) w"
    "distinct (dr_sent d @ dr_done d)"
    "set (dr_sent d @ dr_done d) = head_of ` {w\<in>set (dr_wait d). vd_busy (dr_disk d) (fst w)}"
    "used_ok (dr_disk d) (dr_done d)"
  shows "driver_inv d"
  using assms unfolding driver_inv_def Let_def by blast

lemma head_in_own: "head_of w \<in> set (descs_of w)"
  by (cases w) simp

lemma head_in_descs: "w \<in> set ws \<Longrightarrow> head_of w \<in> set (concat (map descs_of ws))"
  by (cases w) force

lemma driver_inv_start:
  assumes inv: "driver_inv d" and b: "b \<notin> fst ` set (dr_wait d)" "b \<noteq> NullBuf"
    and st: "virtio_disk_rw_start m (dr_disk d) b w = Ok ([int i0, int i1, int i2], s)"
  shows "driver_inv (d\<lparr>dr_disk := s, dr_wait := (b, i0, i1, i2) # dr_wait d, dr_sent := dr_sent d @ [i0]\<rparr>)"
proof -
  note D = driver_invD[OF inv]
  note sh = D(1)
  from rw_start_OkD[OF sh st] obtain k where k: "m b = Some k \<and> distinct [i0, i1, i2] \<and>
      (\<forall>i\<in>{i0, i1, i2}. i < NUM \<and> vd_free (dr_disk d) ! i) \<and> s = submitted (dr_disk d) b w (ucast (k * 2)) i0 i1 i2" ..
  then have i: "distinct [i0, i1, i2]" and lt: "i0 < NUM" "i1 < NUM" "i2 < NUM"
    and fr: "vd_free (dr_disk d) ! i0" "vd_free (dr_disk d) ! i1" "vd_free (dr_disk d) ! i2"
    and s: "s = submitted (dr_disk d) b w (ucast (k * 2)) i0 i1 i2"
    by simp_all
  have used: "set (concat (map descs_of (dr_wait d))) \<inter> {i0, i1, i2} = {}"
    unfolding D(4) using fr by auto
  have other: "chain_ok s w'" if "w' \<in> set (dr_wait d)" for w'
  proof -
    have "set (descs_of w') \<inter> {i0, i1, i2} = {}" using used that by auto
    moreover have "head_of w' \<in> set (descs_of w')" by (cases w') simp
    ultimately have "\<forall>i\<in>set (descs_of w'). vd_desc s ! i = vd_desc (dr_disk d) ! i" "head_of w' \<noteq> i0"
      unfolding s by (auto intro: submitted_desc_other)
    then show ?thesis using chain_ok_other[OF D(5)[OF that], of s] by (simp add: s submitted_def)
  qed
  have free: "{i. i < NUM \<and> \<not> vd_free s ! i} = {i0, i1, i2} \<union> {i. i < NUM \<and> \<not> vd_free (dr_disk d) ! i}"
  proof -
    have "vd_free s ! i \<longleftrightarrow> vd_free (dr_disk d) ! i \<and> i \<noteq> i0 \<and> i \<noteq> i1 \<and> i \<noteq> i2" if "i < NUM" for i
      using lt sh that by (simp add: s submitted_def vdisk_shape_def nth_list_update)
    then show ?thesis using lt by blast
  qed
  have busy: "vd_busy s (fst w') = vd_busy (dr_disk d) (fst w')" if "w' \<in> set (dr_wait d)" for w'
    using b(1) that by (auto simp: s submitted_def)
  have heads: "i0 \<notin> set (dr_sent d @ dr_done d)"
  proof
    assume "i0 \<in> set (dr_sent d @ dr_done d)"
    then obtain w' where "w' \<in> set (dr_wait d)" "i0 = head_of w'" unfolding D(7) by blast
    then show False using head_in_descs[of w' "dr_wait d"] used by blast
  qed
  have st0: "vd_info_status s ! i = 0" if "i \<in> set (dr_done d)" for i
  proof -
    have "i0 \<noteq> i" using heads that by auto
    then have "vd_info_status s ! i = vd_info_status (dr_disk d) ! i" by (simp add: s submitted_def)
    then show ?thesis using D(8) that by (simp add: used_ok_def)
  qed
  have same: "vd_used_dev s = vd_used_dev (dr_disk d)" "vd_used_idx s = vd_used_idx (dr_disk d)"
      "vd_used_ring s = vd_used_ring (dr_disk d)"
    by (simp_all add: s submitted_def)
  have used_s: "used_ok s (dr_done d)"
    using D(8) st0 unfolding used_ok_def same by blast
  have shape_s: "vdisk_shape s" using sh by (simp add: s submitted_def vdisk_shape_def)
  have "vd_busy s b" by (simp add: s submitted_def)
  then have "{w \<in> set ((b, i0, i1, i2) # dr_wait d). vd_busy s (fst w)} =
      insert (b, i0, i1, i2) {w \<in> set (dr_wait d). vd_busy (dr_disk d) (fst w)}"
    using busy by auto
  then have heads_s: "head_of ` {w \<in> set ((b, i0, i1, i2) # dr_wait d). vd_busy s (fst w)} =
      insert i0 (set (dr_sent d @ dr_done d))"
    unfolding D(7) by simp
  show ?thesis
  proof (rule driver_invI, goal_cases)
    case 2
    show ?case using D(2) b(1) by simp
  next
    case 3
    show ?case using D(3) used i by auto
  next
    case 4
    show ?case using free D(4) by simp
  next
    case (5 w')
    then have "w' = (b, i0, i1, i2) \<or> w' \<in> set (dr_wait d)" by simp
    then have "chain_ok s w'" using other[of w'] chain_ok_submitted[OF sh lt i b(2), of w "ucast (k * 2)"] unfolding s
      by (elim disjE) (simp_all only: not_False_eq_True)
    then show ?case by simp
  next
    case 6
    show ?case using D(6) heads by auto
  next
    case 7
    show ?case using heads_s by simp
  qed (simp_all add: used_s shape_s)
qed

section \<open>Completion\<close>

lemma uint16_of_nat: "i < NUM \<Longrightarrow> uint (of_nat i :: uint16) = int i"
  by (simp add: NUM_def unsigned_of_nat take_bit_nat_eq_self)

lemma sint_of_nat: "i < NUM \<Longrightarrow> sint (of_nat i :: uint) = int i"
proof -
  assume "i < NUM"
  then have "signed_take_bit 31 (int i) = int i" by (intro signed_take_bit_int_eq_self) (auto simp: NUM_def)
  then show ?thesis by (simp add: sint_uint unsigned_of_nat take_bit_of_nat[symmetric] signed_take_bit_take_bit)
qed

lemma unat_add_mod_NUM: "unat (x + of_nat n :: uint16) mod NUM = (unat x + n) mod NUM"
proof -
  have "unat (x + of_nat n) = (unat x + n) mod 65536"
    by (simp add: unat_word_ariths unsigned_of_nat take_bit_eq_mod mod_add_right_eq)
  moreover have "(128 :: nat) dvd 65536" by simp
  ultimately show ?thesis by (simp add: NUM_def mod_mod_cancel)
qed

lemma slots_differ: "k < n \<Longrightarrow> n < NUM \<Longrightarrow> (u + k) mod NUM \<noteq> (u + n) mod NUM"
  using mod_eq_dvd_iff_nat[of "u + k" "u + n" NUM] nat_dvd_not_less[of "n - k" NUM] by fastforce

lemma used_ok_complete:
  assumes sh: "vdisk_shape s" and used: "used_ok s don" and room: "length don < NUM" and i: "i < NUM"
    and dev: "device_completes dev"
  shows "used_ok (dev i s) (don @ [i])"
proof -
  let ?u = "unat (vd_used_idx s)" and ?n = "length don"
  have slot: "unat (vd_used_dev s) mod NUM = (?u + ?n) mod NUM"
    using used unat_add_mod_NUM[of "vd_used_idx s" ?n] by (simp add: used_ok_def)
  have lt: "(?u + k) mod NUM < NUM" for k by (simp add: NUM_def)
  have "vd_used_ring (dev i s) ! ((?u + k) mod NUM) = of_nat ((don @ [i]) ! k)" if "k < Suc ?n" for k
  proof (cases "k = ?n")
    case True
    then show ?thesis using dev slot lt sh by (simp add: device_completes_def vdisk_shape_def)
  next
    case False
    then have k: "k < ?n" using that by simp
    then have "(?u + k) mod NUM \<noteq> (?u + ?n) mod NUM" using slots_differ room by simp
    then show ?thesis using dev slot used k by (simp add: device_completes_def used_ok_def nth_append)
  qed
  moreover have "vd_info_status (dev i s) ! j = 0" if "j \<in> set (don @ [i])" for j
    using that used dev i sh by (auto simp: device_completes_def used_ok_def vdisk_shape_def nth_list_update)
  moreover have "vd_used_dev (dev i s) = vd_used_idx (dev i s) + of_nat (Suc ?n)"
    using dev used by (simp add: device_completes_def used_ok_def algebra_simps)
  moreover have "vd_used_idx (dev i s) = vd_used_idx s" using dev by (simp add: device_completes_def)
  ultimately show ?thesis using room by (simp add: used_ok_def)
qed

lemma intr_loop_ok:
  assumes "vdisk_shape s" "used_ok s don" "\<forall>i\<in>set don. i < NUM \<and> vd_info_b s ! i \<noteq> NullBuf"
  shows "intr_loop s = Ok (s\<lparr>vd_busy := (\<lambda>b. vd_busy s b \<and> b \<notin> (\<lambda>i. vd_info_b s ! i) ` set don),
    vd_used_idx := vd_used_dev s\<rparr>)"
  using assms
proof (induction don arbitrary: s)
  case Nil
  then have "vd_used_idx s = vd_used_dev s" by (simp add: used_ok_def)
  then show ?case by (subst intr_loop.simps) simp
next
  case (Cons i don)
  let ?b = "vd_info_b s ! i"
  let ?s = "s\<lparr>vd_busy := (vd_busy s)(?b := False), vd_used_idx := vd_used_idx s + 1\<rparr>"
  have sh: "length (vd_used_ring s) = NUM" "length (vd_info_status s) = NUM" "length (vd_info_b s) = NUM"
    using Cons.prems(1) by (simp_all add: vdisk_shape_def)
  have ne: "vd_used_idx s \<noteq> vd_used_dev s"
  proof -
    have "Suc (length don) < 65536" using Cons.prems(2) by (simp add: used_ok_def NUM_def)
    then have "unat (of_nat (Suc (length don)) :: uint16) \<noteq> 0"
      by (simp only: unsigned_of_nat take_bit_eq_mod) simp
    then have "(of_nat (Suc (length don)) :: uint16) \<noteq> 0" by (metis unat_0)
    then show ?thesis using Cons.prems(2) by (simp add: used_ok_def)
  qed
  have head: "vd_used_ring s ! (unat (vd_used_idx s) mod NUM) = of_nat i"
  proof -
    have "\<forall>k<length (i # don). vd_used_ring s ! ((unat (vd_used_idx s) + k) mod NUM) = of_nat ((i # don) ! k)"
      using Cons.prems(2) unfolding used_ok_def by blast
    then show ?thesis using spec[of _ 0] by force
  qed
  have lt: "unat (vd_used_idx s) mod NUM < NUM" by (simp add: NUM_def)
  have step: "intr_loop s = intr_loop ?s"
    using ne head lt sh Cons.prems(2,3) sint_of_nat[of i]
    by (subst intr_loop.simps) (simp add: uint_mod_NUM used_ok_def)
  have "used_ok ?s don"
  proof -
    have "(unat (vd_used_idx s + 1) + k) mod NUM = (unat (vd_used_idx s) + Suc k) mod NUM" for k
    proof -
      have "(unat (vd_used_idx s + 1) + k) mod NUM = ((unat (vd_used_idx s) + 1) mod NUM + k) mod NUM"
        using unat_add_mod_NUM[of "vd_used_idx s" 1] mod_add_left_eq[of "unat (vd_used_idx s + 1)" NUM k] by simp
      then show ?thesis by (simp add: mod_add_left_eq)
    qed
    note shift = this
    have ring: "\<forall>k<length (i # don). vd_used_ring s ! ((unat (vd_used_idx s) + k) mod NUM) = of_nat ((i # don) ! k)"
      using Cons.prems(2) unfolding used_ok_def by blast
    have "vd_used_ring s ! ((unat (vd_used_idx s + 1) + k) mod NUM) = of_nat (don ! k)" if "k < length don" for k
      unfolding shift using spec[OF ring, of "Suc k"] that by simp
    moreover have "vd_used_dev s = vd_used_idx s + 1 + of_nat (length don)" "length don \<le> NUM"
        "\<forall>i\<in>set don. vd_info_status s ! i = 0"
      using Cons.prems(2) by (simp_all add: used_ok_def)
    ultimately show ?thesis by (simp add: used_ok_def)
  qed
  then have "intr_loop ?s = Ok (?s\<lparr>vd_busy := (\<lambda>b. vd_busy ?s b \<and> b \<notin> (\<lambda>i. vd_info_b ?s ! i) ` set don),
      vd_used_idx := vd_used_dev ?s\<rparr>)"
    using Cons.prems by (intro Cons.IH) (auto simp: vdisk_shape_def)
  moreover have "(\<lambda>b. vd_busy ?s b \<and> b \<notin> (\<lambda>i. vd_info_b ?s ! i) ` set don) =
      (\<lambda>b. vd_busy s b \<and> b \<notin> (\<lambda>i. vd_info_b s ! i) ` set (i # don))"
    by auto
  ultimately show ?case using step by simp
qed

lemma free_chain_last:
  assumes "length (vd_free s) = NUM" "length (vd_desc s) = NUM" "i < NUM" "\<not> vd_free s ! i"
    "ds_flags (vd_desc s ! i) AND VRING_DESC_F_NEXT = 0"
  shows "free_chain s (int i) = Ok (s\<lparr>vd_desc := (vd_desc s)[i := zero_desc], vd_free := (vd_free s)[i := True]\<rparr>)"
  using assms free_desc_ok[of s i] by (subst free_chain.simps) simp

lemma free_chain_next:
  assumes "length (vd_free s) = NUM" "length (vd_desc s) = NUM" "i < NUM" "\<not> vd_free s ! i"
    "ds_flags (vd_desc s ! i) AND VRING_DESC_F_NEXT \<noteq> 0" "ds_next (vd_desc s ! i) = of_nat j" "j < NUM"
  shows "free_chain s (int i) =
    free_chain (s\<lparr>vd_desc := (vd_desc s)[i := zero_desc], vd_free := (vd_free s)[i := True]\<rparr>) (int j)"
  using assms free_desc_ok[of s i] uint16_of_nat[of j] by (subst free_chain.simps) simp

definition released :: "vdisk \<Rightarrow> nat \<Rightarrow> nat \<Rightarrow> nat \<Rightarrow> vdisk" where
  "released s i0 i1 i2 = s\<lparr>vd_info_b := (vd_info_b s)[i0 := NullBuf],
     vd_desc := (vd_desc s)[i0 := zero_desc, i1 := zero_desc, i2 := zero_desc],
     vd_free := (vd_free s)[i0 := True, i1 := True, i2 := True]\<rparr>"

lemma released_desc_other:
  "i \<noteq> i0 \<Longrightarrow> i \<noteq> i1 \<Longrightarrow> i \<noteq> i2 \<Longrightarrow> vd_desc (released s i0 i1 i2) ! i = vd_desc s ! i"
  by (simp add: released_def)

lemma rw_finish_releases:
  assumes sh: "vdisk_shape s" and ch: "chain_ok s (b, i0, i1, i2)" and lt: "i0 < NUM" "i1 < NUM" "i2 < NUM"
    and dis: "distinct [i0, i1, i2]" and nf: "\<not> vd_free s ! i0" "\<not> vd_free s ! i1" "\<not> vd_free s ! i2"
    and nb: "\<not> vd_busy s b"
  shows "virtio_disk_rw_finish s b (int i0) = Ok (released s i0 i1 i2)"
proof -
  let ?s = "s\<lparr>vd_info_b := (vd_info_b s)[i0 := NullBuf]\<rparr>"
  let ?s1 = "?s\<lparr>vd_desc := (vd_desc s)[i0 := zero_desc], vd_free := (vd_free s)[i0 := True]\<rparr>"
  let ?s2 = "?s1\<lparr>vd_desc := (vd_desc ?s1)[i1 := zero_desc], vd_free := (vd_free ?s1)[i1 := True]\<rparr>"
  note len = sh[unfolded vdisk_shape_def]
  have "free_chain ?s (int i0) = free_chain ?s1 (int i1)"
    using free_chain_next[of ?s i0 i1] len ch lt nf by simp
  also have "\<dots> = free_chain ?s2 (int i2)"
    using free_chain_next[of ?s1 i1 i2] len ch lt nf dis by simp
  also have "\<dots> = Ok (released s i0 i1 i2)"
    using free_chain_last[of ?s2 i2] len ch lt nf dis by (simp add: released_def)
  finally show ?thesis using nb lt len by (simp add: virtio_disk_rw_finish_def)
qed

lemma waiting_descs:
  assumes "driver_inv d" "(b, i0, i1, i2) \<in> set (dr_wait d)"
  shows "i0 < NUM" "i1 < NUM" "i2 < NUM" "distinct [i0, i1, i2]"
    "\<not> vd_free (dr_disk d) ! i0" "\<not> vd_free (dr_disk d) ! i1" "\<not> vd_free (dr_disk d) ! i2"
proof -
  note D = driver_invD[OF assms(1)]
  have "{i0, i1, i2} \<subseteq> set (concat (map descs_of (dr_wait d)))" using assms(2) by force
  then have "{i0, i1, i2} \<subseteq> {i. i < NUM \<and> \<not> vd_free (dr_disk d) ! i}" unfolding D(4) .
  then show "i0 < NUM" "i1 < NUM" "i2 < NUM"
    "\<not> vd_free (dr_disk d) ! i0" "\<not> vd_free (dr_disk d) ! i1" "\<not> vd_free (dr_disk d) ! i2"
    by simp_all
  have "distinct (descs_of (b, i0, i1, i2))"
    using D(3) assms(2) by (metis distinct_concat_iff imageI set_map)
  then show "distinct [i0, i1, i2]" by simp
qed

lemma sent_heads:
  assumes "driver_inv d" "i \<in> set (dr_sent d @ dr_done d)"
  obtains b i1 i2 where "(b, i, i1, i2) \<in> set (dr_wait d)" "vd_busy (dr_disk d) b"
proof -
  obtain w where "w \<in> set (dr_wait d)" "vd_busy (dr_disk d) (fst w)" "i = head_of w"
    using assms(2) unfolding driver_invD(7)[OF assms(1)] by blast
  moreover obtain b j i1 i2 where "w = (b, j, i1, i2)" by (rule prod_cases4)
  ultimately show thesis using that by auto
qed

lemma done_bound:
  assumes "driver_inv d"
  shows "length (dr_sent d @ dr_done d) \<le> NUM"
proof -
  have "set (dr_sent d @ dr_done d) \<subseteq> {..<NUM}"
    using sent_heads[OF assms] waiting_descs(1)[OF assms] by (metis lessThan_iff subsetI)
  then have "card (set (dr_sent d @ dr_done d)) \<le> NUM" using card_mono[of "{..<NUM}"] by fastforce
  then show ?thesis using distinct_card[OF driver_invD(6)[OF assms]] by simp
qed

lemma driver_inv_complete:
  assumes inv: "driver_inv d" and i: "i \<in> set (dr_sent d)" and dev: "device_completes dev"
  shows "driver_inv (d\<lparr>dr_disk := dev i (dr_disk d), dr_sent := remove1 i (dr_sent d), dr_done := dr_done d @ [i]\<rparr>)"
proof -
  note D = driver_invD[OF inv]
  let ?s = "dev i (dr_disk d)"
  have same: "vd_desc ?s = vd_desc (dr_disk d)" "vd_free ?s = vd_free (dr_disk d)" "vd_busy ?s = vd_busy (dr_disk d)"
      "vd_info_b ?s = vd_info_b (dr_disk d)"
    using dev by (simp_all add: device_completes_def)
  have "i < NUM" using sent_heads[OF inv, of i] i waiting_descs(1)[OF inv] by (metis UnI1 set_append)
  moreover have "length (dr_done d) < NUM" using done_bound[OF inv] i by (cases "dr_sent d") auto
  ultimately have used: "used_ok ?s (dr_done d @ [i])" using used_ok_complete[OF D(1,8) _ _ dev] by simp
  have ch: "chain_ok ?s w" if "w \<in> set (dr_wait d)" for w
    using chain_ok_other[OF D(5)[OF that], of ?s] same by simp
  have set: "set (remove1 i (dr_sent d) @ dr_done d @ [i]) = set (dr_sent d @ dr_done d)"
    using i D(6) by auto
  show ?thesis
  proof (rule driver_invI, goal_cases)
    case 1
    show ?case using D(1) dev by (simp add: vdisk_shape_def device_completes_def)
  next
    case 6
    show ?case using D(6) i by (auto simp: distinct_remove1)
  next
    case 7
    show ?case using set D(7) same by simp
  qed (use D(2,3,4) ch used same in \<open>simp_all del: chain_ok.simps\<close>)
qed

lemma intr_loop_inv:
  assumes inv: "driver_inv d"
  shows "intr_loop (dr_disk d) = Ok ((dr_disk d)\<lparr>vd_busy := (\<lambda>b. vd_busy (dr_disk d) b \<and>
    b \<notin> (\<lambda>i. vd_info_b (dr_disk d) ! i) ` set (dr_done d)), vd_used_idx := vd_used_dev (dr_disk d)\<rparr>)"
proof (rule intr_loop_ok[OF driver_invD(1)[OF inv] driver_invD(8)[OF inv]], rule ballI)
  fix i assume "i \<in> set (dr_done d)"
  then obtain b i1 i2 where w: "(b, i, i1, i2) \<in> set (dr_wait d)"
    using sent_heads[OF inv, of i] by (metis UnI2 set_append)
  then show "i < NUM \<and> vd_info_b (dr_disk d) ! i \<noteq> NullBuf"
    using waiting_descs(1)[OF inv w] driver_invD(5)[OF inv w] by auto
qed

lemma descs_disjoint:
  "distinct (concat (map f ws)) \<Longrightarrow> w \<in> set ws \<Longrightarrow> w' \<in> set ws \<Longrightarrow> w \<noteq> w' \<Longrightarrow> set (f w) \<inter> set (f w') = {}"
  by (induction ws) auto

lemma distinct_concat_remove1:
  assumes "distinct (concat (map f ws))" "w \<in> set ws"
  shows "distinct (concat (map f (remove1 w ws))) \<and> set (concat (map f (remove1 w ws))) = set (concat (map f ws)) - set (f w)"
  using assms
proof (induction ws)
  case (Cons v ws)
  then show ?case by (cases "v = w") auto
qed simp

lemma driver_inv_intr:
  assumes inv: "driver_inv d" and st: "intr_loop (dr_disk d) = Ok s"
  shows "driver_inv (d\<lparr>dr_disk := s, dr_done := []\<rparr>)"
proof -
  note D = driver_invD[OF inv]
  have s: "s = (dr_disk d)\<lparr>vd_busy := (\<lambda>b. vd_busy (dr_disk d) b \<and>
    b \<notin> (\<lambda>i. vd_info_b (dr_disk d) ! i) ` set (dr_done d)), vd_used_idx := vd_used_dev (dr_disk d)\<rparr>"
    using st intr_loop_inv[OF inv] by simp
  have fstw: "vd_info_b (dr_disk d) ! head_of w = fst w" if "w \<in> set (dr_wait d)" for w
    using D(5)[OF that] by (cases w) simp
  have busy: "vd_busy s (fst w) \<longleftrightarrow> vd_busy (dr_disk d) (fst w) \<and> head_of w \<notin> set (dr_done d)"
    if w: "w \<in> set (dr_wait d)" for w
  proof -
    have "fst w \<in> (\<lambda>i. vd_info_b (dr_disk d) ! i) ` set (dr_done d) \<longleftrightarrow> head_of w \<in> set (dr_done d)"
    proof
      assume "fst w \<in> (\<lambda>i. vd_info_b (dr_disk d) ! i) ` set (dr_done d)"
      then obtain i where i: "i \<in> set (dr_done d)" "fst w = vd_info_b (dr_disk d) ! i" by blast
      obtain b i1 i2 where w': "(b, i, i1, i2) \<in> set (dr_wait d)"
        using sent_heads[OF inv, of i] i(1) by (metis UnI2 set_append)
      then have "fst w = b" using i(2) fstw[OF w'] by simp
      then have "w = (b, i, i1, i2)" using D(2) w w' by (metis eq_key_imp_eq_value fst_conv prod.collapse)
      then show "head_of w \<in> set (dr_done d)" using i(1) by simp
    qed (use fstw[OF w] in force)
    then show ?thesis by (simp add: s)
  qed
  have ch: "chain_ok s w" if "w \<in> set (dr_wait d)" for w
    using chain_ok_other[OF D(5)[OF that], of s] by (simp add: s)
  have heads: "set (dr_sent d) = head_of ` {w \<in> set (dr_wait d). vd_busy s (fst w)}"
  proof -
    have "{w \<in> set (dr_wait d). vd_busy s (fst w)} = {w \<in> set (dr_wait d). vd_busy (dr_disk d) (fst w) \<and> head_of w \<notin> set (dr_done d)}"
      using busy by blast
    then have "head_of ` {w \<in> set (dr_wait d). vd_busy s (fst w)} = set (dr_sent d @ dr_done d) - set (dr_done d)"
      unfolding D(7) by auto
    then show ?thesis using D(6) by auto
  qed
  show ?thesis
  proof (rule driver_invI, goal_cases)
    case 1
    show ?case using D(1) by (simp add: vdisk_shape_def s)
  next
    case 8
    show ?case by (simp add: used_ok_def s)
  qed (use D(2,3,4,6) ch heads s in \<open>simp_all del: chain_ok.simps\<close>)
qed

lemma driver_inv_finish:
  assumes inv: "driver_inv d" and w: "(b, i0, i1, i2) \<in> set (dr_wait d)"
    and st: "virtio_disk_rw_finish (dr_disk d) b (int i0) = Ok s"
  shows "driver_inv (d\<lparr>dr_disk := s, dr_wait := remove1 (b, i0, i1, i2) (dr_wait d)\<rparr>)"
proof -
  note D = driver_invD[OF inv] and W = waiting_descs[OF inv w]
  let ?w = "(b, i0, i1, i2)" and ?ws = "remove1 (b, i0, i1, i2) (dr_wait d)"
  have nb: "\<not> vd_busy (dr_disk d) b" using st by (auto simp: virtio_disk_rw_finish_def split: if_splits)
  have s: "s = released (dr_disk d) i0 i1 i2"
    using st rw_finish_releases[OF D(1) D(5)[OF w] W(1-3) W(4) W(5-7) nb] by simp
  have dist: "distinct (dr_wait d)" using D(2) by (simp add: distinct_map)
  have set: "set ?ws = set (dr_wait d) - {?w}" using dist by simp
  note R = distinct_concat_remove1[OF D(3) w]
  have ch: "chain_ok s v" if v: "v \<in> set ?ws" for v
  proof -
    have "set (descs_of v) \<inter> {i0, i1, i2} = {}"
      using descs_disjoint[OF D(3), of v ?w] v w set by auto
    moreover have "head_of v \<in> set (descs_of v)" by (cases v) simp
    ultimately have "\<forall>i\<in>set (descs_of v). vd_desc s ! i = vd_desc (dr_disk d) ! i" "head_of v \<noteq> i0"
      unfolding s by (auto intro: released_desc_other)
    then show ?thesis using chain_ok_other[OF D(5), of v s] v set by (simp add: s released_def)
  qed
  have free: "{i. i < NUM \<and> \<not> vd_free s ! i} = {i. i < NUM \<and> \<not> vd_free (dr_disk d) ! i} - {i0, i1, i2}"
  proof -
    have "vd_free s ! i \<longleftrightarrow> vd_free (dr_disk d) ! i \<or> i = i0 \<or> i = i1 \<or> i = i2" if "i < NUM" for i
      using W(1-3) D(1) that by (simp add: s released_def vdisk_shape_def nth_list_update)
    then show ?thesis by blast
  qed
  have busy: "{v \<in> set ?ws. vd_busy s (fst v)} = {v \<in> set (dr_wait d). vd_busy (dr_disk d) (fst v)}"
  proof -
    have "vd_busy s = vd_busy (dr_disk d)" by (simp add: s released_def)
    moreover have "{v \<in> A - {x}. P v} = {v \<in> A. P v}" if "\<not> P x" for A P and x :: waiting
      using that by blast
    ultimately show ?thesis unfolding set using nb by simp
  qed
  show ?thesis
  proof (rule driver_invI, goal_cases)
    case 1
    show ?case using D(1) by (simp add: vdisk_shape_def s released_def)
  next
    case 2
    show ?case using D(2) by (simp add: distinct_map inj_on_def set)
  next
    case 4
    show ?case using R free D(4) by simp
  next
    case 7
    show ?case using D(7) busy by simp
  next
    case 8
    show ?case using D(8) by (simp add: used_ok_def s released_def)
  qed (use R D(6) ch in \<open>simp_all del: chain_ok.simps\<close>)
qed

theorem driver_reach_inv:
  assumes "device_completes dev" "driver_reach m dev d"
  shows "driver_inv d"
  using assms(2)
proof induction
  case init
  show ?case by (rule driver_inv_init)
next
  case (step d d')
  from step.hyps(2) step.IH show ?case
    by cases (simp_all add: driver_inv_start driver_inv_complete driver_inv_intr driver_inv_finish assms(1))
qed



text \<open>\<open>alloc3_desc\<close> is all or nothing: with three free descriptors it takes three distinct ones,
  otherwise it returns -1 with the same descriptors free as before, so a thread that then sleeps
  holds nothing.\<close>

theorem alloc3_desc_all_or_nothing:
  assumes "vdisk_shape s"
  shows "(if free_count s \<ge> 3
     then \<exists>i0 i1 i2. distinct [i0, i1, i2] \<and> (\<forall>i\<in>{i0, i1, i2}. i < NUM \<and> vd_free s ! i) \<and>
       alloc3_desc s = Ok (Some [int i0, int i1, int i2], s\<lparr>vd_free := (vd_free s)[i0 := False, i1 := False, i2 := False]\<rparr>)
     else \<exists>s'. alloc3_desc s = Ok (None, s') \<and> vd_free s' = vd_free s)"
proof -
  have len: "length (vd_free s) = NUM" "length (vd_desc s) = NUM" using assms by (simp_all add: vdisk_shape_def)
  show ?thesis
  proof (cases "free_count s \<ge> 3")
    case True
    obtain i0 i1 i2 where i: "distinct [i0, i1, i2]" "\<forall>i\<in>{i0, i1, i2}. i < length (vd_free s) \<and> vd_free s ! i"
        "alloc3_desc s = Ok (Some [int i0, int i1, int i2], s\<lparr>vd_free := (vd_free s)[i0 := False, i1 := False, i2 := False]\<rparr>)"
      using alloc3_some[OF True] .
    have "\<forall>i\<in>{i0, i1, i2}. i < NUM \<and> vd_free s ! i" using i(2) unfolding len(1) .
    then show ?thesis unfolding if_P[OF True] using i(1,3) by (intro exI conjI) assumption+
  next
    case False
    then show ?thesis using alloc3_none[OF len] by force
  qed
qed


section \<open>Examples\<close>

definition ex_dev :: "nat \<Rightarrow> vdisk \<Rightarrow> vdisk" where
  "ex_dev i s = s\<lparr>vd_info_status := (vd_info_status s)[i := 0],
     vd_used_ring := (vd_used_ring s)[unat (vd_used_dev s) mod NUM := of_nat i],
     vd_used_dev := vd_used_dev s + 1\<rparr>"

definition ex_m :: blocknos where
  "ex_m b = (if b = NullBuf then None else Some 5)"

lemma ex_dev_completes: "device_completes ex_dev"
  by (simp add: device_completes_def ex_dev_def)

lemma driver_init_free: "free_count (dr_disk driver_init) \<ge> 3" "vdisk_shape (dr_disk driver_init)"
  using driver_invD(1)[OF driver_inv_init] by (simp_all add: free_count_def driver_init_def NUM_def)

lemma ex_reach_one:
  "\<exists>d i0 i1 i2. driver_reach ex_m ex_dev d \<and> dr_wait d = [(CacheBuf 0, i0, i1, i2)] \<and> dr_sent d = [] \<and> dr_done d = [i0]"
proof (cases rule: rw_start_cases[of "dr_disk driver_init" ex_m "CacheBuf 0" 5 True, OF driver_init_free(2)])
  case 1
  show ?case by (simp add: ex_m_def)
next
  case 2
  then show ?thesis using driver_init_free(1) by simp
next
  case (3 i0 i1 i2)
  let ?s = "submitted (dr_disk driver_init) (CacheBuf 0) True (ucast (5 * 2 :: uint)) i0 i1 i2"
  let ?d = "driver_init\<lparr>dr_disk := ?s, dr_wait := (CacheBuf 0, i0, i1, i2) # dr_wait driver_init,
     dr_sent := dr_sent driver_init @ [i0]\<rparr>"
  have "driver_step ex_m ex_dev driver_init ?d"
    using driver_step.start[of "CacheBuf 0" driver_init ex_m True i0 i1 i2 ?s ex_dev] 3(4) by (simp add: driver_init_def)
  then have "driver_reach ex_m ex_dev ?d" by (blast intro: driver_reach.intros)
  moreover have "i0 \<in> set (dr_sent ?d)" by simp
  ultimately have "driver_reach ex_m ex_dev (?d\<lparr>dr_disk := ex_dev i0 (dr_disk ?d), dr_sent := remove1 i0 (dr_sent ?d),
      dr_done := dr_done ?d @ [i0]\<rparr>)"
    by (blast intro: driver_reach.step driver_step.complete)
  then show ?thesis
    by (rule_tac exI, rule_tac x = i0 in exI, rule_tac x = i1 in exI, rule_tac x = i2 in exI, rule_tac conjI)
      (assumption, simp add: driver_init_def)
qed



theorem alloc3_desc_all_or_nothing_witness:
  "\<exists>i0 i1 i2. distinct [i0, i1, i2] \<and>
    alloc3_desc (dr_disk driver_init) = Ok (Some [int i0, int i1, int i2],
      (dr_disk driver_init)\<lparr>vd_free := (vd_free (dr_disk driver_init))[i0 := False, i1 := False, i2 := False]\<rparr>)"
  using alloc3_desc_all_or_nothing[OF driver_init_free(2)] driver_init_free(1) by (simp only: if_True) blast


end
