(* ===== verification/Disk_Sched.thy ===== *)
theory Disk_Sched
  imports Min_Heap Sstf_Queue Deadline_Sched Virtio_Ring
begin

text \<open>
  The dispatch of disk requests: \<open>rw_queue\<close> chooses a request according to \<open>IO_type\<close> and hands it
  to the driver, \<open>virtio_disk_intr\<close> deletes a request from the queue of that type, \<open>IO_switch\<close> changes
  the type. Requests enter through \<open>rw_queue\<close> only, so \<open>bread\<close> and \<open>bwrite\<close> rely on it performing the
  request they made.
\<close>

section \<open>Dispatch\<close>

record sched =
  sd_type :: int
  sd_heap :: HNode
  sd_sstf :: Queue
  sd_ddl :: ddl

definition sched_init :: sched where
  "sched_init = \<lparr>sd_type = 0, sd_heap = heap_init, sd_sstf = sstf_init, sd_ddl = ddl_init\<rparr>"

text \<open>\<open>IO_switch\<close> of \<open>kernel/proc.c\<close>, the body of the system call that selects the scheduler.\<close>

definition IO_switch :: "sched \<Rightarrow> int \<Rightarrow> sched" where
  "IO_switch sc type = sc\<lparr>sd_type := type\<rparr>"

text \<open>The request \<open>rw_queue\<close> passes to \<open>virtio_disk_rw\<close>; none for an unknown type.\<close>

definition rw_queue_choose :: "blocknos \<Rightarrow> sched \<Rightarrow> bufp \<Rightarrow> int \<Rightarrow> (req option \<times> sched) outcome" where
  "rw_queue_choose m sc b write =
     (let r = \<lparr>rq_b = b, rq_write = write\<rparr> in
      if sd_type sc = 0 then Ok (Some r, sc)
      else if sd_type sc = 1 then
        bnd (insertMinHeap m (sd_heap sc) r) (\<lambda>h.
        bnd (aget (hn_data h) 1) (\<lambda>x. Ok (Some x, sc\<lparr>sd_heap := h\<rparr>)))
      else if sd_type sc = 2 then
        bnd (enqueue m (sd_sstf sc) r) (\<lambda>q.
        bnd (aget (q_data q) 0) (\<lambda>x. Ok (Some x, sc\<lparr>sd_sstf := q\<rparr>)))
      else if sd_type sc = 3 then
        bnd (ddl_submit m (sd_ddl sc) r) (\<lambda>d. Ok (Some (dd_readyArea d), sc\<lparr>sd_ddl := d\<rparr>))
      else Ok (None, sc))"

text \<open>
  \<open>rw_queue\<close> up to the point where its thread waits for the device: the request issued with its
  descriptors, if one was issued.
\<close>

definition rw_queue :: "blocknos \<Rightarrow> sched \<times> vdisk \<Rightarrow> bufp \<Rightarrow> int \<Rightarrow> ((req \<times> int list) option \<times> sched \<times> vdisk) outcome" where
  "rw_queue m st b write =
     bnd (rw_queue_choose m (fst st) b write) (\<lambda>(x, sc).
     case x of
       None \<Rightarrow> Ok (None, sc, snd st)
     | Some r \<Rightarrow> bnd (virtio_disk_rw_start m (snd st) (rq_b r) (rq_write r \<noteq> 0)) (\<lambda>(idx, d). Ok (Some (r, idx), sc, d)))"

text \<open>The last part of \<open>virtio_disk_intr\<close>.\<close>

definition intr_dequeue :: "blocknos \<Rightarrow> sched \<Rightarrow> sched outcome" where
  "intr_dequeue m sc =
     bnd (if sd_type sc = 1 then bnd (deleteFromMinHeap m (sd_heap sc)) (\<lambda>h. Ok (sc\<lparr>sd_heap := h\<rparr>)) else Ok sc) (\<lambda>sc.
     bnd (if sd_type sc = 2 then bnd (dequeue m (sd_sstf sc)) (\<lambda>q. Ok (sc\<lparr>sd_sstf := q\<rparr>)) else Ok sc) (\<lambda>sc.
     if sd_type sc = 3 then bnd (PrimRBTree (sd_ddl sc) 0) (\<lambda>d. Ok (sc\<lparr>sd_ddl := d\<rparr>)) else Ok sc))"

definition virtio_disk_intr :: "blocknos \<Rightarrow> sched \<times> vdisk \<Rightarrow> (sched \<times> vdisk) outcome" where
  "virtio_disk_intr m st =
     bnd (intr_loop (snd st)) (\<lambda>d. bnd (intr_dequeue m (fst st)) (\<lambda>sc. Ok (sc, d)))"

section \<open>One request at a time\<close>

text \<open>No request is pending in the queue of the selected scheduler.\<close>

definition sched_idle :: "blocknos \<Rightarrow> sched \<Rightarrow> bool" where
  "sched_idle m sc \<longleftrightarrow>
     (sd_type sc = 1 \<longrightarrow> heap_inv m (sd_heap sc) \<and> heap_pending (sd_heap sc) = {#}) \<and>
     (sd_type sc = 2 \<longrightarrow> sstf_ok m (sd_sstf sc) \<and> sstf_pending (sd_sstf sc) = {#})"

lemma heap_root_get: "heap_inv m h \<Longrightarrow> aget (hn_data h) 1 = Ok (hn_data h ! 1)"
  by (simp add: heap_inv_def)

lemma sstf_head_get: "sstf_ok m q \<Longrightarrow> aget (q_data q) 0 = Ok (q_data q ! 0)"
  by (auto simp: sstf_ok_def sstf_inv_def)


section \<open>Several requests\<close>

text \<open>C33: With the block-order scheduler, a caller whose block number is larger than that of some
  pending request has that other request issued a second time, and its own not at all.\<close>

theorem block_order_issues_other_request:
  assumes type: "sd_type sc = 1" and inv: "heap_inv m (sd_heap sc)" and room: "hn_Size (sd_heap sc) < 127"
    and b: "m b = Some k" and y: "y \<in># heap_pending (sd_heap sc)" "key m y < k"
  shows "\<exists>x sc'. rw_queue_choose m sc b w = Ok (Some x, sc') \<and> x \<in># heap_pending (sd_heap sc) \<and> rq_b x \<noteq> b"
proof -
  let ?r = "\<lparr>rq_b = b, rq_write = w\<rparr>"
  obtain h where h: "insertMinHeap m (sd_heap sc) ?r = Ok h" "heap_inv m h" "hn_Size h = hn_Size (sd_heap sc) + 1"
      "heap_pending h = heap_pending (sd_heap sc) + {#?r#}"
    using insertMinHeap_correct[OF inv room, of ?r] b by auto
  have "1 \<le> hn_Size h" using h(3) inv by (simp add: heap_inv_def)
  note root = heap_pending_nth[OF h(2) this]
  let ?x = "hn_data h ! 1"
  have "key m ?x \<le> key m y" using root(2) y(1) h(4) by simp
  then have less: "key m ?x < k" using y(2) by simp
  have "key m z = k" if "rq_b z = b" for z using b that by (simp add: key_def)
  then have "rq_b ?x \<noteq> b" using less by fastforce
  moreover have "?x \<in># heap_pending (sd_heap sc)" using root(1) h(4) calculation by auto
  moreover have "rw_queue_choose m sc b w = Ok (Some ?x, sc\<lparr>sd_heap := h\<rparr>)"
    using type h(1) heap_root_get[OF h(2)] by (simp add: rw_queue_choose_def)
  ultimately show ?thesis by blast
qed

text \<open>With the nearest-first scheduler, every request that arrives while another one is pending
  has the one at the head of the queue issued again instead of its own.\<close>

theorem nearest_first_reissues_head:
  assumes type: "sd_type sc = 2" and ok: "sstf_ok m (sd_sstf sc)" and size: "1 \<le> q_size (sd_sstf sc)" "q_size (sd_sstf sc) < 128"
    and r: "near m \<lparr>rq_b = b, rq_write = w\<rparr>"
  shows "\<exists>sc'. rw_queue_choose m sc b w = Ok (Some (q_data (sd_sstf sc) ! 0), sc')"
proof -
  let ?q = "sd_sstf sc"
  have inv: "sstf_inv m ?q" using ok by (simp add: sstf_ok_def)
  obtain q where q: "enqueue m ?q \<lparr>rq_b = b, rq_write = w\<rparr> = Ok q" "sstf_inv m q" "q_size q = q_size ?q + 1"
      "nearest_second m (sstf_list q)" "hd (sstf_list q) = hd (sstf_list ?q)"
    using enqueue_correct[OF inv size(2) r] size(1) by auto
  have "q_data q ! 0 = hd (sstf_list q)" "q_data ?q ! 0 = hd (sstf_list ?q)"
    using sstf_list_head[OF q(2)] sstf_list_head[OF inv] q(3) size by (metis list.sel(1) add_increasing2 le_add_same_cancel2 order_trans zero_le_one, metis list.sel(1))
  then show ?thesis using q type sstf_head_get[of m q] by (auto simp: rw_queue_choose_def sstf_ok_def)
qed

text \<open>\<open>IO_switch\<close> accepts every number. For one that names no scheduler, \<open>rw_queue\<close> returns at
  once without any disk operation, so the caller takes a buffer that was never read as valid.\<close>

theorem unknown_type_performs_no_io:
  assumes "type \<notin> {0, 1, 2, 3}"
  shows "rw_queue m (IO_switch sc type, d) b w = Ok (None, IO_switch sc type, d)"
  using assms by (simp add: rw_queue_def rw_queue_choose_def IO_switch_def)

text \<open>Switching from the no-op to the nearest-first scheduler while a request is in flight makes
  the completion interrupt drop a request that is not queued: the size becomes -1, and the next
  request is stored before the start of the array.\<close>

theorem switch_in_flight_corrupts_queue:
  assumes "sstf_inv m (sd_sstf sc)" "q_size (sd_sstf sc) = 0"
  shows "\<exists>sc'. intr_dequeue m (IO_switch sc 2) = Ok sc' \<and> q_size (sd_sstf sc') = -1 \<and>
    rw_queue_choose m sc' b w = Fault ''write outside array''"
proof -
  let ?q = "sd_sstf sc"
  have "dequeue m ?q = Ok (?q\<lparr>q_size := -1\<rparr>)"
    using assms(2) by (simp add: dequeue_def SSTF_def shift_loop.simps sstf_loop.simps)
  then have "intr_dequeue m (IO_switch sc 2) = Ok (sc\<lparr>sd_type := 2, sd_sstf := ?q\<lparr>q_size := -1\<rparr>\<rparr>)"
    by (simp add: intr_dequeue_def IO_switch_def)
  moreover have "enqueue m (?q\<lparr>q_size := -1\<rparr>) \<lparr>rq_b = b, rq_write = w\<rparr> = Fault ''write outside array''"
    using assms(1) by (simp add: enqueue_def sstf_inv_def aset_def)
  ultimately show ?thesis by (simp add: rw_queue_choose_def)
qed

section \<open>Examples\<close>


theorem block_order_issues_other_request_witness:
  "\<exists>x sc'. rw_queue_choose ex_blocks (sched_init\<lparr>sd_type := 1, sd_heap := ex_heap\<rparr>) (CacheBuf 2) 0 = Ok (Some x, sc') \<and>
    rq_b x \<noteq> CacheBuf 2"
proof -
  have k: "ex_blocks (CacheBuf 2) = Some 98" by (simp add: ex_blocks_def)
  have sz: "hn_Size ex_heap = 3" by (simp add: ex_heap_def heap_init_def)
  have "ex_req 9 \<in># heap_pending ex_heap" using heap_pending_nth(1)[OF ex_heap_inv] sz by (simp add: ex_heap_def)
  then show ?thesis
    using block_order_issues_other_request[of "sched_init\<lparr>sd_type := 1, sd_heap := ex_heap\<rparr>" ex_blocks "CacheBuf 2" 98 "ex_req 9" 0]
      ex_heap_inv sz k by auto
qed

theorem nearest_first_reissues_head_witness:
  "\<exists>sc'. rw_queue_choose ex_sstf_blocks (sched_init\<lparr>sd_type := 2, sd_sstf := ex_sstf\<rparr>) (CacheBuf 2) 0 =
    Ok (Some (ex_sreq 0), sc')"
proof -
  have "near ex_sstf_blocks \<lparr>rq_b = CacheBuf 2, rq_write = 0\<rparr>" using near_ex_sreq[of 2] by (simp add: ex_sreq_def)
  then show ?thesis
    using nearest_first_reissues_head[of "sched_init\<lparr>sd_type := 2, sd_sstf := ex_sstf\<rparr>" ex_sstf_blocks "CacheBuf 2" 0] ex_sstf_ok
    by (simp add: ex_sstf_def sstf_init_def)
qed

theorem unknown_type_performs_no_io_witness:
  "rw_queue ex_blocks (IO_switch sched_init 7, vdisk_zero) (CacheBuf 0) 0 = Ok (None, IO_switch sched_init 7, vdisk_zero)"
  by (rule unknown_type_performs_no_io) simp

theorem switch_in_flight_corrupts_queue_witness:
  "\<exists>sc'. intr_dequeue ex_blocks (IO_switch sched_init 2) = Ok sc' \<and> q_size (sd_sstf sc') = -1 \<and>
    rw_queue_choose ex_blocks sc' (CacheBuf 0) 0 = Fault ''write outside array''"
  by (rule switch_in_flight_corrupts_queue) (simp_all add: sched_init_def sstf_init_def sstf_inv_def sstf_list_def)

end
