(* ===== verification/Byte_Queue.thy ===== *)
theory Byte_Queue
  imports Kernel_Prelude
begin

text \<open>
  Bounded queues of bytes. The kernel keeps three of them in circular arrays indexed by free-running
  counters: pipes, the console's input line buffer and the UART's output buffer. The locale
  \<open>byte_queue\<close> states what their users rely on; \<open>ring\<close> gives the contents of a circular array whose size divides the
  range of the counters, so that the counters may wrap around.
\<close>

section \<open>Interface\<close>

locale byte_queue =
  fixes ok :: "'s \<Rightarrow> bool"
    and contents :: "'s \<Rightarrow> byte list"
    and capacity :: nat
    and put :: "byte \<Rightarrow> 's \<Rightarrow> 's"
    and get :: "'s \<Rightarrow> byte \<times> 's"
  assumes put_ok: "ok s \<Longrightarrow> length (contents s) < capacity \<Longrightarrow> ok (put c s) \<and> contents (put c s) = contents s @ [c]"
    and get_ok: "ok s \<Longrightarrow> contents s \<noteq> [] \<Longrightarrow>
      fst (get s) = hd (contents s) \<and> ok (snd (get s)) \<and> contents (snd (get s)) = tl (contents s)"
    and bounded: "ok s \<Longrightarrow> length (contents s) \<le> capacity"
begin

fun put_all :: "byte list \<Rightarrow> 's \<Rightarrow> 's" where
  "put_all [] s = s"
| "put_all (c # cs) s = put_all cs (put c s)"

fun get_n :: "nat \<Rightarrow> 's \<Rightarrow> byte list \<times> 's" where
  "get_n 0 s = ([], s)"
| "get_n (Suc n) s = (case get s of (c, s) \<Rightarrow> case get_n n s of (cs, s) \<Rightarrow> (c # cs, s))"

lemma put_all_ok:
  "ok s \<Longrightarrow> length (contents s) + length cs \<le> capacity \<Longrightarrow> ok (put_all cs s) \<and> contents (put_all cs s) = contents s @ cs"
proof (induction cs arbitrary: s)
  case (Cons c cs)
  then show ?case using put_ok[of s c] Cons.IH[of "put c s"] by simp
qed simp

lemma get_n_ok:
  "ok s \<Longrightarrow> n \<le> length (contents s) \<Longrightarrow>
   fst (get_n n s) = take n (contents s) \<and> ok (snd (get_n n s)) \<and> contents (snd (get_n n s)) = drop n (contents s)"
proof (induction n arbitrary: s)
  case (Suc n)
  obtain c cs where c: "contents s = c # cs" using Suc.prems(2) by (cases "contents s") auto
  then show ?case using get_ok[OF Suc.prems(1)] Suc.IH[of "snd (get s)"] Suc.prems(2)
    by (auto simp: split_beta)
qed simp

text \<open>First in, first out.\<close>

lemma fifo:
  assumes "ok s" "length (contents s) + length cs \<le> capacity"
  shows "fst (get_n (length (contents s) + length cs) (put_all cs s)) = contents s @ cs"
  using get_n_ok[of "put_all cs s" "length (contents s) + length cs"] put_all_ok[OF assms] by simp

end

section \<open>Circular arrays\<close>

definition ring :: "nat \<Rightarrow> byte list \<Rightarrow> 'a::len word \<Rightarrow> 'a word \<Rightarrow> byte list" where
  "ring N d r w = map (\<lambda>k. d ! (unat (r + of_nat k) mod N)) [0..<unat (w - r)]"

lemma length_ring [simp]: "length (ring N d r w) = unat (w - r)"
  by (simp add: ring_def)

lemma ring_empty [simp]: "ring N d r r = []"
  by (simp add: ring_def)

text \<open>Slots of counters less than \<open>N\<close> apart differ, across a wrap-around of the counter as well.\<close>

lemma unat_add_mod_dvd:
  fixes r :: "'a::len word"
  assumes "N dvd 2 ^ LENGTH('a)"
  shows "unat (r + of_nat k) mod N = (unat r + k) mod N"
proof -
  have "unat (r + of_nat k) = (unat r + k) mod 2 ^ LENGTH('a)"
    by (simp add: unat_word_ariths(1) unsigned_of_nat take_bit_eq_mod mod_simps)
  then show ?thesis using assms by (simp add: mod_mod_cancel)
qed

lemma ring_slot_differs:
  assumes "j < k" "k - j < (N :: nat)"
  shows "(a + j) mod N \<noteq> (a + k) mod N"
proof
  assume "(a + j) mod N = (a + k) mod N"
  then have "N dvd (a + k) - (a + j)" using assms(1) by (metis mod_eq_dvd_iff_nat add_le_mono1 less_imp_le nat_add_left_cancel_le)
  then have "N dvd k - j" by simp
  then show False using assms by (auto dest: dvd_imp_le)
qed

lemma ring_put:
  fixes r w :: "'a::len word"
  assumes "N dvd 2 ^ LENGTH('a)" "unat (w - r) < N" "N < 2 ^ LENGTH('a)" "length d = N"
  shows "ring N (d[unat w mod N := c]) r (w + 1) = ring N d r w @ [c]"
proof -
  let ?n = "unat (w - r)"
  have "unat (w - r + 1) = ?n + 1" using assms(2,3) unat_word_ariths(1)[of "w - r" 1] by simp
  moreover have "w + 1 - r = w - r + 1" by (simp add: algebra_simps)
  ultimately have n1: "unat (w + 1 - r) = ?n + 1" by metis
  have w: "unat w mod N = (unat r + ?n) mod N"
  proof -
    have "w = r + of_nat ?n" by simp
    then show ?thesis using unat_add_mod_dvd[OF assms(1), of r ?n] by metis
  qed
  have N: "0 < N" using assms(2) by simp
  show ?thesis
  proof (rule nth_equalityI)
    show "length (ring N (d[unat w mod N := c]) r (w + 1)) = length (ring N d r w @ [c])" by (simp add: n1)
    fix i assume "i < length (ring N (d[unat w mod N := c]) r (w + 1))"
    then have i: "i < ?n + 1" by (simp add: n1)
    have e: "ring N (d[unat w mod N := c]) r (w + 1) ! i = d[unat w mod N := c] ! ((unat r + i) mod N)"
      using i by (simp add: ring_def n1 unat_add_mod_dvd[OF assms(1)] del: upt_Suc)
    show "ring N (d[unat w mod N := c]) r (w + 1) ! i = (ring N d r w @ [c]) ! i"
    proof (cases "i = ?n")
      case True
      then show ?thesis using e w N assms(4) by (simp add: nth_append)
    next
      case False
      then have "i < ?n" using i by simp
      moreover from this have "(unat r + i) mod N \<noteq> (unat r + ?n) mod N" using assms(2) by (intro ring_slot_differs) simp_all
      ultimately show ?thesis using e w by (simp add: nth_append ring_def unat_add_mod_dvd[OF assms(1)])
    qed
  qed
qed

lemma ring_get:
  fixes r w :: "'a::len word"
  assumes "w \<noteq> r"
  shows "ring N d r w = d ! (unat r mod N) # ring N d (r + 1) w"
proof -
  have "w - r \<noteq> 0" using assms by simp
  then have "unat (w - r) = Suc (unat (w - r - 1))" by (simp add: unat_minus_one unat_gt_0)
  moreover have "w - r - 1 = w - (r + 1)" by simp
  ultimately have n: "unat (w - r) = Suc (unat (w - (r + 1)))" by simp
  show ?thesis
    by (rule nth_equalityI) (auto simp: ring_def n nth_Cons' simp del: upt_Suc split: nat.splits)
qed

end
