(* ===== verification/Kernel_String.thy ===== *)
theory Kernel_String
  imports Kernel_Prelude
begin

text \<open>
  The memory and string functions of \<open>kernel/string.c\<close>. A region of memory is a byte list and a
  pointer into it an offset; \<open>memset\<close>, \<open>memcmp\<close>, \<open>memmove\<close> and \<open>memcpy\<close> take two offsets into the same
  region, so overlapping arguments are covered. The string functions work on separate objects, as
  all their calls do. An access outside the region is a \<open>Fault\<close>.
\<close>

section \<open>Replacing a part of a region\<close>

definition patch :: "'a list \<Rightarrow> nat \<Rightarrow> 'a list \<Rightarrow> 'a list" where
  "patch mem off xs = take off mem @ xs @ drop (off + length xs) mem"

lemma length_patch [simp]: "off + length xs \<le> length mem \<Longrightarrow> length (patch mem off xs) = length mem"
  by (simp add: patch_def)

lemma nth_patch:
  "off + length xs \<le> length mem \<Longrightarrow> i < length mem \<Longrightarrow>
   patch mem off xs ! i = (if off \<le> i \<and> i < off + length xs then xs ! (i - off) else mem ! i)"
  by (auto simp: patch_def nth_append)

lemma patch_eqI:
  assumes "off + length xs \<le> length mem" "length ys = length mem"
    "\<And>i. i < length mem \<Longrightarrow> ys ! i = (if off \<le> i \<and> i < off + length xs then xs ! (i - off) else mem ! i)"
  shows "ys = patch mem off xs"
  using assms by (intro nth_equalityI) (auto simp: nth_patch)

lemma nth_patch_range:
  assumes "off + n \<le> length mem" "s + n \<le> length src" "i < length mem"
  shows "patch mem off (take n (drop s src)) ! i = (if off \<le> i \<and> i < off + n then src ! (s + (i - off)) else mem ! i)"
  using assms by (auto simp: nth_patch)

lemma length_patch_range [simp]:
  "off + n \<le> length mem \<Longrightarrow> s + n \<le> length src \<Longrightarrow> length (patch mem off (take n (drop s src))) = length mem"
  by simp

section \<open>Memory functions\<close>

fun memset_loop :: "byte list \<Rightarrow> nat \<Rightarrow> byte \<Rightarrow> nat \<Rightarrow> byte list outcome" where
  "memset_loop mem p c 0 = Ok mem"
| "memset_loop mem p c (Suc n) = bnd (aset mem (int p) c) (\<lambda>mem. memset_loop mem (Suc p) c n)"

definition memset :: "byte list \<Rightarrow> nat \<Rightarrow> int \<Rightarrow> uint \<Rightarrow> byte list outcome" where
  "memset mem dst c n = memset_loop mem dst (word_of_int c) (unat n)"

fun memcmp_loop :: "byte list \<Rightarrow> nat \<Rightarrow> nat \<Rightarrow> nat \<Rightarrow> int outcome" where
  "memcmp_loop mem p q 0 = Ok 0"
| "memcmp_loop mem p q (Suc n) =
     bnd (aget mem (int p)) (\<lambda>a. bnd (aget mem (int q)) (\<lambda>b.
     if a \<noteq> b then Ok (uint a - uint b) else memcmp_loop mem (Suc p) (Suc q) n))"

definition memcmp :: "byte list \<Rightarrow> nat \<Rightarrow> nat \<Rightarrow> uint \<Rightarrow> int outcome" where
  "memcmp mem v1 v2 n = memcmp_loop mem v1 v2 (unat n)"

fun move_up :: "byte list \<Rightarrow> nat \<Rightarrow> nat \<Rightarrow> nat \<Rightarrow> byte list outcome" where
  "move_up mem d s 0 = Ok mem"
| "move_up mem d s (Suc n) =
     bnd (aget mem (int s)) (\<lambda>c. bnd (aset mem (int d) c) (\<lambda>mem. move_up mem (Suc d) (Suc s) n))"

text \<open>The loop that decrements first: \<open>d\<close> and \<open>s\<close> stay the start of the ranges, \<open>n\<close> counts down.\<close>

fun move_down :: "byte list \<Rightarrow> nat \<Rightarrow> nat \<Rightarrow> nat \<Rightarrow> byte list outcome" where
  "move_down mem d s 0 = Ok mem"
| "move_down mem d s (Suc n) =
     bnd (aget mem (int (s + n))) (\<lambda>c. bnd (aset mem (int (d + n)) c) (\<lambda>mem. move_down mem d s n))"

definition memmove :: "byte list \<Rightarrow> nat \<Rightarrow> nat \<Rightarrow> uint \<Rightarrow> byte list outcome" where
  "memmove mem dst src n =
     (if n = 0 then Ok mem
      else if src < dst \<and> src + unat n > dst then move_down mem dst src (unat n)
      else move_up mem dst src (unat n))"

definition memcpy :: "byte list \<Rightarrow> nat \<Rightarrow> nat \<Rightarrow> uint \<Rightarrow> byte list outcome" where
  "memcpy mem dst src n = memmove mem dst src n"

section \<open>String functions\<close>

fun strncmp_loop :: "byte list \<Rightarrow> byte list \<Rightarrow> nat \<Rightarrow> nat \<Rightarrow> int outcome" where
  "strncmp_loop p q i 0 = Ok 0"
| "strncmp_loop p q i (Suc n) =
     bnd (aget p (int i)) (\<lambda>a.
     if a = 0 then bnd (aget q (int i)) (\<lambda>b. Ok (uint a - uint b))
     else bnd (aget q (int i)) (\<lambda>b. if a = b then strncmp_loop p q (Suc i) n else Ok (uint a - uint b)))"

definition strncmp :: "byte list \<Rightarrow> byte list \<Rightarrow> uint \<Rightarrow> int outcome" where
  "strncmp p q n = strncmp_loop p q 0 (unat n)"

text \<open>\<open>while(n-- > 0 && (*s++ = *t++) != 0)\<close>, then the padding loop.\<close>

fun strncpy_loop :: "byte list \<Rightarrow> byte list \<Rightarrow> nat \<Rightarrow> nat \<Rightarrow> byte list outcome" where
  "strncpy_loop s t i 0 = Ok s"
| "strncpy_loop s t i (Suc n) =
     bnd (aget t (int i)) (\<lambda>c. bnd (aset s (int i) c) (\<lambda>s.
     if c \<noteq> 0 then strncpy_loop s t (Suc i) n else memset_loop s (Suc i) 0 n))"

definition strncpy :: "byte list \<Rightarrow> byte list \<Rightarrow> int \<Rightarrow> byte list outcome" where
  "strncpy s t n = strncpy_loop s t 0 (nat n)"

text \<open>\<open>while(--n > 0 && (*s++ = *t++) != 0)\<close>, with \<open>n\<close> the value after the first decrement.\<close>

fun safestrcpy_loop :: "byte list \<Rightarrow> byte list \<Rightarrow> nat \<Rightarrow> nat \<Rightarrow> byte list outcome" where
  "safestrcpy_loop s t i 0 = aset s (int i) 0"
| "safestrcpy_loop s t i (Suc n) =
     bnd (aget t (int i)) (\<lambda>c. bnd (aset s (int i) c) (\<lambda>s.
     if c \<noteq> 0 then safestrcpy_loop s t (Suc i) n else aset s (int (Suc i)) 0))"

definition safestrcpy :: "byte list \<Rightarrow> byte list \<Rightarrow> int \<Rightarrow> byte list outcome" where
  "safestrcpy s t n = (if n \<le> 0 then Ok s else safestrcpy_loop s t 0 (nat (n - 1)))"

fun strlen_loop :: "byte list \<Rightarrow> int \<Rightarrow> int outcome" where
  "strlen_loop [] n = Fault ''read outside array''"
| "strlen_loop (c # s) n = (if c \<noteq> 0 then strlen_loop s (n + 1) else Ok n)"

definition strlen :: "byte list \<Rightarrow> int outcome" where
  "strlen s = strlen_loop s 0"

section \<open>Correctness of the memory functions\<close>

lemma memset_loop_spec:
  "p + n \<le> length mem \<Longrightarrow> memset_loop mem p c n = Ok (patch mem p (replicate n c))"
proof (induction n arbitrary: mem p)
  case 0
  then show ?case by (simp add: patch_def)
next
  case (Suc n)
  have "patch (mem[p := c]) (Suc p) (replicate n c) = patch mem p (replicate (Suc n) c)"
    using Suc.prems by (intro patch_eqI) (auto simp: nth_patch nth_list_update nth_Cons')
  then show ?case using Suc.IH[of "Suc p" "mem[p := c]"] Suc.prems by simp
qed

lemma move_up_spec:
  assumes "d + n \<le> length mem" "s + n \<le> length mem" "d \<le> s \<or> s + n \<le> d"
  shows "move_up mem d s n = Ok (patch mem d (take n (drop s mem)))"
  using assms
proof (induction n arbitrary: mem d s)
  case 0
  then show ?case by (simp add: patch_def)
next
  case (Suc n)
  let ?mem = "mem[d := mem ! s]"
  have "move_up ?mem (Suc d) (Suc s) n = Ok (patch ?mem (Suc d) (take n (drop (Suc s) ?mem)))"
    using Suc.prems by (intro Suc.IH) auto
  moreover have "patch ?mem (Suc d) (take n (drop (Suc s) ?mem)) = patch mem d (take (Suc n) (drop s mem))"
  proof (rule nth_equalityI, goal_cases)
    case 1
    have "Suc d + n \<le> length ?mem" "Suc s + n \<le> length ?mem" using Suc.prems by simp_all
    then show ?case using Suc.prems by (simp only: length_patch_range length_list_update)
  next
    case (2 i)
    then have i: "i < length mem" using Suc.prems by simp
    consider "i < d" | "i = d" | j where "i = Suc (d + j)" by (metis less_imp_Suc_add linorder_neqE_nat)
    then show ?case using Suc.prems i
      by cases (auto simp: nth_patch_range nth_list_update simp del: take_Suc)
  qed
  ultimately show ?case using Suc.prems by simp
qed

lemma move_down_spec:
  assumes "d + n \<le> length mem" "s + n \<le> length mem" "s < d"
  shows "move_down mem d s n = Ok (patch mem d (take n (drop s mem)))"
  using assms
proof (induction n arbitrary: mem)
  case 0
  then show ?case by (simp add: patch_def)
next
  case (Suc n)
  let ?mem = "mem[d + n := mem ! (s + n)]"
  have "move_down ?mem d s n = Ok (patch ?mem d (take n (drop s ?mem)))"
    using Suc.prems by (intro Suc.IH) auto
  moreover have "patch ?mem d (take n (drop s ?mem)) = patch mem d (take (Suc n) (drop s mem))"
  proof (rule nth_equalityI, goal_cases)
    case 1
    have "d + n \<le> length ?mem" "s + n \<le> length ?mem" using Suc.prems by simp_all
    then show ?case using Suc.prems by (simp only: length_patch_range length_list_update)
  next
    case (2 i)
    then have i: "i < length mem" using Suc.prems by simp
    show ?case using Suc.prems i
      by (simp add: nth_patch_range del: take_Suc) (auto simp: nth_list_update less_Suc_eq)
  qed
  ultimately show ?case using Suc.prems by (simp del: of_nat_add)
qed

text \<open>\<open>memmove\<close> copies: afterwards the destination holds what the source held before, and nothing
  else changed, whether or not the two ranges overlap.\<close>

theorem memmove_copies:
  assumes "dst + unat n \<le> length mem" "src + unat n \<le> length mem"
  shows "memmove mem dst src n = Ok (patch mem dst (take (unat n) (drop src mem)))"
  using assms move_up_spec[of dst "unat n" mem src] move_down_spec[of dst "unat n" mem src]
  by (auto simp: memmove_def patch_def)

lemma memcmp_loop_zero:
  assumes "p + n \<le> length mem" "q + n \<le> length mem"
  shows "\<exists>r. memcmp_loop mem p q n = Ok r \<and> (r = 0 \<longleftrightarrow> take n (drop p mem) = take n (drop q mem))"
  using assms
proof (induction n arbitrary: p q)
  case (Suc n)
  have split: "take (Suc n) (drop p mem) = mem ! p # take n (drop (Suc p) mem)" if "p < length mem" for p
    using that by (metis Cons_nth_drop_Suc take_Suc_Cons)
  show ?case using Suc.IH[of "Suc p" "Suc q"] Suc.prems split[of p] split[of q]
    by (auto simp: uint_0_iff[symmetric] word_uint_eq_iff)
qed simp

section \<open>Correctness of the string functions\<close>

definition cstr :: "byte list \<Rightarrow> byte list" where
  "cstr s = takeWhile (\<lambda>c. c \<noteq> 0) s"

lemma strlen_loop_spec: "0 \<in> set s \<Longrightarrow> strlen_loop s n = Ok (n + int (length (cstr s)))"
  by (induction s arbitrary: n) (auto simp: cstr_def)

text \<open>Reading position \<open>i\<close> of a string that does not end before \<open>i\<close>.\<close>

lemma cstr_drop:
  assumes "i < length s" "\<forall>j<i. s ! j \<noteq> 0"
  shows "cstr s = take i s @ cstr (drop i s)"
  using assms
proof (induction i arbitrary: s)
  case (Suc i)
  then obtain c t where s: "s = c # t" by (cases s) auto
  have "c \<noteq> 0" using Suc.prems(2) s by force
  moreover have "cstr t = take i t @ cstr (drop i t)"
    using Suc.prems s by (intro Suc.IH) force+
  ultimately show ?case using s by (simp add: cstr_def)
qed (simp add: cstr_def)

lemma cstr_nth_drop: "i < length s \<Longrightarrow> cstr (drop i s) = (if s ! i = 0 then [] else s ! i # cstr (drop (Suc i) s))"
  by (simp add: cstr_def Cons_nth_drop_Suc[symmetric])

lemma safestrcpy_loop_spec:
  assumes "i + n < length s" "i + n \<le> length t \<or> 0 \<in> set (drop i t)"
  shows "\<exists>s'. safestrcpy_loop s t i n = Ok s' \<and> length s' = length s \<and> take i s' = take i s \<and>
    cstr (drop i s') = take n (cstr (drop i t))"
  using assms
proof (induction n arbitrary: i s)
  case 0
  then have "cstr (drop i (s[i := 0])) = []" by (simp add: cstr_nth_drop)
  then show ?case using 0 by simp
next
  case (Suc n)
  have i: "i < length t" using Suc.prems(2) by (cases "i < length t") auto
  let ?s = "s[i := t ! i]"
  show ?case
  proof (cases "t ! i = 0")
    case True
    have "cstr (drop i (?s[Suc i := 0])) = []" using True Suc.prems(1) by (simp add: cstr_nth_drop)
    then show ?thesis using True Suc.prems(1) i by (simp add: cstr_nth_drop)
  next
    case False
    have "0 \<in> set (drop (Suc i) t)" if "0 \<in> set (drop i t)"
      using that False i by (simp add: Cons_nth_drop_Suc[symmetric])
    then obtain s' where s': "safestrcpy_loop ?s t (Suc i) n = Ok s'" "length s' = length s" "take (Suc i) s' = take (Suc i) ?s"
        "cstr (drop (Suc i) s') = take n (cstr (drop (Suc i) t))"
      using Suc.IH[of "Suc i" ?s] Suc.prems by auto
    have "s' ! i = t ! i" using arg_cong[OF s'(3), of "\<lambda>xs. xs ! i"] Suc.prems(1) by simp
    moreover have "take i s' = take i s" using arg_cong[OF s'(3), of "take i"] by simp
    ultimately show ?thesis using s' False Suc.prems(1) i by (simp add: cstr_nth_drop)
  qed
qed

text \<open>\<open>safestrcpy\<close> always leaves a terminated string in the destination: the source string cut to
  \<open>n - 1\<close> characters.\<close>

theorem safestrcpy_terminates:
  assumes "0 < n" "nat n \<le> length s" "nat n \<le> Suc (length t) \<or> 0 \<in> set t"
  shows "\<exists>s'. safestrcpy s t n = Ok s' \<and> length s' = length s \<and> 0 \<in> set s' \<and> cstr s' = take (nat n - 1) (cstr t)"
proof -
  have n: "0 + nat (n - 1) < length s" "0 + nat (n - 1) \<le> length t \<or> 0 \<in> set (drop 0 t)"
    using assms by auto
  obtain s' where s': "safestrcpy_loop s t 0 (nat (n - 1)) = Ok s'" "length s' = length s"
      "cstr s' = take (nat (n - 1)) (cstr t)"
    using safestrcpy_loop_spec[OF n] by auto
  have "length (cstr s') < length s'" using s' assms by simp
  moreover have "cstr s' = s'" if "0 \<notin> set s'" unfolding cstr_def takeWhile_eq_all_conv using that by metis
  ultimately have "0 \<in> set s'" by fastforce
  then show ?thesis using s' assms by (simp add: safestrcpy_def nat_diff_distrib)
qed

lemma strncpy_loop_spec:
  assumes "i + n \<le> length s" "i + n \<le> length t \<or> 0 \<in> set (drop i t)"
  shows "strncpy_loop s t i n = Ok (patch s i (take n (cstr (drop i t) @ replicate n 0)))"
  using assms
proof (induction n arbitrary: i s)
  case 0
  then show ?case by (simp add: patch_def)
next
  case (Suc n)
  have i: "i < length t" using Suc.prems(2) by (cases "i < length t") auto
  let ?s = "s[i := t ! i]"
  show ?case
  proof (cases "t ! i = 0")
    case True
    have "patch ?s (Suc i) (replicate n 0) = patch s i (0 # replicate n 0)"
      using True Suc.prems(1) by (intro patch_eqI) (auto simp: nth_patch nth_list_update nth_Cons')
    then show ?thesis using True Suc.prems(1) i memset_loop_spec[of "Suc i" n ?s 0]
      by (simp add: cstr_nth_drop)
  next
    case False
    let ?xs = "take n (cstr (drop (Suc i) t) @ replicate n 0)"
    have "0 \<in> set (drop (Suc i) t)" if "0 \<in> set (drop i t)"
      using that False i by (simp add: Cons_nth_drop_Suc[symmetric])
    then have "strncpy_loop ?s t (Suc i) n = Ok (patch ?s (Suc i) ?xs)"
      using Suc.prems by (intro Suc.IH) auto
    moreover have "patch ?s (Suc i) ?xs = patch s i (t ! i # ?xs)"
      using Suc.prems(1) by (intro patch_eqI) (auto simp: nth_patch nth_list_update nth_Cons')
    moreover have "take (Suc n) (cstr (drop i t) @ replicate (Suc n) 0) = t ! i # ?xs"
      using False i by (simp add: cstr_nth_drop take_append take_Cons' replicate_append_same[symmetric] del: replicate_Suc)
    ultimately show ?thesis using False Suc.prems(1) i by simp
  qed
qed

text \<open>\<open>strncpy\<close> writes exactly \<open>n\<close> bytes, the source string padded with zeros; a source of \<open>n\<close> or
  more characters leaves no terminator.\<close>

theorem strncpy_pads:
  assumes "nat n \<le> length s" "nat n \<le> length t \<or> 0 \<in> set t"
  shows "strncpy s t n = Ok (take (nat n) (cstr t @ replicate (nat n) 0) @ drop (nat n) s)"
proof -
  have "length (take (nat n) (cstr t @ replicate (nat n) 0)) = nat n" by simp
  then show ?thesis using strncpy_loop_spec[of 0 "nat n" s t] assms
    by (simp add: strncpy_def patch_def del: take_append length_take length_append)
qed

lemma strncmp_loop_spec:
  assumes "i + n \<le> length p \<or> 0 \<in> set (drop i p)" "i + n \<le> length q \<or> 0 \<in> set (drop i q)"
  shows "\<exists>r. strncmp_loop p q i n = Ok r \<and> (r = 0 \<longleftrightarrow> take n (cstr (drop i p)) = take n (cstr (drop i q)))"
  using assms
proof (induction n arbitrary: i)
  case (Suc n)
  have i: "i < length p" "i < length q"
    using Suc.prems by (cases "i < length p"; cases "i < length q"; auto)+
  have tl: "0 \<in> set (drop (Suc i) xs)" if "0 \<in> set (drop i xs)" "xs ! i \<noteq> 0" "i < length xs" for xs :: "byte list"
    using that by (simp add: Cons_nth_drop_Suc[symmetric])
  show ?case
  proof (cases "p ! i = q ! i \<and> p ! i \<noteq> 0")
    case True
    then show ?thesis using Suc.IH[of "Suc i"] Suc.prems i tl[of p] tl[of q] by (auto simp: cstr_nth_drop)
  next
    case False
    then show ?thesis using i by (auto simp: cstr_nth_drop word_uint_eq_iff)
  qed
qed simp

text \<open>\<open>strncmp\<close> is zero exactly when the two strings agree on their first \<open>n\<close> characters.\<close>

theorem strncmp_zero_iff:
  assumes "unat n \<le> length p \<or> 0 \<in> set p" "unat n \<le> length q \<or> 0 \<in> set q"
  shows "\<exists>r. strncmp p q n = Ok r \<and> (r = 0 \<longleftrightarrow> take (unat n) (cstr p) = take (unat n) (cstr q))"
  using strncmp_loop_spec[of 0 "unat n" p q] assms by (simp add: strncmp_def)

lemma strlen_correct: "0 \<in> set s \<Longrightarrow> strlen s = Ok (int (length (cstr s)))"
  using strlen_loop_spec[of s 0] by (simp add: strlen_def)

section \<open>Examples\<close>

theorem memmove_copies_witness: "memmove [1, 2, 3, 4, 5] 1 0 3 = Ok [1, 1, 2, 3, 5]"
  using memmove_copies[of 1 3 "[1, 2, 3, 4, 5]" 0] by (simp add: patch_def)

theorem safestrcpy_terminates_witness:
  "\<exists>s'. safestrcpy [9, 9, 9] [104, 105, 106, 0] 3 = Ok s' \<and> 0 \<in> set s' \<and> cstr s' = [104, 105]"
  using safestrcpy_terminates[of 3 "[9, 9, 9]" "[104, 105, 106, 0]"] by (auto simp: cstr_def)

theorem strncpy_pads_witness: "strncpy [9, 9, 9, 9] [104, 0, 7] 3 = Ok [104, 0, 0, 9]"
  using strncpy_pads[of 3 "[9, 9, 9, 9]" "[104, 0, 7]"] by (simp add: cstr_def) (simp add: numeral_2_eq_2)

theorem strncmp_zero_iff_witness: "\<exists>r. strncmp [104, 105, 0] [104, 106, 0] 2 = Ok r \<and> r \<noteq> 0"
  using strncmp_zero_iff[of 2 "[104, 105, 0]" "[104, 106, 0]"] by (auto simp: cstr_def)

end
