(* ===== verification/Kernel_Bytes.thy ===== *)
theory Kernel_Bytes
  imports Kernel_String
begin

text \<open>
  Machine words in byte arrays. Structures that the kernel overlays on a disk block or a memory
  page (log header, superblock, inode, directory entry, page-table entry, free-list link) are read
  and written through these little-endian accessors at their field offsets.
\<close>

unbundle bit_operations_syntax

fun word_of_bytes :: "byte list \<Rightarrow> 'a::len word" where
  "word_of_bytes [] = 0"
| "word_of_bytes (b # bs) = ucast b OR push_bit 8 (word_of_bytes bs)"

fun bytes_of_word :: "nat \<Rightarrow> 'a::len word \<Rightarrow> byte list" where
  "bytes_of_word 0 w = []"
| "bytes_of_word (Suc n) w = ucast w # bytes_of_word n (drop_bit 8 w)"

lemma length_bytes_of_word [simp]: "length (bytes_of_word n w) = n"
  by (induction n arbitrary: w) simp_all

lemma word_of_bytes_of_word: "word_of_bytes (bytes_of_word n w) = take_bit (8 * n) (w :: 'a::len word)"
proof (induction n arbitrary: w)
  case (Suc n)
  have "ucast (ucast w :: byte) OR push_bit 8 (take_bit (8 * n) (drop_bit 8 w)) = take_bit (8 + 8 * n) w"
    by (rule bit_word_eqI)
      (auto simp: bit_or_iff bit_push_bit_iff bit_take_bit_iff bit_drop_bit_eq bit_unsigned_iff)
  then show ?case using Suc by simp
qed simp

text \<open>Reading and writing the \<open>n\<close>-byte word at offset \<open>off\<close>.\<close>

definition get_le :: "nat \<Rightarrow> byte list \<Rightarrow> nat \<Rightarrow> 'a::len word" where
  "get_le n d off = word_of_bytes (take n (drop off d))"

definition put_le :: "nat \<Rightarrow> byte list \<Rightarrow> nat \<Rightarrow> 'a::len word \<Rightarrow> byte list" where
  "put_le n d off w = patch d off (bytes_of_word n w)"

abbreviation get16 :: "byte list \<Rightarrow> nat \<Rightarrow> uint16" where "get16 \<equiv> get_le 2"
abbreviation get32 :: "byte list \<Rightarrow> nat \<Rightarrow> uint" where "get32 \<equiv> get_le 4"
abbreviation get64 :: "byte list \<Rightarrow> nat \<Rightarrow> uint64" where "get64 \<equiv> get_le 8"
abbreviation put16 :: "byte list \<Rightarrow> nat \<Rightarrow> uint16 \<Rightarrow> byte list" where "put16 \<equiv> put_le 2"
abbreviation put32 :: "byte list \<Rightarrow> nat \<Rightarrow> uint \<Rightarrow> byte list" where "put32 \<equiv> put_le 4"
abbreviation put64 :: "byte list \<Rightarrow> nat \<Rightarrow> uint64 \<Rightarrow> byte list" where "put64 \<equiv> put_le 8"

lemma length_put_le [simp]: "off + n \<le> length d \<Longrightarrow> length (put_le n d off w) = length d"
  by (simp add: put_le_def)

lemma take_drop_patch_same:
  "off + length xs \<le> length d \<Longrightarrow> take (length xs) (drop off (patch d off xs)) = xs"
  by (simp add: patch_def)

lemma take_drop_patch_other:
  assumes "off + length xs \<le> length d" "off' + m \<le> off \<or> off + length xs \<le> off'" "off' + m \<le> length d"
  shows "take m (drop off' (patch d off xs)) = take m (drop off' d)"
  using assms by (intro nth_equalityI) (auto simp: nth_patch)

lemma get_put_same:
  assumes "off + n \<le> length d"
  shows "get_le n (put_le n d off w) off = take_bit (8 * n) (w :: 'a::len word)"
  using take_drop_patch_same[of off "bytes_of_word n w" d] assms
  by (simp add: get_le_def put_le_def word_of_bytes_of_word)

lemma get_put_word [simp]:
  "off + 2 \<le> length d \<Longrightarrow> get16 (put16 d off w2) off = w2"
  "off + 4 \<le> length d \<Longrightarrow> get32 (put32 d off w4) off = w4"
  "off + 8 \<le> length d \<Longrightarrow> get64 (put64 d off w8) off = w8"
  using get_put_same[of off 2 d w2] get_put_same[of off 4 d w4] get_put_same[of off 8 d w8]
  by (simp_all add: take_bit_word_eq_self)

lemma get_put_other:
  assumes "off + n \<le> length d" "off' + m \<le> off \<or> off + n \<le> off'" "off' + m \<le> length d"
  shows "get_le m (put_le n d off w) off' = get_le m d off'"
  using take_drop_patch_other[of off "bytes_of_word n w" d off' m] assms
  by (simp add: get_le_def put_le_def)

text \<open>Aligned words of an array of words.\<close>

lemma get_put_slot:
  assumes "n * Suc i \<le> length d" "n * Suc j \<le> length d" "i \<noteq> j"
  shows "get_le n (put_le n d (n * i) w) (n * j) = get_le n d (n * j)"
proof (rule get_put_other)
  show "n * j + n \<le> n * i \<or> n * i + n \<le> n * j"
    using assms(3) mult_le_mono2[of "Suc j" i n] mult_le_mono2[of "Suc i" j n] by (cases "i < j") auto
qed (use assms in simp_all)

lemma get_le_zero: "off + n \<le> length d \<Longrightarrow> set d \<subseteq> {0} \<Longrightarrow> get_le n d off = (0 :: 'a::len word)"
proof -
  assume "off + n \<le> length d" "set d \<subseteq> {0}"
  then have "set (take n (drop off d)) \<subseteq> {0}" by (meson dual_order.trans set_drop_subset set_take_subset)
  moreover have "word_of_bytes bs = (0 :: 'a word)" if "set bs \<subseteq> {0}" for bs
    using that by (induction bs) simp_all
  ultimately show ?thesis unfolding get_le_def by blast
qed

end
