(* ===== verification/Riscv_Layout.thy ===== *)
theory Riscv_Layout
  imports Kernel_Bytes
begin

text \<open>
  The page-size and page-table macros of \<open>kernel/riscv.h\<close> and the address map of
  \<open>kernel/memlayout.h\<close>, with the bit-level facts the memory components use.
\<close>

unbundle bit_operations_syntax

section \<open>Macros\<close>

definition PGSIZE :: uint64 where "PGSIZE = 4096"

definition PGROUNDUP :: "uint64 \<Rightarrow> uint64" where
  "PGROUNDUP sz = (sz + PGSIZE - 1) AND NOT (PGSIZE - 1)"

definition PGROUNDDOWN :: "uint64 \<Rightarrow> uint64" where
  "PGROUNDDOWN a = a AND NOT (PGSIZE - 1)"

definition PTE_V :: uint64 where "PTE_V = 1"
definition PTE_R :: uint64 where "PTE_R = 2"
definition PTE_W :: uint64 where "PTE_W = 4"
definition PTE_X :: uint64 where "PTE_X = 8"
definition PTE_U :: uint64 where "PTE_U = 16"

lemmas PTE_bits = PTE_V_def PTE_R_def PTE_W_def PTE_X_def PTE_U_def

definition PA2PTE :: "uint64 \<Rightarrow> uint64" where
  "PA2PTE pa = push_bit 10 (drop_bit 12 pa)"

definition PTE2PA :: "uint64 \<Rightarrow> uint64" where
  "PTE2PA pte = push_bit 12 (drop_bit 10 pte)"

definition PTE_FLAGS :: "uint64 \<Rightarrow> uint64" where
  "PTE_FLAGS pte = pte AND 0x3FF"

definition PXSHIFT :: "nat \<Rightarrow> nat" where
  "PXSHIFT level = 12 + 9 * level"

definition PX :: "nat \<Rightarrow> uint64 \<Rightarrow> nat" where
  "PX level va = unat (drop_bit (PXSHIFT level) va AND 0x1FF)"

definition MAXVA :: uint64 where "MAXVA = push_bit 38 1"

definition UART0 :: uint64 where "UART0 = 0x10000000"
definition VIRTIO0 :: uint64 where "VIRTIO0 = 0x10001000"
definition PLIC :: uint64 where "PLIC = 0x0c000000"
definition KERNBASE :: uint64 where "KERNBASE = 0x80000000"
definition PHYSTOP :: uint64 where "PHYSTOP = KERNBASE + 128 * 1024 * 1024"
definition TRAMPOLINE :: uint64 where "TRAMPOLINE = MAXVA - PGSIZE"
definition TRAPFRAME :: uint64 where "TRAPFRAME = TRAMPOLINE - PGSIZE"

definition KSTACK :: "nat \<Rightarrow> uint64" where
  "KSTACK p = TRAMPOLINE - of_nat ((p + 1) * 2) * PGSIZE"

section \<open>Rounding\<close>

lemma page_align: "(x :: uint64) AND - 4096 = x div 4096 * 4096"
proof -
  have m: "(- 4096 :: uint64) = NOT (mask 12)" by (simp add: mask_eq_exp_minus_1)
  have "x AND NOT (mask 12) = push_bit 12 (drop_bit 12 x)"
    by (rule bit_word_eqI) (auto simp: bit_and_iff bit_not_iff bit_mask_iff bit_push_bit_iff bit_drop_bit_eq)
  then show ?thesis unfolding m by (simp add: push_bit_eq_mult drop_bit_eq_div)
qed

lemma PHYSTOP_val: "PHYSTOP = 0x88000000"
  by (simp add: PHYSTOP_def KERNBASE_def)

lemma MAXVA_val: "MAXVA = 0x4000000000"
  by (simp add: MAXVA_def)

lemma PGROUNDUP_div: "PGROUNDUP sz = (sz + 4095) div 4096 * 4096"
  by (simp add: PGROUNDUP_def PGSIZE_def page_align[symmetric] add.commute)

lemma PGROUNDDOWN_div: "PGROUNDDOWN a = a div 4096 * 4096"
  by (simp add: PGROUNDDOWN_def PGSIZE_def page_align[symmetric])

lemma unat_of_nat_small: "n < 2 ^ 64 \<Longrightarrow> unat (of_nat n :: uint64) = n"
  by (simp only: unsigned_of_nat) (simp add: take_bit_nat_eq_self)

lemma unat_PGROUNDDOWN: "unat (PGROUNDDOWN a) = unat a div 4096 * 4096"
proof -
  have d: "unat (a div 4096) = unat a div 4096" by (simp add: unat_div_distrib)
  have "unat a div 4096 * 4096 < 2 ^ 64"
    using unsigned_less[of a, where ?'a = nat] div_times_less_eq_dividend[of "unat a" 4096] by simp
  then have "unat (a div 4096 * 4096) = unat (a div 4096) * unat (4096 :: uint64)"
    using unat_mult_lem[of "a div 4096" 4096] d by simp
  then show ?thesis by (simp add: PGROUNDDOWN_div d)
qed

section \<open>Page-table entries\<close>

lemma PTE2PA_PA2PTE:
  assumes "pa mod 4096 = 0" "pa < 2 ^ 54" "flags < 1024"
  shows "PTE2PA (PA2PTE pa OR flags) = pa" "PTE_FLAGS (PA2PTE pa OR flags) = flags"
proof -
  have low: "\<not> bit pa i" if "i < 12" for i
  proof -
    have "take_bit 12 pa = 0" using assms(1) by (simp add: take_bit_eq_mod)
    then show ?thesis using that bit_take_bit_iff[of 12 pa i] by simp
  qed
  have high: "\<not> bit flags i" if "i \<ge> 10" for i
  proof -
    have "take_bit 10 flags = flags" using assms(3) by (simp add: take_bit_eq_mod mod_word_less)
    then show ?thesis using that bit_take_bit_iff[of 10 flags i] by simp
  qed
  have top: "\<not> bit pa i" if "i \<ge> 54" for i
  proof -
    have "take_bit 54 pa = pa" using assms(2) by (simp add: take_bit_eq_mod mod_word_less)
    then show ?thesis using that bit_take_bit_iff[of 54 pa i] by simp
  qed
  show "PTE2PA (PA2PTE pa OR flags) = pa"
    unfolding PTE2PA_def PA2PTE_def
  proof (rule bit_word_eqI)
    fix n assume n: "n < LENGTH(64)"
    show "bit (push_bit 12 (drop_bit 10 (push_bit 10 (drop_bit 12 pa) OR flags))) n = bit pa n"
    proof (cases "n < 12")
      case True
      then show ?thesis using low[of n] by (simp add: bit_push_bit_iff bit_or_iff)
    next
      case False
      then show ?thesis using n high[of "10 + (n - 12)"] top[of n]
        by (auto simp: bit_or_iff bit_push_bit_iff bit_drop_bit_eq)
    qed
  qed
  have m: "(0x3FF :: uint64) = mask 10" by (simp add: mask_eq_exp_minus_1)
  show "PTE_FLAGS (PA2PTE pa OR flags) = flags"
    unfolding PTE_FLAGS_def PA2PTE_def m
    by (rule bit_word_eqI)
      (use high in \<open>auto simp: bit_and_iff bit_or_iff bit_mask_iff bit_push_bit_iff bit_drop_bit_eq not_less[symmetric]\<close>)
qed

lemma PX_less: "PX level va < 512"
proof -
  have m: "(0x1FF :: uint64) = mask 9" by (simp add: mask_eq_exp_minus_1)
  have "drop_bit (PXSHIFT level) va AND 0x1FF < 512"
    unfolding m take_bit_eq_mask[symmetric] by (simp add: take_bit_eq_mod word_mod_less_divisor)
  then show ?thesis by (simp add: PX_def word_less_nat_alt)
qed

end
