(* ===== verification/Kalloc.thy ===== *)
theory Kalloc
  imports Riscv_Layout
begin

text \<open>
  The physical page allocator of \<open>kernel/kalloc.c\<close>. Physical memory is a map from page addresses to
  the 4096 bytes of the page. A free page holds the pointer to the next free page in its first
  eight bytes, so the free list lives in the pages themselves. \<open>end\<close>, the first address after the
  kernel, comes from the linker and is an argument \<open>kend\<close>.
\<close>

section \<open>State and operations\<close>

record kmem =
  km_mem :: "uint64 \<Rightarrow> byte list"
  km_freelist :: uint64

text \<open>\<open>memset(pa, c, PGSIZE)\<close> on a whole page.\<close>

definition fill_page :: "byte \<Rightarrow> uint64 \<Rightarrow> kmem \<Rightarrow> kmem" where
  "fill_page c pa k = k\<lparr>km_mem := (km_mem k)(pa := replicate 4096 c)\<rparr>"

definition run_next :: "kmem \<Rightarrow> uint64 \<Rightarrow> uint64" where
  "run_next k r = get64 (km_mem k r) 0"

definition kfree :: "uint64 \<Rightarrow> uint64 \<Rightarrow> kmem \<Rightarrow> kmem outcome" where
  "kfree kend pa k =
     (if pa mod PGSIZE \<noteq> 0 \<or> pa < kend \<or> pa \<ge> PHYSTOP then Panic ''kfree''
      else
        let k = fill_page 1 pa k;
            k = k\<lparr>km_mem := (km_mem k)(pa := put64 (km_mem k pa) 0 (km_freelist k))\<rparr>
        in Ok (k\<lparr>km_freelist := pa\<rparr>))"

definition kalloc :: "kmem \<Rightarrow> uint64 \<times> kmem" where
  "kalloc k =
     (let r = km_freelist k in
      if r \<noteq> 0 then (r, fill_page 5 r (k\<lparr>km_freelist := run_next k r\<rparr>))
      else (r, k))"

text \<open>
  The loop of \<open>freerange\<close> runs while \<open>p + PGSIZE <= pa_end\<close>; the guard against wrap-around of \<open>p\<close> is only
  for the termination proof, since \<open>pa_end\<close> is \<open>PHYSTOP\<close>.
\<close>

function freerange_loop :: "uint64 \<Rightarrow> uint64 \<Rightarrow> uint64 \<Rightarrow> kmem \<Rightarrow> kmem outcome" where
  "freerange_loop kend p pa_end k =
     (if p + PGSIZE \<le> pa_end then
        bnd (kfree kend p k) (\<lambda>k. if p + PGSIZE \<le> p then Diverge else freerange_loop kend (p + PGSIZE) pa_end k)
      else Ok k)"
  by pat_completeness auto
termination
proof (relation "measure (\<lambda>(kend, p, pa_end, k). 2 ^ 64 - unat p)", goal_cases)
  case (2 kend p pa_end k k')
  then have "unat p < unat (p + PGSIZE)" by (simp add: word_less_nat_alt not_le)
  then show ?case using unsigned_less[of "p + PGSIZE", where ?'a = nat] by simp
qed simp

declare freerange_loop.simps [simp del]

definition freerange :: "uint64 \<Rightarrow> uint64 \<Rightarrow> uint64 \<Rightarrow> kmem \<Rightarrow> kmem outcome" where
  "freerange kend pa_start pa_end k = freerange_loop kend (PGROUNDUP pa_start) pa_end k"

definition kinit :: "uint64 \<Rightarrow> kmem \<Rightarrow> kmem outcome" where
  "kinit kend k = freerange kend kend PHYSTOP k"

text \<open>The walk over the free list may not end on a corrupted list; not returning is \<open>None\<close>.\<close>

partial_function (option) free_walk :: "kmem \<Rightarrow> uint64 \<Rightarrow> uint64 \<Rightarrow> uint64 option" where
  "free_walk k p sz = (if p = 0 then Some sz else free_walk k (run_next k p) (sz + PGSIZE))"

definition kfree_memory :: "kmem \<Rightarrow> uint64 option" where
  "kfree_memory k = free_walk k (km_freelist k) 0"

section \<open>The free list\<close>

text \<open>The pages met when following the list from \<open>p\<close>.\<close>

fun free_list :: "kmem \<Rightarrow> uint64 \<Rightarrow> uint64 list \<Rightarrow> bool" where
  "free_list k p [] \<longleftrightarrow> p = 0"
| "free_list k p (q # qs) \<longleftrightarrow> p = q \<and> q \<noteq> 0 \<and> free_list k (run_next k q) qs"

definition page_ok :: "uint64 \<Rightarrow> uint64 \<Rightarrow> bool" where
  "page_ok kend pa \<longleftrightarrow> pa mod PGSIZE = 0 \<and> kend \<le> pa \<and> pa < PHYSTOP"

definition kmem_inv :: "uint64 \<Rightarrow> kmem \<Rightarrow> uint64 list \<Rightarrow> bool" where
  "kmem_inv kend k ps \<longleftrightarrow> free_list k (km_freelist k) ps \<and> distinct ps \<and> (\<forall>p\<in>set ps. page_ok kend p)"

lemma free_list_other:
  assumes "free_list k p ps" "q \<notin> set ps" "\<forall>r. r \<noteq> q \<longrightarrow> km_mem k' r = km_mem k r"
  shows "free_list k' p ps"
  using assms by (induction ps arbitrary: p) (auto simp: run_next_def)

lemma kfree_pushes:
  assumes "kmem_inv kend k ps" "page_ok kend pa" "pa \<notin> set ps" "pa \<noteq> 0"
  shows "\<exists>k'. kfree kend pa k = Ok k' \<and> kmem_inv kend k' (pa # ps)"
proof -
  let ?k = "k\<lparr>km_mem := (km_mem k)(pa := put64 (replicate 4096 1) 0 (km_freelist k)), km_freelist := pa\<rparr>"
  have "kfree kend pa k = Ok ?k"
    using assms(2) by (auto simp: kfree_def page_ok_def fill_page_def Let_def)
  moreover have "run_next ?k pa = km_freelist k" by (simp add: run_next_def)
  moreover have "free_list k (km_freelist k) ps" using assms(1) by (simp add: kmem_inv_def)
  then have "free_list ?k (km_freelist k) ps" by (rule free_list_other[OF _ assms(3)]) simp
  ultimately show ?thesis using assms by (auto simp: kmem_inv_def)
qed

lemma kalloc_pops:
  assumes "kmem_inv kend k (p # ps)"
  shows "\<exists>k'. kalloc k = (p, k') \<and> kmem_inv kend k' ps \<and> km_mem k' p = replicate 4096 5"
proof -
  let ?k = "fill_page 5 p (k\<lparr>km_freelist := run_next k p\<rparr>)"
  have k: "kalloc k = (p, ?k)" using assms by (auto simp: kalloc_def kmem_inv_def Let_def)
  have ps: "free_list k (run_next k p) ps" "p \<notin> set ps" using assms by (simp_all add: kmem_inv_def)
  have "free_list ?k (run_next k p) ps" by (rule free_list_other[OF ps]) (simp add: fill_page_def)
  then have "kmem_inv kend ?k ps" "km_mem ?k p = replicate 4096 5"
    using assms by (simp_all add: kmem_inv_def fill_page_def)
  then show ?thesis using k by blast
qed

lemma kalloc_empty: "kmem_inv kend k [] \<Longrightarrow> kalloc k = (0, k)"
  by (simp add: kmem_inv_def kalloc_def)

lemma free_walk_counts: "free_list k p ps \<Longrightarrow> free_walk k p n = Some (n + of_nat (length ps) * PGSIZE)"
  by (induction ps arbitrary: p n) (auto simp: free_walk.simps algebra_simps)

section \<open>Initialisation\<close>

text \<open>The pages \<open>freerange\<close> frees, by page number.\<close>

definition all_pages :: "uint64 \<Rightarrow> uint64 set" where
  "all_pages kend = {q. page_ok kend q}"

lemma word_page:
  assumes "n * 4096 \<le> 0x88000000"
  shows "unat (of_nat (n * 4096) :: uint64) = n * 4096"
  using assms by (simp only: unsigned_of_nat) (simp add: take_bit_nat_eq_self)

lemma page_ok_number:
  assumes "page_ok kend q"
  shows "\<exists>n. q = of_nat (n * 4096) \<and> n * 4096 < 0x88000000 \<and> unat kend \<le> n * 4096"
proof -
  have "unat (q mod PGSIZE) = 0" using assms by (simp add: page_ok_def)
  then have "unat q mod 4096 = 0" by (simp add: unat_mod_distrib PGSIZE_def)
  then obtain n where "unat q = n * 4096" by (metis mod_0_imp_dvd dvd_def mult.commute)
  moreover then have "q = of_nat (n * 4096)" by (metis of_nat_unat ucast_id)
  ultimately show ?thesis using assms by (auto simp: page_ok_def PHYSTOP_val word_less_nat_alt word_le_nat_alt)
qed

lemma page_ok_of_number:
  assumes "n * 4096 < 0x88000000" "unat kend \<le> n * 4096"
  shows "page_ok kend (of_nat (n * 4096))"
proof -
  let ?q = "of_nat (n * 4096) :: uint64"
  have q: "unat ?q = n * 4096" using assms(1) by (intro word_page) simp
  have "unat (?q mod PGSIZE) = 0" using q by (simp add: unat_mod_distrib PGSIZE_def del: of_nat_mult)
  then have "?q mod PGSIZE = 0" by (simp only: unat_eq_0)
  then show ?thesis using assms q unfolding page_ok_def PHYSTOP_val word_less_nat_alt word_le_nat_alt by simp
qed

lemma freerange_loop_frees:
  assumes "n + d = 0x88000" "kmem_inv kend k ps" "unat kend \<le> n * 4096" "0 < n"
    "\<forall>q\<in>set ps. unat q < n * 4096"
  shows "\<exists>k' ps'. freerange_loop kend (of_nat (n * 4096)) PHYSTOP k = Ok k' \<and> kmem_inv kend k' ps' \<and>
    set ps' = set ps \<union> (\<lambda>j. of_nat (j * 4096)) ` {n..<0x88000}"
  using assms
proof (induction d arbitrary: n k ps)
  case 0
  let ?p = "of_nat (n * 4096) :: uint64"
  have "n = 0x88000" using 0(1) by simp
  then have "\<not> ?p + PGSIZE \<le> PHYSTOP" by (simp add: PGSIZE_def PHYSTOP_val)
  then have "freerange_loop kend ?p PHYSTOP k = Ok k" by (subst freerange_loop.simps) simp
  then show ?case using 0 by auto
next
  case (Suc d)
  let ?p = "of_nat (n * 4096) :: uint64" and ?q = "of_nat (Suc n * 4096) :: uint64"
  have n: "n < 0x88000" using Suc.prems(1) by simp
  have p: "unat ?p = n * 4096" and q: "unat ?q = Suc n * 4096" using n by (intro word_page; simp)+
  have nxt: "?p + PGSIZE = ?q" by (simp add: PGSIZE_def algebra_simps)
  have "page_ok kend ?p" using n Suc.prems(3) by (intro page_ok_of_number) simp_all
  moreover have "?p \<notin> set ps" "?p \<noteq> 0" using Suc.prems(4,5) p by (auto simp: unat_eq_zero)
  ultimately obtain k1 where k1: "kfree kend ?p k = Ok k1" "kmem_inv kend k1 (?p # ps)"
    using kfree_pushes[OF Suc.prems(2)] by blast
  have "?q \<le> PHYSTOP" "\<not> ?q \<le> ?p" using n p q by (simp_all add: PHYSTOP_val word_le_nat_alt del: of_nat_mult of_nat_Suc)
  then have step: "freerange_loop kend ?p PHYSTOP k = freerange_loop kend ?q PHYSTOP k1"
    using k1(1) unfolding freerange_loop.simps[of kend ?p] nxt by (simp only: if_True if_False bnd.simps)
  have "\<exists>k' ps'. freerange_loop kend ?q PHYSTOP k1 = Ok k' \<and> kmem_inv kend k' ps' \<and>
      set ps' = set (?p # ps) \<union> (\<lambda>j. of_nat (j * 4096)) ` {Suc n..<0x88000}"
    using Suc.prems k1(2) p by (intro Suc.IH) (auto simp del: of_nat_mult)
  moreover have "{n..<0x88000} = insert n {Suc n..<0x88000}" using n by auto
  ultimately show ?case unfolding step by auto
qed

text \<open>C36: After \<open>kinit\<close> the free list holds every whole page between the end of the kernel and
  \<open>PHYSTOP\<close>, each exactly once.\<close>

theorem kinit_frees_all_pages:
  assumes "0 < kend" "kend \<le> PHYSTOP" "km_freelist k = 0"
  shows "\<exists>k' ps. kinit kend k = Ok k' \<and> kmem_inv kend k' ps \<and> set ps = all_pages kend"
proof -
  define n where "n = (unat kend + 4095) div 4096"
  have bound: "unat kend \<le> 0x88000000" using assms(2) by (simp add: PHYSTOP_val word_le_nat_alt)
  have up: "PGROUNDUP kend = of_nat (n * 4096)"
  proof -
    have "unat (kend + 4095) = unat kend + 4095"
      using bound by (subst unat_add_lem[THEN iffD1]) simp_all
    then have "unat ((kend + 4095) div 4096) = n" by (simp add: unat_div_distrib n_def)
    then have "(kend + 4095) div 4096 = of_nat n" by (metis of_nat_unat ucast_id)
    then show ?thesis by (simp add: PGROUNDUP_div)
  qed
  have "unat kend > 0" using assms(1) by (simp add: word_less_nat_alt)
  then have n: "0 < n" "unat kend \<le> n * 4096" "n \<le> 0x88000" "n * 4096 < unat kend + 4096"
    using bound by (auto simp: n_def)
  obtain d where d: "n + d = 0x88000" using n(3) le_Suc_ex by metis
  have "kmem_inv kend k []" using assms(3) by (simp add: kmem_inv_def)
  then obtain k' ps where r: "freerange_loop kend (of_nat (n * 4096)) PHYSTOP k = Ok k'" "kmem_inv kend k' ps"
      "set ps = (\<lambda>j. of_nat (j * 4096)) ` {n..<0x88000}"
    using freerange_loop_frees[OF d _ n(2,1), of k "[]"] by auto
  have "all_pages kend \<subseteq> set ps"
  proof
    fix q assume "q \<in> all_pages kend"
    then obtain j where j: "q = of_nat (j * 4096)" "j * 4096 < 0x88000000" "unat kend \<le> j * 4096"
      using page_ok_number[of kend q] by (auto simp: all_pages_def)
    then have "n \<le> j" using n(4) by simp
    then show "q \<in> set ps" using r(3) j(1,2) by auto
  qed
  moreover have "set ps \<subseteq> all_pages kend" using r(2) by (auto simp: all_pages_def kmem_inv_def)
  ultimately show ?thesis using r(1,2) by (auto simp: kinit_def freerange_def up)
qed

text \<open>\<open>kalloc\<close> returns null exactly when no page is free; otherwise it returns a page-aligned
  page of the managed range that is then no longer on the free list, so two allocations without
  an intervening \<open>kfree\<close> never return the same page.\<close>

theorem kalloc_takes_free_page:
  assumes "kmem_inv kend k ps"
  shows "(if ps = [] then kalloc k = (0, k)
     else \<exists>p k' ps'. kalloc k = (p, k') \<and> page_ok kend p \<and> p \<in> set ps \<and> p \<notin> set ps' \<and> kmem_inv kend k' ps' \<and>
       set ps = insert p (set ps'))"
proof (cases ps)
  case Nil
  then show ?thesis using kalloc_empty[of kend k] assms by simp
next
  case (Cons p ps')
  then show ?thesis using kalloc_pops[of kend k p ps'] assms by (auto simp: kmem_inv_def)
qed

text \<open>C37: \<open>kfree_memory\<close> terminates on every well-formed list and returns the number of free bytes.\<close>

theorem kfree_memory_counts_free_bytes:
  assumes "kmem_inv kend k ps"
  shows "kfree_memory k = Some (of_nat (length ps) * 4096)"
  using free_walk_counts[of k "km_freelist k" ps 0] assms by (simp add: kfree_memory_def kmem_inv_def PGSIZE_def)

section \<open>Examples\<close>

definition ex_kmem :: kmem where
  "ex_kmem = \<lparr>km_mem = (\<lambda>_. replicate 4096 0), km_freelist = 0x87ff0000\<rparr>"

lemma ex_kmem_inv: "kmem_inv 0x80020000 ex_kmem [0x87ff0000]"
  by (simp add: kmem_inv_def ex_kmem_def page_ok_def PGSIZE_def PHYSTOP_val run_next_def get_le_zero)

theorem kinit_frees_all_pages_witness:
  "\<exists>k' ps. kinit 0x80020000 (ex_kmem\<lparr>km_freelist := 0\<rparr>) = Ok k' \<and> kmem_inv 0x80020000 k' ps"
  using kinit_frees_all_pages[of "0x80020000" "ex_kmem\<lparr>km_freelist := 0\<rparr>"] by (auto simp: PHYSTOP_val)

theorem kalloc_takes_free_page_witness: "\<exists>p k'. kalloc ex_kmem = (p, k') \<and> page_ok 0x80020000 p"
  using kalloc_takes_free_page[OF ex_kmem_inv] by auto

theorem kfree_memory_counts_free_bytes_witness: "kfree_memory ex_kmem = Some 4096"
  using kfree_memory_counts_free_bytes[OF ex_kmem_inv] by simp

end
