(* ===== verification/Vm.thy ===== *)
theory Vm
  imports Kalloc
begin

text \<open>
  Virtual memory, \<open>kernel/vm.c\<close>: Sv39 page tables in physical pages, mapping and unmapping, user
  address spaces, and the copies between user and kernel memory. A page table is the address of
  its page, a PTE pointer the page with an index into it. \<open>etext\<close>, \<open>trampoline\<close> and \<open>end\<close> come from the
  linker and are arguments. A dereference of a null page is a \<open>Fault\<close>.
\<close>

unbundle bit_operations_syntax

section \<open>Page-table entries in memory\<close>

definition pte :: "kmem \<Rightarrow> uint64 \<Rightarrow> nat \<Rightarrow> uint64" where
  "pte s pt i = get64 (km_mem s pt) (8 * i)"

definition set_pte :: "kmem \<Rightarrow> uint64 \<Rightarrow> nat \<Rightarrow> uint64 \<Rightarrow> kmem" where
  "set_pte s pt i e = s\<lparr>km_mem := (km_mem s)(pt := put64 (km_mem s pt) (8 * i) e)\<rparr>"

section \<open>Walking\<close>

fun walk_level :: "nat \<Rightarrow> kmem \<Rightarrow> uint64 \<Rightarrow> uint64 \<Rightarrow> bool \<Rightarrow> (uint64 \<times> nat) option \<times> kmem" where
  "walk_level 0 s pt va alloc = (Some (pt, PX 0 va), s)"
| "walk_level (Suc l) s pt va alloc =
     (let i = PX (Suc l) va; e = pte s pt i in
      if e AND PTE_V \<noteq> 0 then walk_level l s (PTE2PA e) va alloc
      else if \<not> alloc then (None, s)
      else case kalloc s of (new, s') \<Rightarrow>
        if new = 0 then (None, s')
        else walk_level l (set_pte (fill_page 0 new s') pt i (PA2PTE new OR PTE_V)) new va alloc)"

definition walk :: "kmem \<Rightarrow> uint64 \<Rightarrow> uint64 \<Rightarrow> bool \<Rightarrow> ((uint64 \<times> nat) option \<times> kmem) outcome" where
  "walk s pt va alloc = (if va \<ge> MAXVA then Panic ''walk'' else Ok (walk_level 2 s pt va alloc))"

definition walkaddr :: "kmem \<Rightarrow> uint64 \<Rightarrow> uint64 \<Rightarrow> uint64 outcome" where
  "walkaddr s pt va =
     (if va \<ge> MAXVA then Ok 0
      else bnd (walk s pt va False) (\<lambda>(p, s).
        case p of None \<Rightarrow> Ok 0
        | Some (t, i) \<Rightarrow>
            let e = pte s t i in
            if e AND PTE_V = 0 then Ok 0
            else if e AND PTE_U = 0 then Ok 0
            else Ok (PTE2PA e)))"

section \<open>Mapping\<close>

text \<open>The loop of \<open>mappages\<close>; it ends at the latest when \<open>walk\<close> panics above \<open>MAXVA\<close>. The result is the C
  return value.\<close>

lemma walk_below: "walk s pt a al = Ok r \<Longrightarrow> unat MAXVA - unat (a + PGSIZE) < unat MAXVA - unat a"
proof -
  assume "walk s pt a al = Ok r"
  then have a: "unat a < unat MAXVA" by (auto simp: walk_def word_less_nat_alt not_le split: if_splits)
  then have "unat (a + PGSIZE) = unat a + 4096"
    by (subst unat_add_lem[THEN iffD1]) (simp_all add: MAXVA_val PGSIZE_def)
  then show ?thesis using a by simp
qed

function mappages_loop :: "kmem \<Rightarrow> uint64 \<Rightarrow> uint64 \<Rightarrow> uint64 \<Rightarrow> uint64 \<Rightarrow> uint64 \<Rightarrow> (int \<times> kmem) outcome" where
  "mappages_loop s pt a lst pa perm =
     bnd (walk s pt a True) (\<lambda>(p, s).
     case p of None \<Rightarrow> Ok (-1, s)
     | Some (t, i) \<Rightarrow>
         if pte s t i AND PTE_V \<noteq> 0 then Panic ''mappages: remap''
         else
           let s = set_pte s t i (PA2PTE pa OR perm OR PTE_V) in
           if a = lst then Ok (0, s) else mappages_loop s pt (a + PGSIZE) lst (pa + PGSIZE) perm)"
  by pat_completeness auto
termination
  by (relation "measure (\<lambda>(s, pt, a, lst, pa, perm). unat MAXVA - unat a)") (auto dest: walk_below)

declare mappages_loop.simps [simp del]

definition mappages :: "kmem \<Rightarrow> uint64 \<Rightarrow> uint64 \<Rightarrow> uint64 \<Rightarrow> uint64 \<Rightarrow> uint64 \<Rightarrow> (int \<times> kmem) outcome" where
  "mappages s pt va sz pa perm =
     (if sz = 0 then Panic ''mappages: size''
      else mappages_loop s pt (PGROUNDDOWN va) (PGROUNDDOWN (va + sz - 1)) pa perm)"

definition kvmmap :: "kmem \<Rightarrow> uint64 \<Rightarrow> uint64 \<Rightarrow> uint64 \<Rightarrow> uint64 \<Rightarrow> uint64 \<Rightarrow> kmem outcome" where
  "kvmmap s kpgtbl va pa sz perm =
     bnd (mappages s kpgtbl va sz pa perm) (\<lambda>(r, s). if r \<noteq> 0 then Panic ''kvmmap'' else Ok s)"

text \<open>\<open>proc_mapstacks\<close> of \<open>kernel/proc.c\<close>: a page for each kernel stack, with \<open>n\<close> processes left to do.\<close>

fun proc_mapstacks :: "nat \<Rightarrow> kmem \<Rightarrow> uint64 \<Rightarrow> kmem outcome" where
  "proc_mapstacks 0 s kpgtbl = Ok s"
| "proc_mapstacks (Suc n) s kpgtbl =
     (case kalloc s of (pa, s) \<Rightarrow>
        if pa = 0 then Panic ''kalloc''
        else bnd (kvmmap s kpgtbl (KSTACK (64 - Suc n)) pa PGSIZE (PTE_R OR PTE_W)) (\<lambda>s. proc_mapstacks n s kpgtbl))"

definition kvmmake :: "uint64 \<Rightarrow> uint64 \<Rightarrow> kmem \<Rightarrow> (uint64 \<times> kmem) outcome" where
  "kvmmake etext trampoline s =
     (case kalloc s of (kpgtbl, s) \<Rightarrow>
      if kpgtbl = 0 then Fault ''null page'' else
      let s = fill_page 0 kpgtbl s in
      bnd (kvmmap s kpgtbl UART0 UART0 PGSIZE (PTE_R OR PTE_W)) (\<lambda>s.
      bnd (kvmmap s kpgtbl VIRTIO0 VIRTIO0 PGSIZE (PTE_R OR PTE_W)) (\<lambda>s.
      bnd (kvmmap s kpgtbl PLIC PLIC 0x400000 (PTE_R OR PTE_W)) (\<lambda>s.
      bnd (kvmmap s kpgtbl KERNBASE KERNBASE (etext - KERNBASE) (PTE_R OR PTE_X)) (\<lambda>s.
      bnd (kvmmap s kpgtbl etext etext (PHYSTOP - etext) (PTE_R OR PTE_W)) (\<lambda>s.
      bnd (kvmmap s kpgtbl TRAMPOLINE trampoline PGSIZE (PTE_R OR PTE_X)) (\<lambda>s.
      bnd (proc_mapstacks 64 s kpgtbl) (\<lambda>s.
      Ok (kpgtbl, s)))))))))"

section \<open>Unmapping\<close>

function uvmunmap_loop :: "uint64 \<Rightarrow> kmem \<Rightarrow> uint64 \<Rightarrow> uint64 \<Rightarrow> uint64 \<Rightarrow> bool \<Rightarrow> kmem outcome" where
  "uvmunmap_loop kend s pt a lim do_free =
     (if a < lim then
        bnd (walk s pt a False) (\<lambda>(p, s).
        case p of None \<Rightarrow> Panic ''uvmunmap: walk''
        | Some (t, i) \<Rightarrow>
            let e = pte s t i in
            if e AND PTE_V = 0 then Panic ''uvmunmap: not mapped''
            else if PTE_FLAGS e = PTE_V then Panic ''uvmunmap: not a leaf''
            else
              bnd (if do_free then kfree kend (PTE2PA e) s else Ok s) (\<lambda>s.
              uvmunmap_loop kend (set_pte s t i 0) pt (a + PGSIZE) lim do_free))
      else Ok s)"
  by pat_completeness auto
termination
  by (relation "measure (\<lambda>(kend, s, pt, a, lim, do_free). unat MAXVA - unat a)") (auto dest: walk_below)

declare uvmunmap_loop.simps [simp del]

definition uvmunmap :: "uint64 \<Rightarrow> kmem \<Rightarrow> uint64 \<Rightarrow> uint64 \<Rightarrow> uint64 \<Rightarrow> bool \<Rightarrow> kmem outcome" where
  "uvmunmap kend s pt va npages do_free =
     (if va mod PGSIZE \<noteq> 0 then Panic ''uvmunmap: not aligned''
      else uvmunmap_loop kend s pt va (va + npages * PGSIZE) do_free)"

section \<open>User address spaces\<close>

definition uvmcreate :: "kmem \<Rightarrow> uint64 \<times> kmem" where
  "uvmcreate s = (case kalloc s of (pt, s) \<Rightarrow> if pt = 0 then (0, s) else (pt, fill_page 0 pt s))"

definition uvminit :: "kmem \<Rightarrow> uint64 \<Rightarrow> byte list \<Rightarrow> kmem outcome" where
  "uvminit s pt src =
     (if length src \<ge> 4096 then Panic ''inituvm: more than a page''
      else case kalloc s of (mem, s) \<Rightarrow>
        if mem = 0 then Fault ''null page''
        else
          bnd (mappages (fill_page 0 mem s) pt 0 PGSIZE mem (PTE_W OR PTE_R OR PTE_X OR PTE_U)) (\<lambda>(r, s).
          Ok (s\<lparr>km_mem := (km_mem s)(mem := patch (km_mem s mem) 0 src)\<rparr>)))"

text \<open>\<open>npages\<close> is an \<open>int\<close> in \<open>uvmdealloc\<close>.\<close>

definition uvmdealloc :: "uint64 \<Rightarrow> kmem \<Rightarrow> uint64 \<Rightarrow> uint64 \<Rightarrow> uint64 \<Rightarrow> (uint64 \<times> kmem) outcome" where
  "uvmdealloc kend s pt oldsz newsz =
     (if newsz \<ge> oldsz then Ok (oldsz, s)
      else
        bnd (if PGROUNDUP newsz < PGROUNDUP oldsz then
               let npages = ucast ((PGROUNDUP oldsz - PGROUNDUP newsz) div PGSIZE) :: uint
               in uvmunmap kend s pt (PGROUNDUP newsz) (scast npages) True
             else Ok s) (\<lambda>s. Ok (newsz, s)))"

lemma PGROUNDDOWN_le: "PGROUNDDOWN a < MAXVA \<Longrightarrow> unat a < unat MAXVA"
proof -
  assume "PGROUNDDOWN a < MAXVA"
  then have "unat a div 4096 * 4096 < 0x4000000000" by (simp add: word_less_nat_alt unat_PGROUNDDOWN MAXVA_val)
  then have "unat a div 4096 < 0x4000000" by simp
  then have "unat a < 0x4000000 * 4096" by (simp add: div_less_iff_less_mult)
  then show ?thesis by (simp add: MAXVA_val)
qed

lemma mappages_below:
  assumes "mappages s pt a n pa perm = Ok r"
  shows "unat MAXVA - unat (a + PGSIZE) < unat MAXVA - unat a"
proof -
  have "PGROUNDDOWN a < MAXVA"
    using assms by (auto simp: mappages_def mappages_loop.simps[of s pt "PGROUNDDOWN a"] walk_def split: if_splits)
  then have a: "unat a < unat MAXVA" by (rule PGROUNDDOWN_le)
  then have "unat (a + PGSIZE) = unat a + 4096"
    by (subst unat_add_lem[THEN iffD1]) (simp_all add: MAXVA_val PGSIZE_def)
  then show ?thesis using a by simp
qed

function uvmalloc_loop :: "uint64 \<Rightarrow> kmem \<Rightarrow> uint64 \<Rightarrow> uint64 \<Rightarrow> uint64 \<Rightarrow> uint64 \<Rightarrow> (uint64 \<times> kmem) outcome" where
  "uvmalloc_loop kend s pt oldsz a newsz =
     (if a < newsz then
        case kalloc s of (mem, s1) \<Rightarrow>
          if mem = 0 then bnd (uvmdealloc kend s1 pt a oldsz) (\<lambda>(_, s). Ok (0, s))
          else
            bnd (mappages (fill_page 0 mem s1) pt a PGSIZE mem (PTE_W OR PTE_X OR PTE_R OR PTE_U)) (\<lambda>(r, s2).
            if r \<noteq> 0 then
              bnd (kfree kend mem s2) (\<lambda>s3. bnd (uvmdealloc kend s3 pt a oldsz) (\<lambda>(_, s4). Ok (0, s4)))
            else uvmalloc_loop kend s2 pt oldsz (a + PGSIZE) newsz)
      else Ok (newsz, s))"
  by pat_completeness auto
termination
  by (relation "measure (\<lambda>(kend, s, pt, oldsz, a, newsz). unat MAXVA - unat a)") (auto dest: mappages_below)

declare uvmalloc_loop.simps [simp del]

definition uvmalloc :: "uint64 \<Rightarrow> kmem \<Rightarrow> uint64 \<Rightarrow> uint64 \<Rightarrow> uint64 \<Rightarrow> (uint64 \<times> kmem) outcome" where
  "uvmalloc kend s pt oldsz newsz =
     (if newsz < oldsz then Ok (oldsz, s)
      else uvmalloc_loop kend s pt (PGROUNDUP oldsz) (PGROUNDUP oldsz) newsz)"

text \<open>
  \<open>freewalk\<close> recurses into the tables below a page; the model bounds the depth by \<open>fuel\<close>, and a table
  tree of the three levels that \<open>walk\<close> builds needs a depth of 3. Index \<open>i\<close> is the loop variable.
\<close>

function freewalk_from :: "uint64 \<Rightarrow> nat \<Rightarrow> kmem \<Rightarrow> uint64 \<Rightarrow> nat \<Rightarrow> kmem outcome" where
  "freewalk_from kend 0 s pt i = Diverge"
| "freewalk_from kend (Suc fuel) s pt i =
     (if i < 512 then
        let e = pte s pt i in
        if e AND PTE_V \<noteq> 0 \<and> e AND (PTE_R OR PTE_W OR PTE_X) = 0 then
          bnd (freewalk_from kend fuel s (PTE2PA e) 0) (\<lambda>s.
          freewalk_from kend (Suc fuel) (set_pte s pt i 0) pt (Suc i))
        else if e AND PTE_V \<noteq> 0 then Panic ''freewalk: leaf''
        else freewalk_from kend (Suc fuel) s pt (Suc i)
      else kfree kend pt s)"
  by pat_completeness auto
termination
  by (relation "measures [\<lambda>(kend, fuel, s, pt, i). fuel, \<lambda>(kend, fuel, s, pt, i). 512 - i]") auto

declare freewalk_from.simps(2) [simp del]

definition freewalk :: "uint64 \<Rightarrow> kmem \<Rightarrow> uint64 \<Rightarrow> kmem outcome" where
  "freewalk kend s pt = freewalk_from kend 3 s pt 0"

definition uvmfree :: "uint64 \<Rightarrow> kmem \<Rightarrow> uint64 \<Rightarrow> uint64 \<Rightarrow> kmem outcome" where
  "uvmfree kend s pt sz =
     bnd (if sz > 0 then uvmunmap kend s pt 0 (PGROUNDUP sz div PGSIZE) True else Ok s) (\<lambda>s. freewalk kend s pt)"

definition uvmcopy_err :: "uint64 \<Rightarrow> kmem \<Rightarrow> uint64 \<Rightarrow> uint64 \<Rightarrow> (int \<times> kmem) outcome" where
  "uvmcopy_err kend s new i = bnd (uvmunmap kend s new 0 (i div PGSIZE) True) (\<lambda>s. Ok (-1, s))"

function uvmcopy_loop :: "uint64 \<Rightarrow> kmem \<Rightarrow> uint64 \<Rightarrow> uint64 \<Rightarrow> uint64 \<Rightarrow> uint64 \<Rightarrow> (int \<times> kmem) outcome" where
  "uvmcopy_loop kend s old new i sz =
     (if i < sz then
        bnd (walk s old i False) (\<lambda>(p, s).
        case p of None \<Rightarrow> Panic ''uvmcopy: pte should exist''
        | Some (t, j) \<Rightarrow>
            let e = pte s t j in
            if e AND PTE_V = 0 then Panic ''uvmcopy: page not present''
            else
              let pa = PTE2PA e; flags = PTE_FLAGS e in
              case kalloc s of (mem, s) \<Rightarrow>
                if mem = 0 then uvmcopy_err kend s new i
                else
                  let s = s\<lparr>km_mem := (km_mem s)(mem := km_mem s pa)\<rparr> in
                  bnd (mappages s new i PGSIZE mem flags) (\<lambda>(r, s).
                  if r \<noteq> 0 then bnd (kfree kend mem s) (\<lambda>s. uvmcopy_err kend s new i)
                  else uvmcopy_loop kend s old new (i + PGSIZE) sz))
      else Ok (0, s))"
  by pat_completeness auto
termination
  by (relation "measure (\<lambda>(kend, s, old, new, i, sz). unat MAXVA - unat i)") (auto dest: walk_below)

declare uvmcopy_loop.simps [simp del]

definition uvmcopy :: "uint64 \<Rightarrow> kmem \<Rightarrow> uint64 \<Rightarrow> uint64 \<Rightarrow> uint64 \<Rightarrow> (int \<times> kmem) outcome" where
  "uvmcopy kend s old new sz = uvmcopy_loop kend s old new 0 sz"

definition uvmclear :: "kmem \<Rightarrow> uint64 \<Rightarrow> uint64 \<Rightarrow> kmem outcome" where
  "uvmclear s pt va =
     bnd (walk s pt va False) (\<lambda>(p, s).
     case p of None \<Rightarrow> Panic ''uvmclear''
     | Some (t, i) \<Rightarrow> Ok (set_pte s t i (pte s t i AND NOT PTE_U)))"

section \<open>Copies between user and kernel memory\<close>

text \<open>The bytes of the page at \<open>pa\<close> from offset \<open>off\<close>.\<close>

definition page_read :: "kmem \<Rightarrow> uint64 \<Rightarrow> nat \<Rightarrow> nat \<Rightarrow> byte list" where
  "page_read s pa off n = take n (drop off (km_mem s pa))"

definition page_write :: "kmem \<Rightarrow> uint64 \<Rightarrow> nat \<Rightarrow> byte list \<Rightarrow> kmem" where
  "page_write s pa off xs = s\<lparr>km_mem := (km_mem s)(pa := patch (km_mem s pa) off xs)\<rparr>"

lemma offset_less: "unat (va - PGROUNDDOWN va) < 4096"
proof -
  have "PGROUNDDOWN va \<le> va" by (simp add: word_le_nat_alt unat_PGROUNDDOWN)
  then have "unat (va - PGROUNDDOWN va) = unat va - unat va div 4096 * 4096"
    by (simp add: unat_sub unat_PGROUNDDOWN)
  then show ?thesis by (simp add: minus_div_mult_eq_mod)
qed

text \<open>\<open>len\<close> is the length of the list that is left to copy.\<close>

function copyout :: "kmem \<Rightarrow> uint64 \<Rightarrow> uint64 \<Rightarrow> byte list \<Rightarrow> (int \<times> kmem) outcome" where
  "copyout s pt dstva src =
     (if src \<noteq> [] then
        let va0 = PGROUNDDOWN dstva in
        bnd (walkaddr s pt va0) (\<lambda>pa0.
        if pa0 = 0 then Ok (-1, s)
        else
          let off = unat (dstva - va0); n = min (4096 - off) (length src)
          in copyout (page_write s pa0 off (take n src)) pt (va0 + PGSIZE) (drop n src))
      else Ok (0, s))"
  by pat_completeness auto
termination
  by (relation "measure (\<lambda>(s, pt, dstva, src). length src)") (auto simp: offset_less)

declare copyout.simps [simp del]

text \<open>\<open>copyin\<close> and \<open>copyinstr\<close> return what they have written to \<open>dst\<close>; \<open>None\<close> is the return value -1.\<close>

function copyin :: "kmem \<Rightarrow> uint64 \<Rightarrow> uint64 \<Rightarrow> nat \<Rightarrow> byte list option outcome" where
  "copyin s pt srcva len =
     (if len > 0 then
        let va0 = PGROUNDDOWN srcva in
        bnd (walkaddr s pt va0) (\<lambda>pa0.
        if pa0 = 0 then Ok None
        else
          let off = unat (srcva - va0); n = min (4096 - off) len
          in bnd (copyin s pt (va0 + PGSIZE) (len - n)) (\<lambda>rest.
             Ok (map_option (\<lambda>xs. page_read s pa0 off n @ xs) rest)))
      else Ok (Some []))"
  by pat_completeness auto
termination
  by (relation "measure (\<lambda>(s, pt, srcva, len). len)") (auto simp: offset_less)

declare copyin.simps [simp del]

function copyinstr :: "kmem \<Rightarrow> uint64 \<Rightarrow> uint64 \<Rightarrow> nat \<Rightarrow> byte list option outcome" where
  "copyinstr s pt srcva mx =
     (if mx > 0 then
        let va0 = PGROUNDDOWN srcva in
        bnd (walkaddr s pt va0) (\<lambda>pa0.
        if pa0 = 0 then Ok None
        else
          let off = unat (srcva - va0); n = min (4096 - off) mx;
              xs = page_read s pa0 off n
          in if 0 \<in> set xs then Ok (Some (takeWhile (\<lambda>c. c \<noteq> 0) xs))
             else bnd (copyinstr s pt (va0 + PGSIZE) (mx - n)) (\<lambda>rest. Ok (map_option (\<lambda>ys. xs @ ys) rest)))
      else Ok None)"
  by pat_completeness auto
termination
  by (relation "measure (\<lambda>(s, pt, srcva, mx). mx)") (auto simp: offset_less)

declare copyinstr.simps [simp del]

end
