(* ===== verification/Vm_Map.thy ===== *)
theory Vm_Map
  imports Vm
begin

text \<open>
  Page tables as partial maps. \<open>node\<close> follows the table tree along a list of indices, \<open>lookup\<close> gives the
  valid leaf entry of a virtual address. Under the invariant \<open>pt_inv\<close> the tables of a tree are
  pairwise different pages, none of them free, and \<open>mappages\<close> is an update of the map.
\<close>

unbundle bit_operations_syntax

section \<open>The table tree\<close>

fun node :: "kmem \<Rightarrow> uint64 \<Rightarrow> nat list \<Rightarrow> uint64 option" where
  "node s pt [] = Some pt"
| "node s pt (i # is) = (if pte s pt i AND PTE_V \<noteq> 0 then node s (PTE2PA (pte s pt i)) is else None)"

definition leaf_table :: "kmem \<Rightarrow> uint64 \<Rightarrow> uint64 \<Rightarrow> uint64 option" where
  "leaf_table s pt va = node s pt [PX 2 va, PX 1 va]"

definition lookup :: "kmem \<Rightarrow> uint64 \<Rightarrow> uint64 \<Rightarrow> uint64 option" where
  "lookup s pt va =
     (case leaf_table s pt va of None \<Rightarrow> None
      | Some t \<Rightarrow> if pte s t (PX 0 va) AND PTE_V \<noteq> 0 then Some (pte s t (PX 0 va)) else None)"

definition index_path :: "nat list \<Rightarrow> bool" where
  "index_path is \<longleftrightarrow> length is \<le> 2 \<and> set is \<subseteq> {..<512}"

definition table_pages :: "kmem \<Rightarrow> uint64 \<Rightarrow> uint64 set" where
  "table_pages s pt = {a. \<exists>is. index_path is \<and> node s pt is = Some a}"

definition pt_inv :: "uint64 \<Rightarrow> kmem \<Rightarrow> uint64 \<Rightarrow> uint64 list \<Rightarrow> bool" where
  "pt_inv kend s pt ps \<longleftrightarrow>
     kmem_inv kend s ps \<and> (\<forall>p. length (km_mem s p) = 4096) \<and> table_pages s pt \<inter> set ps = {} \<and>
     (\<forall>is js a. index_path is \<longrightarrow> index_path js \<longrightarrow> node s pt is = Some a \<longrightarrow> node s pt js = Some a \<longrightarrow> is = js)"

lemma index_path_cases:
  assumes "index_path is"
  obtains "is = []" | i where "is = [i]" "i < 512" | i j where "is = [i, j]" "i < 512" "j < 512"
proof -
  consider "length is = 0" | "length is = 1" | "length is = 2"
    using assms unfolding index_path_def by linarith
  then show thesis
  proof cases
    case 2
    then obtain i where "is = [i]" by (auto simp: length_Suc_conv)
    then show thesis using that assms by (simp add: index_path_def)
  next
    case 3
    then obtain i j where "is = [i, j]" by (auto simp: numeral_2_eq_2 length_Suc_conv)
    then show thesis using that assms by (simp add: index_path_def)
  qed (use that in simp)
qed

lemma index_path_nth: "index_path is \<Longrightarrow> n < length is \<Longrightarrow> is ! n < 512"
  unfolding index_path_def using nth_mem[of n "is"] by blast

lemma node_snoc:
  "node s pt (is @ [i]) =
     (case node s pt is of None \<Rightarrow> None
      | Some t \<Rightarrow> if pte s t i AND PTE_V \<noteq> 0 then Some (PTE2PA (pte s t i)) else None)"
  by (induction "is" arbitrary: pt) auto

lemma walk_level_lookup:
  "walk_level 2 s pt va False = (map_option (\<lambda>t. (t, PX 0 va)) (leaf_table s pt va), s)"
  by (simp add: numeral_2_eq_2 leaf_table_def Let_def)

lemma PX_index_path: "index_path [PX 2 va, PX 1 va]" "index_path [PX 2 va]" "index_path []"
  by (simp_all add: index_path_def PX_less)

section \<open>Single entries\<close>

lemma pte_set_pte:
  assumes "length (km_mem s t) = 4096" "i < 512" "j < 512"
  shows "pte (set_pte s t i e) t' j = (if t' = t \<and> j = i then e else pte s t' j)"
proof (cases "t' = t \<and> j \<noteq> i")
  case True
  have "get64 (put64 (km_mem s t) (8 * i) e) (8 * j) = get64 (km_mem s t) (8 * j)"
    using assms True by (intro get_put_slot) auto
  then show ?thesis using True by (simp add: pte_def set_pte_def)
next
  case False
  then show ?thesis using assms by (auto simp: pte_def set_pte_def)
qed

lemma set_pte_shape:
  "length (km_mem s t) = 4096 \<Longrightarrow> i < 512 \<Longrightarrow> length (km_mem (set_pte s t i e) p) = length (km_mem s p)"
  by (auto simp: set_pte_def)

lemma kmem_inv_set_pte:
  assumes "kmem_inv kend s ps" "t \<notin> set ps"
  shows "kmem_inv kend (set_pte s t i e) ps"
  using assms free_list_other[of s "km_freelist s" ps t "set_pte s t i e"] by (simp add: kmem_inv_def set_pte_def)

lemma kmem_inv_fill:
  assumes "kmem_inv kend s ps" "t \<notin> set ps"
  shows "kmem_inv kend (fill_page c t s) ps"
  using assms free_list_other[of s "km_freelist s" ps t "fill_page c t s"] by (simp add: kmem_inv_def fill_page_def)

text \<open>The tree depends only on the entries of its own tables.\<close>

lemma node_cong:
  assumes "index_path is" "\<And>js t. index_path js \<Longrightarrow> length js < length is \<Longrightarrow> node s pt js = Some t \<Longrightarrow>
    js = take (length js) is \<Longrightarrow> pte s' t (is ! length js) = pte s t (is ! length js)"
  shows "node s' pt is = node s pt is"
  using assms(1)
proof (cases rule: index_path_cases)
  case (2 i)
  then show ?thesis using assms(2)[of "[]" pt] by (simp add: index_path_def)
next
  case (3 i j)
  have a: "pte s' pt i = pte s pt i" using assms(2)[of "[]" pt] 3 by (simp add: index_path_def)
  show ?thesis
  proof (cases "pte s pt i AND PTE_V \<noteq> 0")
    case True
    then have "pte s' (PTE2PA (pte s pt i)) j = pte s (PTE2PA (pte s pt i)) j"
      using assms(2)[of "[i]" "PTE2PA (pte s pt i)"] 3 by (simp add: index_path_def)
    then show ?thesis using 3 a by simp
  qed (use 3 a in simp)
qed simp

section \<open>Changing a leaf entry\<close>

lemma set_leaf:
  assumes inv: "pt_inv kend s pt ps" and t: "node s pt [i2, i1] = Some t" and i: "i2 < 512" "i1 < 512" "i0 < 512"
  fixes e :: uint64
  defines "s' \<equiv> set_pte s t i0 e"
  shows "pt_inv kend s' pt ps" "\<And>is. index_path is \<Longrightarrow> node s' pt is = node s pt is"
    "\<And>t' j. j < 512 \<Longrightarrow> pte s' t' j = (if t' = t \<and> j = i0 then e else pte s t' j)"
proof -
  have len: "length (km_mem s p) = 4096" for p using inv by (simp add: pt_inv_def)
  show pte: "\<And>t' j. j < 512 \<Longrightarrow> pte s' t' j = (if t' = t \<and> j = i0 then e else pte s t' j)"
    unfolding s'_def using pte_set_pte[OF len i(3)] by simp
  have path: "index_path [i2, i1]" using i by (simp add: index_path_def)
  show node: "node s' pt is = node s pt is" if ip: "index_path is" for "is"
  proof (rule node_cong[OF ip])
    fix js a
    assume js: "index_path js" "length js < length is" "node s pt js = Some a" "js = take (length js) is"
    have "a \<noteq> t"
    proof
      assume "a = t"
      then have "js = [i2, i1]" using inv js(1,3) path t unfolding pt_inv_def by blast
      then show False using js(2) ip by (simp add: index_path_def)
    qed
    moreover have "is ! length js < 512" by (rule index_path_nth[OF ip js(2)])
    ultimately show "pte s' a (is ! length js) = pte s a (is ! length js)" using pte by simp
  qed
  have "t \<notin> set ps" using inv t path unfolding pt_inv_def table_pages_def by blast
  then have "kmem_inv kend s' ps"
    using inv unfolding s'_def by (intro kmem_inv_set_pte) (simp_all add: pt_inv_def)
  moreover have "length (km_mem s' p) = 4096" for p unfolding s'_def using set_pte_shape[OF len i(3)] len by simp
  moreover have "table_pages s' pt = table_pages s pt" unfolding table_pages_def using node by auto
  ultimately show "pt_inv kend s' pt ps" using inv node unfolding pt_inv_def by auto
qed

section \<open>Adding a table\<close>

lemma page_ok_PTE:
  assumes "page_ok kend p"
  shows "PTE2PA (PA2PTE p OR PTE_V) = p" "(PA2PTE p OR PTE_V) AND PTE_V \<noteq> 0"
proof -
  have "p mod 4096 = 0" "p < 2 ^ 54" using assms by (simp_all add: page_ok_def PGSIZE_def PHYSTOP_val word_less_nat_alt)
  then show "PTE2PA (PA2PTE p OR PTE_V) = p" using PTE2PA_PA2PTE(1)[of p PTE_V] by (simp add: PTE_V_def)
qed (simp add: PTE_V_def bit.conj_disj_distrib2)

lemma pte_zero_page: "km_mem s t = replicate 4096 0 \<Longrightarrow> j < 512 \<Longrightarrow> pte s t j = 0"
  by (simp add: pte_def get_le_zero)

text \<open>The state after \<open>walk\<close> has linked the fresh page \<open>new\<close> at entry \<open>i\<close> of the table at \<open>p\<close>.\<close>

lemma add_table_pte:
  assumes inv: "pt_inv kend s pt (new # ps)" and t: "t \<in> table_pages s pt" "i < 512"
  defines "s' \<equiv> set_pte (fill_page 0 new (snd (kalloc s))) t i (PA2PTE new OR PTE_V)"
  shows "fst (kalloc s) = new" "new \<noteq> 0" "kmem_inv kend s' ps" "\<And>a. length (km_mem s' a) = 4096"
    "\<And>a j. j < 512 \<Longrightarrow> pte s' a j = (if a = t \<and> j = i then PA2PTE new OR PTE_V else if a = new then 0 else pte s a j)"
proof -
  have len: "length (km_mem s p) = 4096" for p using inv by (simp add: pt_inv_def)
  have k: "kmem_inv kend s (new # ps)" using inv by (simp add: pt_inv_def)
  then obtain s1 where s1: "kalloc s = (new, s1)" "kmem_inv kend s1 ps" using kalloc_pops[OF k] by blast
  have mem: "km_mem s1 = (km_mem s)(new := replicate 4096 5)"
    using s1(1) k by (auto simp: kalloc_def kmem_inv_def Let_def fill_page_def)
  have tn: "t \<noteq> new" "t \<notin> set ps" "new \<notin> set ps" using inv t by (auto simp: pt_inv_def kmem_inv_def)
  show "fst (kalloc s) = new" "new \<noteq> 0" using s1 k by (simp_all add: kmem_inv_def)
  show "kmem_inv kend s' ps" unfolding s'_def s1 using tn by (simp add: kmem_inv_set_pte kmem_inv_fill s1(2))
  have l1: "length (km_mem (fill_page 0 new s1) a) = 4096" for a by (simp add: fill_page_def mem len)
  show "length (km_mem s' a) = 4096" for a unfolding s'_def s1 using set_pte_shape[OF l1 t(2)] l1 by simp
  show "pte s' a j = (if a = t \<and> j = i then PA2PTE new OR PTE_V else if a = new then 0 else pte s a j)" if "j < 512" for a j
    unfolding s'_def s1 using pte_set_pte[OF l1 t(2) that] that
    by (simp add: fill_page_def mem pte_def get_le_zero)
qed

lemma add_table:
  assumes inv: "pt_inv kend s pt (new # ps)" and p: "index_path p" "length p < 2" "node s pt p = Some t"
    and i: "i < 512" "pte s t i AND PTE_V = 0"
  defines "s' \<equiv> set_pte (fill_page 0 new (snd (kalloc s))) t i (PA2PTE new OR PTE_V)"
  shows "pt_inv kend s' pt ps" "node s' pt (p @ [i]) = Some new" "\<And>va. lookup s' pt va = lookup s pt va"
proof -
  have tt: "t \<in> table_pages s pt" using p unfolding table_pages_def by blast
  note add = add_table_pte[OF inv tt i(1), folded s'_def]
  have inj: "is = js" if "index_path is" "index_path js" "node s pt is = Some a" "node s pt js = Some a" for "is" js a
    using inv that unfolding pt_inv_def by blast
  have new: "node s pt is \<noteq> Some new" if "index_path is" for "is"
    using inv that unfolding pt_inv_def table_pages_def by auto
  have ok: "page_ok kend new" using inv by (simp add: pt_inv_def kmem_inv_def)
  have q: "node s pt (p @ [i]) = None" using p(3) i by (simp add: node_snoc)
  have node: "node s' pt is = (if is = p @ [i] then Some new else node s pt is)" if "index_path is" for "is"
    using that
  proof (induction "is" rule: rev_induct)
    case (snoc j is0)
    have ip: "index_path is0" "j < 512" using snoc.prems by (simp_all add: index_path_def)
    show ?case
    proof (cases "is0 = p @ [i]")
      case True
      then have "node s' pt is0 = Some new" "node s pt is0 = None" using snoc.IH[OF ip(1)] q by auto
      moreover have "pte s' new j = 0" using add(5)[OF ip(2), of new] new[OF p(1)] p(3) by auto
      ultimately have "node s' pt (is0 @ [j]) = None" "node s pt (is0 @ [j]) = None"
        by (simp_all only: node_snoc option.case) simp
      then show ?thesis using True by (simp del: append_assoc)
    next
      case False
      then have IH: "node s' pt is0 = node s pt is0" using snoc.IH[OF ip(1)] by simp
      show ?thesis
      proof (cases "node s pt is0")
        case None
        then have "is0 \<noteq> p" using p(3) by auto
        then show ?thesis using IH None by (simp add: node_snoc)
      next
        case (Some a)
        show ?thesis
        proof (cases "is0 = p \<and> j = i")
          case True
          then show ?thesis using IH p(3) add(5)[OF i(1), of t] page_ok_PTE[OF ok] by (simp add: node_snoc)
        next
          case False
          then have "\<not> (a = t \<and> j = i)" using inj[OF ip(1) p(1) Some] p(3) by auto
          moreover have "a \<noteq> new" using new[OF ip(1)] Some by auto
          ultimately have "pte s' a j = pte s a j" using add(5)[OF ip(2), of a] by argo
          then have "node s' pt (is0 @ [j]) = node s pt (is0 @ [j])" using IH Some by (simp add: node_snoc)
          moreover have "is0 @ [j] \<noteq> p @ [i]" using False by simp
          ultimately show ?thesis by argo
        qed
      qed
    qed
  qed simp
  show "node s' pt (p @ [i]) = Some new" using node[of "p @ [i]"] p i by (simp add: index_path_def)
  have "table_pages s' pt \<subseteq> insert new (table_pages s pt)" unfolding table_pages_def using node by (auto split: if_splits)
  moreover have "new \<notin> set ps" using inv by (simp add: pt_inv_def kmem_inv_def)
  ultimately have "table_pages s' pt \<inter> set ps = {}" using inv by (auto simp: pt_inv_def)
  moreover have "is = js" if "index_path is" "index_path js" "node s' pt is = Some a" "node s' pt js = Some a" for "is" js a
    using that node new inj by (auto split: if_splits)
  ultimately show "pt_inv kend s' pt ps" using add(3,4) unfolding pt_inv_def by blast
  show "lookup s' pt va = lookup s pt va" for va
  proof (cases "[PX 2 va, PX 1 va] = p @ [i]")
    case True
    then show ?thesis using node[OF PX_index_path(1)[of va]] q add(5)[OF PX_less, of new 0 va] new[OF p(1)] p(3)
      by (auto simp: lookup_def leaf_table_def simp del: node.simps)
  next
    case False
    have "a \<noteq> t" if "node s pt [PX 2 va, PX 1 va] = Some a" for a
      using inj[OF PX_index_path(1) p(1) that] p(2,3) by auto
    then show ?thesis using node[OF PX_index_path(1)[of va]] False add(5)[OF PX_less] new[OF PX_index_path(1)[of va]]
      by (auto simp: lookup_def leaf_table_def simp del: node.simps split: option.splits)
  qed
qed

section \<open>Mapping one page\<close>

text \<open>\<open>walk\<close> with \<open>alloc\<close> and two free pages left finds the leaf table and keeps every mapping.\<close>

lemma walk_level_alloc:
  assumes "pt_inv kend s pt ps" "index_path p" "node s pt p = Some t" "length p + l = 2" "l \<le> length ps"
    "p @ rev (map (\<lambda>l. PX (Suc l) va) [0..<l]) = [PX 2 va, PX 1 va]"
  shows "\<exists>s' ps' t'. walk_level l s t va True = (Some (t', PX 0 va), s') \<and> pt_inv kend s' pt ps' \<and>
     leaf_table s' pt va = Some t' \<and> lookup s' pt = lookup s pt \<and> length ps - l \<le> length ps'"
  using assms
proof (induction l arbitrary: s ps p t)
  case 0
  then show ?case by (auto simp: leaf_table_def simp del: node.simps)
next
  case (Suc l)
  let ?i = "PX (Suc l) va"
  have ip: "index_path (p @ [?i])" using Suc.prems by (simp add: index_path_def PX_less)
  have q: "(p @ [?i]) @ rev (map (\<lambda>l. PX (Suc l) va) [0..<l]) = [PX 2 va, PX 1 va]" using Suc.prems(6) by simp
  show ?case
  proof (cases "pte s t ?i AND PTE_V = 0")
    case False
    then have "node s pt (p @ [?i]) = Some (PTE2PA (pte s t ?i))" using Suc.prems(3) by (simp add: node_snoc)
    then obtain s' ps' t' where "walk_level l s (PTE2PA (pte s t ?i)) va True = (Some (t', PX 0 va), s')"
        "pt_inv kend s' pt ps'" "leaf_table s' pt va = Some t'" "lookup s' pt = lookup s pt" "length ps - l \<le> length ps'"
      using Suc.IH[OF Suc.prems(1) ip _ _ _ q, of "PTE2PA (pte s t ?i)"] Suc.prems(4,5) by auto
    then show ?thesis using False by (intro exI[of _ s'] exI[of _ ps'] exI[of _ t']) (simp add: Let_def)
  next
    case True
    obtain new ps' where ps: "ps = new # ps'" using Suc.prems(5) by (cases ps) auto
    have tt: "t \<in> table_pages s pt" using Suc.prems(2,3) unfolding table_pages_def by blast
    note a = add_table_pte(1,2)[OF Suc.prems(1)[unfolded ps] tt PX_less]
    let ?s = "set_pte (fill_page 0 new (snd (kalloc s))) t ?i (PA2PTE new OR PTE_V)"
    have len: "length p < 2" using Suc.prems(4) by simp
    note b = add_table[OF Suc.prems(1)[unfolded ps] Suc.prems(2) len Suc.prems(3) PX_less True]
    have "walk_level (Suc l) s t va True = walk_level l ?s new va True"
      using True a by (auto simp: Let_def split: prod.splits)
    moreover have "lookup ?s pt = lookup s pt" using b(3) by auto
    ultimately show ?thesis using Suc.IH[OF b(1) ip b(2) _ _ q] Suc.prems(4,5) ps by auto
  qed
qed

lemma walk_alloc:
  assumes "pt_inv kend s pt ps" "va < MAXVA" "2 \<le> length ps"
  shows "\<exists>s' ps' t'. walk s pt va True = Ok (Some (t', PX 0 va), s') \<and> pt_inv kend s' pt ps' \<and>
     leaf_table s' pt va = Some t' \<and> lookup s' pt = lookup s pt \<and> length ps - 2 \<le> length ps'"
  using walk_level_alloc[of kend s pt ps "[]" pt 2 va] assms
  by (simp add: walk_def index_path_def numeral_2_eq_2 del: walk_level.simps)

text \<open>The three indices determine the page.\<close>

lemma PX_arith: "PX l va = unat va div 4096 div 512 ^ l mod 512"
proof -
  have "PX l va = unat (take_bit 9 (drop_bit (12 + 9 * l) va))"
    by (simp add: PX_def PXSHIFT_def take_bit_eq_mask mask_eq_exp_minus_1)
  moreover have "(2 :: nat) ^ (12 + 9 * l) = 4096 * 512 ^ l" by (simp add: power_add power_mult)
  moreover have "unat (take_bit 9 (drop_bit (12 + 9 * l) va)) = unat va div 2 ^ (12 + 9 * l) mod 512"
    unfolding unsigned_take_bit_eq unsigned_drop_bit_eq take_bit_nat_eq_self[OF unsigned_less]
    unfolding take_bit_eq_mod drop_bit_eq_div by simp
  ultimately show ?thesis by (simp only: div_mult2_eq)
qed

lemma three_digits:
  assumes "(m :: nat) < 2 ^ 26"
  shows "m = (m div 512 ^ 2 mod 512 * 512 + m div 512 ^ 1 mod 512) * 512 + m div 512 ^ 0 mod 512"
proof -
  have "m div 512 div 512 < 512" using assms by (simp add: div_less_iff_less_mult)
  then have "m div 512 ^ 2 mod 512 = m div 512 div 512" by (simp add: power2_eq_square div_mult2_eq)
  then show ?thesis by (simp add: div_mult_mod_eq)
qed

lemma page_by_indices:
  assumes "va < MAXVA" "va' < MAXVA"
  shows "PX 2 va = PX 2 va' \<and> PX 1 va = PX 1 va' \<and> PX 0 va = PX 0 va' \<longleftrightarrow> PGROUNDDOWN va = PGROUNDDOWN va'"
proof -
  have n: "unat va div 4096 < 2 ^ 26" "unat va' div 4096 < 2 ^ 26"
    using assms by (simp_all add: word_less_nat_alt MAXVA_val div_less_iff_less_mult)
  have "PGROUNDDOWN va = PGROUNDDOWN va' \<longleftrightarrow> unat va div 4096 = unat va' div 4096"
    unfolding word_unat_eq_iff unat_PGROUNDDOWN by simp
  moreover have "unat va div 4096 = unat va' div 4096" if "PX 2 va = PX 2 va'" "PX 1 va = PX 1 va'" "PX 0 va = PX 0 va'"
    using three_digits[OF n(1)] three_digits[OF n(2)] that unfolding PX_arith by metis
  ultimately show ?thesis unfolding PX_arith by metis
qed

lemma PGROUNDDOWN_page:
  assumes "va < MAXVA" "va mod 4096 = 0"
  shows "PGROUNDDOWN va = va" "PGROUNDDOWN (va + PGSIZE - 1) = va"
proof -
  have n: "unat va < 2 ^ 38" using assms(1) by (simp add: word_less_nat_alt MAXVA_val)
  have "unat (va mod 4096) = unat va mod 4096" by (simp add: unat_mod_distrib)
  then have m: "unat va mod 4096 = 0" using assms(2) by simp
  have "unat (va + 4095) = unat va + 4095" by (subst unat_add_lem[THEN iffD1]) (use n in simp_all)
  moreover have "va + PGSIZE - 1 = va + 4095" by (simp add: PGSIZE_def)
  ultimately have "unat (PGROUNDDOWN (va + PGSIZE - 1)) = (unat va + 4095) div 4096 * 4096"
    by (simp only: unat_PGROUNDDOWN)
  moreover obtain q where q: "unat va = 4096 * q" using m by (auto elim: dvdE)
  moreover have "(4096 * q + 4095) div 4096 * 4096 = 4096 * q" by (simp add: div_mult_self1)
  ultimately show "PGROUNDDOWN (va + PGSIZE - 1) = va" by (simp only: word_unat_eq_iff)
  show "PGROUNDDOWN va = va" by (simp add: word_unat_eq_iff unat_PGROUNDDOWN q)
qed

lemma mappages_page:
  assumes inv: "pt_inv kend s pt ps" and va: "va < MAXVA" "va mod 4096 = 0" "lookup s pt va = None" and ps: "2 \<le> length ps"
  shows "\<exists>s' ps'. mappages s pt va PGSIZE pa perm = Ok (0, s') \<and> pt_inv kend s' pt ps' \<and> length ps - 2 \<le> length ps' \<and>
     (\<forall>va' < MAXVA. lookup s' pt va' =
        (if PGROUNDDOWN va' = va then Some (PA2PTE pa OR perm OR PTE_V) else lookup s pt va'))"
proof -
  obtain s1 ps1 t where w: "walk s pt va True = Ok (Some (t, PX 0 va), s1)" "pt_inv kend s1 pt ps1"
      "leaf_table s1 pt va = Some t" "lookup s1 pt = lookup s pt" "length ps - 2 \<le> length ps1"
    using walk_alloc[OF inv va(1) ps] by blast
  let ?e = "PA2PTE pa OR perm OR PTE_V"
  let ?s = "set_pte s1 t (PX 0 va) ?e"
  have e: "?e AND PTE_V \<noteq> 0" by (simp add: PTE_V_def bit.conj_disj_distrib2)
  have unmapped: "pte s1 t (PX 0 va) AND PTE_V = 0"
    using va(3) w(3) unfolding w(4)[symmetric] by (simp add: lookup_def split: if_splits)
  note down = PGROUNDDOWN_page[OF va(1,2)]
  have "mappages s pt va PGSIZE pa perm = Ok (0, ?s)"
    unfolding mappages_def down using w(1) unmapped
    by (subst mappages_loop.simps) (simp add: PGSIZE_def Let_def)
  moreover note leaf = set_leaf[OF w(2) w(3)[unfolded leaf_table_def] PX_less PX_less PX_less, where e = ?e]
  have "lookup ?s pt va' = (if PGROUNDDOWN va' = va then Some ?e else lookup s pt va')" if "va' < MAXVA" for va'
  proof (cases "PGROUNDDOWN va' = va")
    case True
    then have "PX 2 va' = PX 2 va" "PX 1 va' = PX 1 va" "PX 0 va' = PX 0 va"
      using page_by_indices[OF that va(1)] down(1) by simp_all
    then show ?thesis using True leaf(2)[OF PX_index_path(1)[of va]] leaf(3)[OF PX_less] w(3) e
      by (simp add: lookup_def leaf_table_def del: node.simps)
  next
    case False
    have "\<not> (a = t \<and> PX 0 va' = PX 0 va)" if a: "leaf_table s1 pt va' = Some a" for a
    proof
      assume b: "a = t \<and> PX 0 va' = PX 0 va"
      then have "[PX 2 va', PX 1 va'] = [PX 2 va, PX 1 va]"
        using w(2,3) a PX_index_path(1) unfolding pt_inv_def leaf_table_def by blast
      then show False using b page_by_indices[OF \<open>va' < MAXVA\<close> va(1)] down(1) False by simp
    qed
    then show ?thesis using False leaf(2)[OF PX_index_path(1)[of "va'"]] leaf(3)[OF PX_less] unfolding w(4)[symmetric]
      by (auto simp: lookup_def leaf_table_def simp del: node.simps split: option.splits)
  qed
  ultimately show ?thesis using leaf(1) w(5) by blast
qed

text \<open>C24: \<open>mappages\<close> of one page is an update of the address space. On a well-formed page table with two pages
  free for new tables, mapping an unmapped page-aligned address succeeds, the tree stays well-formed,
  the page translates to the given frame and permissions, and every other address translates as before.\<close>

theorem mappages_updates_translation:
  assumes inv: "pt_inv kend s pt ps" and va: "va < MAXVA" "va mod 4096 = 0" "lookup s pt va = None" and ps: "2 \<le> length ps"
  shows "\<exists>s' ps'. mappages s pt va PGSIZE pa perm = Ok (0, s') \<and> pt_inv kend s' pt ps' \<and>
     (\<forall>va' < MAXVA. lookup s' pt va' =
        (if PGROUNDDOWN va' = va then Some (PA2PTE pa OR perm OR PTE_V) else lookup s pt va'))"
  using mappages_page[OF assms, of pa perm] by blast

end
