(* ===== verification/Vm_Copy.thy ===== *)
theory Vm_Copy
  imports Vm_Map
begin

text \<open>
  The byte view of a user address space: \<open>ubyte\<close> gives the byte at a virtual address, and \<open>copyin\<close>, \<open>copyout\<close>
  and \<open>copyinstr\<close> of \<open>kernel/vm.c\<close> read and write this view, page boundaries and bad pointers included.
\<close>

unbundle bit_operations_syntax

section \<open>The byte view\<close>

definition frame :: "kmem \<Rightarrow> uint64 \<Rightarrow> uint64 \<Rightarrow> uint64" where
  "frame s pt va =
     (if va \<ge> MAXVA then 0
      else case lookup s pt va of None \<Rightarrow> 0 | Some e \<Rightarrow> if e AND PTE_U = 0 then 0 else PTE2PA e)"

definition ubyte :: "kmem \<Rightarrow> uint64 \<Rightarrow> uint64 \<Rightarrow> byte option" where
  "ubyte s pt va =
     (let pa = frame s pt (PGROUNDDOWN va)
      in if pa = 0 then None else Some (km_mem s pa ! unat (va - PGROUNDDOWN va)))"

text \<open>User frames are pages of their own: no page-table page, and no frame mapped twice.\<close>

definition user_space :: "kmem \<Rightarrow> uint64 \<Rightarrow> bool" where
  "user_space s pt \<longleftrightarrow> (\<forall>p. length (km_mem s p) = 4096) \<and>
     (\<forall>va. frame s pt va \<noteq> 0 \<longrightarrow> frame s pt va \<notin> table_pages s pt) \<and>
     (\<forall>va va'. frame s pt va \<noteq> 0 \<longrightarrow> frame s pt va = frame s pt va' \<longrightarrow> PGROUNDDOWN va = PGROUNDDOWN va')"

lemma walkaddr_frame: "walkaddr s pt va = Ok (frame s pt va)"
  by (simp add: walkaddr_def walk_def walk_level_lookup frame_def lookup_def Let_def linorder_not_le[symmetric] split: option.splits)

lemma those_append: "those (xs @ ys) = (case those xs of None \<Rightarrow> None | Some as \<Rightarrow> map_option (\<lambda>bs. as @ bs) (those ys))"
proof (induction xs)
  case Nil
  show ?case by (cases "those ys") simp_all
next
  case (Cons x xs)
  then show ?case by (cases x; cases "those xs"; cases "those ys") simp_all
qed

lemma those_None: "None \<in> set xs \<Longrightarrow> those xs = None"
  by (induction xs) (auto split: option.splits)

lemma those_map_Some: "those (map (\<lambda>k. Some (f k)) ks) = Some (map f ks)"
  by (induction ks) auto

lemma those_eq_Some: "those ys = Some zs \<longleftrightarrow> ys = map Some zs"
proof (induction ys arbitrary: zs)
  case (Cons y ys)
  show ?case
  proof (cases y)
    case (Some c)
    then show ?thesis using Cons.IH by (cases zs; cases "those ys") auto
  qed auto
qed auto

lemma map_upt_eq: "map f [0..<length xs] = map g xs \<longleftrightarrow> (\<forall>k<length xs. f k = g (xs ! k))"
  unfolding list_eq_iff_nth_eq by simp

lemma those_eq_None: "those xs = None \<longleftrightarrow> None \<in> set xs"
  by (induction xs) (auto split: option.splits)

lemma off_unat: "unat (va - PGROUNDDOWN va) = unat va mod 4096"
proof -
  have "PGROUNDDOWN va \<le> va" by (simp add: word_le_nat_alt unat_PGROUNDDOWN)
  then show ?thesis by (simp add: unat_sub unat_PGROUNDDOWN minus_div_mult_eq_mod)
qed

lemma chunk:
  assumes "k < 4096 - unat (va - PGROUNDDOWN va)"
  shows "PGROUNDDOWN (va + of_nat k) = PGROUNDDOWN va"
    "unat (va + of_nat k - PGROUNDDOWN va) = unat (va - PGROUNDDOWN va) + k"
proof -
  let ?q = "unat va div 4096" and ?r = "unat va mod 4096"
  have k: "?r + k < 4096" using assms by (simp add: off_unat)
  have m: "unat va < 2 ^ 64" using unsigned_less[of va, where ?'a = nat] by simp
  have va: "unat va = ?q * 4096 + ?r" by simp
  have "?q < 0x10000000000000" using m by (simp add: div_less_iff_less_mult)
  then have "unat va + k < 0x10000000000000000" using k va by linarith
  then have lt: "unat va + k < 2 ^ 64" by simp
  then have u: "unat (va + of_nat k) = unat va + k"
    by (subst unat_add_lem[THEN iffD1]) (simp_all add: unat_of_nat_small)
  have e: "unat va + k = (?r + k) + ?q * 4096" using va by simp
  have d: "(unat va + k) div 4096 = ?q" "(unat va + k) mod 4096 = ?r + k"
    unfolding e using k by (simp_all only: div_mult_self1 mod_mult_self1) simp_all
  show g: "PGROUNDDOWN (va + of_nat k) = PGROUNDDOWN va" by (simp add: word_unat_eq_iff unat_PGROUNDDOWN u d)
  show "unat (va + of_nat k - PGROUNDDOWN va) = unat (va - PGROUNDDOWN va) + k"
    using off_unat[of "va + of_nat k"] unfolding g u off_unat d by simp
qed

lemma next_page: "PGROUNDDOWN va + PGSIZE = va + of_nat (4096 - unat (va - PGROUNDDOWN va))"
proof -
  have "unat (va - PGROUNDDOWN va) < 4096" by (rule offset_less)
  then have "of_nat (4096 - unat (va - PGROUNDDOWN va)) = (4096 :: uint64) - (va - PGROUNDDOWN va)"
    by (simp add: of_nat_diff)
  then show ?thesis by (simp add: PGSIZE_def)
qed

lemma ubyte_chunk:
  assumes "k < 4096 - unat (va - PGROUNDDOWN va)"
  shows "ubyte s pt (va + of_nat k) =
    (let pa = frame s pt (PGROUNDDOWN va) in if pa = 0 then None else Some (km_mem s pa ! (unat (va - PGROUNDDOWN va) + k)))"
  by (simp only: ubyte_def chunk[OF assms])

section \<open>Reading\<close>

lemma page_read_map: "off + n \<le> length (km_mem s pa) \<Longrightarrow> page_read s pa off n = map (\<lambda>k. km_mem s pa ! (off + k)) [0..<n]"
  by (intro nth_equalityI) (auto simp: page_read_def)

text \<open>The bytes of one page, and those after it.\<close>

definition ubytes :: "kmem \<Rightarrow> uint64 \<Rightarrow> uint64 \<Rightarrow> nat \<Rightarrow> byte list option" where
  "ubytes s pt va n = those (map (\<lambda>k. ubyte s pt (va + of_nat k)) [0..<n])"

lemma ubytes_chunk:
  assumes "n \<le> 4096 - unat (va - PGROUNDDOWN va)" "0 < n" "\<forall>p. length (km_mem s p) = 4096"
  shows "ubytes s pt va n =
    (let pa = frame s pt (PGROUNDDOWN va) in if pa = 0 then None else Some (page_read s pa (unat (va - PGROUNDDOWN va)) n))"
proof -
  let ?pa = "frame s pt (PGROUNDDOWN va)" and ?off = "unat (va - PGROUNDDOWN va)"
  have "map (\<lambda>k. ubyte s pt (va + of_nat k)) [0..<n] =
      map (\<lambda>k. if ?pa = 0 then None else Some (km_mem s ?pa ! (?off + k))) [0..<n]"
    using assms(1) by (intro map_cong refl) (auto simp: ubyte_chunk Let_def)
  moreover have "?off + n \<le> length (km_mem s ?pa)" using assms(1,3) offset_less[of va] by simp
  ultimately show ?thesis using assms(2) unfolding ubytes_def
    by (simp only:) (auto simp: Let_def those_map_Some page_read_map intro!: those_None)
qed

lemma ubytes_add: "ubytes s pt va (m + n) =
  (case ubytes s pt va m of None \<Rightarrow> None | Some xs \<Rightarrow> map_option (\<lambda>ys. xs @ ys) (ubytes s pt (va + of_nat m) n))"
proof -
  have "map (\<lambda>k. ubyte s pt (va + of_nat k)) [m..<m + n] = map (\<lambda>k. ubyte s pt (va + of_nat m + of_nat k)) [0..<n]"
    by (intro nth_equalityI) (auto simp: add.assoc)
  then show ?thesis unfolding ubytes_def upt_add_eq_append[OF le0] map_append those_append by (simp only: add_0)
qed

text \<open>One round of the copy loops: the chunk \<open>n\<close> of the first page, then the rest from the next page on.\<close>

lemma ubytes_round:
  fixes va :: uint64
  assumes "\<forall>p. length (km_mem s p) = 4096" "0 < len"
  defines "n \<equiv> min (4096 - unat (va - PGROUNDDOWN va)) len"
  shows "ubytes s pt va len =
    (let pa = frame s pt (PGROUNDDOWN va) in if pa = 0 then None
     else map_option (\<lambda>ys. page_read s pa (unat (va - PGROUNDDOWN va)) n @ ys) (ubytes s pt (PGROUNDDOWN va + PGSIZE) (len - n)))"
proof -
  have n: "0 < n" "n \<le> 4096 - unat (va - PGROUNDDOWN va)" "n \<le> len" using assms(2) offset_less[of va] by (simp_all add: n_def)
  have "ubytes s pt (va + of_nat n) (len - n) = ubytes s pt (PGROUNDDOWN va + PGSIZE) (len - n)"
  proof (cases "n = len")
    case True
    then show ?thesis by (simp add: ubytes_def)
  next
    case False
    then have "n = 4096 - unat (va - PGROUNDDOWN va)" by (simp add: n_def min_def split: if_splits)
    then show ?thesis by (simp add: next_page)
  qed
  then show ?thesis using ubytes_add[of s pt va n "len - n"] ubytes_chunk[OF n(2,1) assms(1), of pt] n(3) by (simp add: Let_def)
qed

lemma copyin_ubytes:
  assumes "\<forall>p. length (km_mem s p) = 4096"
  shows "copyin s pt srcva len = Ok (ubytes s pt srcva len)"
  using assms
proof (induction s pt srcva len rule: copyin.induct)
  case (1 s pt srcva len)
  show ?case
  proof (cases "0 < len \<and> frame s pt (PGROUNDDOWN srcva) \<noteq> 0")
    case True
    then show ?thesis
      using 1 ubytes_round[OF 1(2), of len pt srcva] walkaddr_frame[of s pt "PGROUNDDOWN srcva"]
      by (subst copyin.simps) (simp add: Let_def)
  next
    case False
    then show ?thesis using ubytes_round[OF 1(2), of len pt srcva]
      by (subst copyin.simps) (auto simp: walkaddr_frame Let_def ubytes_def)
  qed
qed

section \<open>Writing\<close>

lemma user_spaceD:
  assumes "user_space s pt"
  shows "\<forall>p. length (km_mem s p) = 4096" "frame s pt va \<noteq> 0 \<Longrightarrow> frame s pt va \<notin> table_pages s pt"
    "frame s pt va \<noteq> 0 \<Longrightarrow> frame s pt va = frame s pt va' \<Longrightarrow> PGROUNDDOWN va = PGROUNDDOWN va'"
  using assms unfolding user_space_def by blast+

text \<open>A write to a page outside the tables changes no translation.\<close>

lemma page_write_frames:
  fixes xs :: "byte list" and off :: nat
  assumes "pa \<notin> table_pages s pt"
  defines "s' \<equiv> page_write s pa off xs"
  shows "\<And>is. index_path is \<Longrightarrow> node s' pt is = node s pt is" "frame s' pt va = frame s pt va"
proof -
  have pte: "pte s' t i = pte s t i" if "t \<noteq> pa" for t i using that by (simp add: pte_def s'_def page_write_def)
  show node: "node s' pt is = node s pt is" if "index_path is" for "is"
  proof (rule node_cong[OF that])
    fix js t
    assume "index_path js" "node s pt js = Some t"
    then have "t \<noteq> pa" using assms(1) unfolding table_pages_def by blast
    then show "pte s' t (is ! length js) = pte s t (is ! length js)" by (rule pte)
  qed
  have "leaf_table s' pt va = leaf_table s pt va" unfolding leaf_table_def by (rule node[OF PX_index_path(1)])
  moreover have "t \<noteq> pa" if "leaf_table s pt va = Some t" for t
    using assms(1) that PX_index_path(1) unfolding table_pages_def leaf_table_def by blast
  ultimately have "lookup s' pt va = lookup s pt va" using pte by (simp add: lookup_def split: option.splits)
  then show "frame s' pt va = frame s pt va" by (simp add: frame_def)
qed

lemma page_write_chunk:
  assumes u: "user_space s pt" and n: "length xs \<le> 4096 - unat (va - PGROUNDDOWN va)"
    and pa: "frame s pt (PGROUNDDOWN va) \<noteq> 0"
  defines "s' \<equiv> page_write s (frame s pt (PGROUNDDOWN va)) (unat (va - PGROUNDDOWN va)) xs"
  shows "user_space s' pt" "\<And>a. frame s' pt a = frame s pt a"
    "ubyte s' pt a = (if unat (a - va) < length xs then Some (xs ! unat (a - va)) else ubyte s pt a)"
proof -
  let ?pa = "frame s pt (PGROUNDDOWN va)" and ?off = "unat (va - PGROUNDDOWN va)"
  have len: "\<forall>p. length (km_mem s p) = 4096" by (rule user_spaceD(1)[OF u])
  note f = page_write_frames[OF user_spaceD(2)[OF u pa], where off = ?off and xs = xs, folded s'_def]
  have mem: "km_mem s' = (km_mem s)(?pa := patch (km_mem s ?pa) ?off xs)" by (simp add: s'_def page_write_def)
  show fr: "frame s' pt a = frame s pt a" for a by (rule f(2))
  have tp: "table_pages s' pt = table_pages s pt" unfolding table_pages_def using f(1) by auto
  have off: "?off + length xs \<le> 4096" using n offset_less[of va] by linarith
  then have "length (km_mem s' p) = 4096" for p using len by (simp add: s'_def page_write_def)
  then show "user_space s' pt" using u unfolding user_space_def fr tp by blast
  have down: "PGROUNDDOWN (PGROUNDDOWN b) = PGROUNDDOWN b" for b by (simp add: word_unat_eq_iff unat_PGROUNDDOWN)
  show "ubyte s' pt a = (if unat (a - va) < length xs then Some (xs ! unat (a - va)) else ubyte s pt a)"
  proof (cases "unat (a - va) < length xs")
    case True
    have a: "a = va + of_nat (unat (a - va))" by simp
    have k: "unat (a - va) < 4096 - ?off" using True n by linarith
    have "ubyte s' pt (va + of_nat (unat (a - va))) = Some (xs ! unat (a - va))"
      unfolding ubyte_chunk[OF k] using True pa off len by (simp add: fr Let_def mem nth_patch)
    then show ?thesis using True a by simp
  next
    case False
    show ?thesis
    proof (cases "PGROUNDDOWN a = PGROUNDDOWN va")
      case True
      let ?o = "unat (a - PGROUNDDOWN va)"
      have o: "?o < 4096" using offset_less[of a] True by simp
      have "?o < ?off \<or> ?off + length xs \<le> ?o"
      proof (rule ccontr)
        assume "\<not> ?thesis"
        then have "va - PGROUNDDOWN va \<le> a - PGROUNDDOWN va" "?o < ?off + length xs" by (simp_all add: word_le_nat_alt)
        moreover from this(1) have "unat ((a - PGROUNDDOWN va) - (va - PGROUNDDOWN va)) = ?o - ?off" by (rule unat_sub)
        ultimately show False using False by (simp add: word_le_nat_alt)
      qed
      then show ?thesis using False True o off len pa
        by (auto simp: ubyte_def fr Let_def mem nth_patch)
    next
      case False
      then have "frame s pt (PGROUNDDOWN a) \<noteq> ?pa"
        using user_spaceD(3)[OF u pa, of "PGROUNDDOWN a"] down by metis
      then show ?thesis using \<open>\<not> unat (a - va) < length xs\<close>
        by (simp add: ubyte_def fr Let_def mem)
    qed
  qed
qed

lemma ubytes_None: "ubytes s pt va n = None \<longleftrightarrow> (\<exists>k<n. frame s pt (PGROUNDDOWN (va + of_nat k)) = 0)"
  by (auto simp: ubytes_def those_eq_None ubyte_def Let_def image_iff split: if_splits)

lemma later_chunk:
  fixes a va :: uint64
  assumes "n < len" "len < 2 ^ 64"
  shows "unat (a - (va + of_nat n)) < len - n \<longleftrightarrow> n \<le> unat (a - va) \<and> unat (a - va) < len"
    "n \<le> unat (a - va) \<Longrightarrow> unat (a - (va + of_nat n)) = unat (a - va) - n"
proof -
  have n: "unat (of_nat n :: uint64) = n" using assms by (intro unat_of_nat_small) simp
  have e: "a - (va + of_nat n) = (a - va) - of_nat n" by simp
  show b: "unat (a - (va + of_nat n)) = unat (a - va) - n" if "n \<le> unat (a - va)"
    unfolding e using that n by (subst unat_sub) (simp_all add: word_le_nat_alt)
  have "unat (a - (va + of_nat n)) + n \<ge> 2 ^ 64" if "unat (a - va) < n"
  proof (rule ccontr)
    assume "\<not> ?thesis"
    then have "unat ((a - va) - of_nat n + of_nat n) = unat (a - (va + of_nat n)) + n"
      by (subst unat_add_lem[THEN iffD1]) (simp_all add: n e)
    then show False using that by simp
  qed
  then show "unat (a - (va + of_nat n)) < len - n \<longleftrightarrow> n \<le> unat (a - va) \<and> unat (a - va) < len"
    using b assms by (cases "n \<le> unat (a - va)") auto
qed

definition copied :: "kmem \<Rightarrow> kmem \<Rightarrow> uint64 \<Rightarrow> uint64 \<Rightarrow> byte list \<Rightarrow> bool" where
  "copied s s' pt va src \<longleftrightarrow>
     (\<forall>a. ubyte s' pt a = (if unat (a - va) < length src then Some (src ! unat (a - va)) else ubyte s pt a))"

lemma copyout_ubytes:
  assumes "user_space s pt" "length src < 2 ^ 64"
  shows "\<exists>r s'. copyout s pt va src = Ok (r, s') \<and> user_space s' pt \<and> (\<forall>a. frame s' pt a = frame s pt a) \<and>
    (if ubytes s pt va (length src) = None then r = -1 else r = 0 \<and> copied s s' pt va src)"
  using assms
proof (induction s pt va src rule: copyout.induct)
  case (1 s pt va src)
  let ?pa = "frame s pt (PGROUNDDOWN va)" and ?off = "unat (va - PGROUNDDOWN va)" and ?len = "length src"
  let ?n = "min (4096 - ?off) ?len"
  let ?s = "page_write s ?pa ?off (take ?n src)" and ?va = "PGROUNDDOWN va + PGSIZE"
  note round = ubytes_round[OF user_spaceD(1)[OF 1(2)], of ?len pt va]
  consider "src = []" | "src \<noteq> []" "?pa = 0" | "src \<noteq> []" "?pa \<noteq> 0" by blast
  then show ?case
  proof cases
    case 3
    note c = page_write_chunk[OF 1(2) _ 3(2), of "take ?n src"]
    have IH: "\<exists>r s'. copyout ?s pt ?va (drop ?n src) = Ok (r, s') \<and> user_space s' pt \<and> (\<forall>a. frame s' pt a = frame ?s pt a) \<and>
      (if ubytes ?s pt ?va (?len - ?n) = None then r = -1 else r = 0 \<and> copied ?s s' pt ?va (drop ?n src))"
      using 1(1)[OF 3(1) refl _ 3(2) refl refl] c(1) 1(3) by (simp add: walkaddr_frame)
    then obtain r s' where r: "copyout ?s pt ?va (drop ?n src) = Ok (r, s')" "user_space s' pt" "\<forall>a. frame s' pt a = frame ?s pt a"
        "if ubytes ?s pt ?va (?len - ?n) = None then r = -1 else r = 0 \<and> copied ?s s' pt ?va (drop ?n src)" by blast
    have run: "copyout s pt va src = Ok (r, s')"
      using 3 r(1) by (subst copyout.simps) (simp add: walkaddr_frame Let_def)
    have fr: "\<forall>a. frame s' pt a = frame s pt a" using r(3) c(2) by simp
    have none: "ubytes ?s pt ?va (?len - ?n) = None \<longleftrightarrow> ubytes s pt va ?len = None"
      using round 3 c(2) by (simp add: Let_def ubytes_None)
    have "copied s s' pt va src" if d: "copied ?s s' pt ?va (drop ?n src)"
      unfolding copied_def
    proof
      fix a
      have c3: "ubyte ?s pt a = (if unat (a - va) < ?n then Some (src ! unat (a - va)) else ubyte s pt a)" using c(3)[of a] by simp
      show "ubyte s' pt a = (if unat (a - va) < ?len then Some (src ! unat (a - va)) else ubyte s pt a)"
      proof (cases "?n < ?len")
        case True
        then have "?n = 4096 - ?off" by linarith
        then have "?va = va + of_nat ?n" by (simp only: next_page)
        then show ?thesis using d[unfolded copied_def, rule_format, of a] c3 later_chunk[OF True 1(3), of a va] 
          by auto
      next
        case False
        then show ?thesis using d c3 by (simp add: copied_def)
      qed
    qed
    then show ?thesis using run r(2,4) fr none by auto
  qed (use 1(2) round in \<open>auto simp: copyout.simps[of s] walkaddr_frame Let_def ubytes_def copied_def\<close>)
qed

section \<open>Strings\<close>

definition ustring :: "kmem \<Rightarrow> uint64 \<Rightarrow> uint64 \<Rightarrow> nat \<Rightarrow> byte list \<Rightarrow> bool" where
  "ustring s pt va mx xs \<longleftrightarrow> length xs < mx \<and> 0 \<notin> set xs \<and> ubytes s pt va (length xs + 1) = Some (xs @ [0])"

lemma ubytes_take:
  assumes "ubytes s pt va m = Some ys" "k \<le> m"
  shows "ubytes s pt va k = Some (take k ys)" "length ys = m"
proof -
  have len: "length zs = n" if "ubytes s pt va n = Some zs" for n zs va
    using that unfolding ubytes_def by (induction n arbitrary: zs) (auto simp: those_append split: option.splits)
  show "length ys = m" by (rule len[OF assms(1)])
  show "ubytes s pt va k = Some (take k ys)"
    using assms ubytes_add[of s pt va k "m - k"] len[of va k] by (auto simp: map_option_case split: option.splits)
qed

lemma takeWhile_unique:
  assumes "z \<notin> set xs" "k \<le> length X" "take k X = xs @ [z]"
  shows "xs = takeWhile (\<lambda>c. c \<noteq> z) X"
proof -
  have "X = xs @ z # drop k X" using append_take_drop_id[of k X] assms(3) by simp
  then show ?thesis using assms(1) takeWhile_append2[of xs "\<lambda>c. c \<noteq> z" "z # drop k X"] by fastforce
qed

lemma ustring_found:
  assumes X: "ubytes s pt va n = Some X" "n \<le> mx" and z: "0 \<in> set X"
  shows "ustring s pt va mx xs \<longleftrightarrow> xs = takeWhile (\<lambda>c. c \<noteq> 0) X"
proof
  have len: "length X = n" by (rule ubytes_take(2)[OF X(1) order_refl])
  assume u: "ustring s pt va mx xs"
  have "length xs + 1 \<le> n"
  proof (rule ccontr)
    assume n: "\<not> ?thesis"
    then have "Some (take n (xs @ [0])) = Some X" using ubytes_take(1)[of s pt va "length xs + 1" "xs @ [0]" n] u X(1)
      by (simp add: ustring_def)
    then show False using u z n by (auto simp: ustring_def dest: in_set_takeD)
  qed
  then have "take (length xs + 1) X = xs @ [0]" using ubytes_take(1)[OF X(1)] u by (simp add: ustring_def)
  then show "xs = takeWhile (\<lambda>c. c \<noteq> 0) X" using takeWhile_unique[of 0 xs "length xs + 1" X] u \<open>length xs + 1 \<le> n\<close> len
    by (simp add: ustring_def)
next
  assume xs: "xs = takeWhile (\<lambda>c. c \<noteq> 0) X"
  obtain as ys where X': "X = as @ 0 # ys" "0 \<notin> set as" using split_list_first[OF z] by blast
  then have "xs = as" unfolding xs by (subst X'(1), subst takeWhile_append2) auto
  then have "X = xs @ 0 # ys" using X' by simp
  moreover have "length X = n" by (rule ubytes_take(2)[OF X(1) order_refl])
  moreover have "0 \<notin> set xs" using xs set_takeWhileD by fastforce
  ultimately show "ustring s pt va mx xs" using ubytes_take(1)[OF X(1), of "length xs + 1"] X(2) by (simp add: ustring_def)
qed

lemma ustring_later:
  assumes X: "ubytes s pt va n = Some X" "n \<le> mx" and z: "0 \<notin> set X"
  shows "ustring s pt va mx xs \<longleftrightarrow> (\<exists>ys. xs = X @ ys \<and> ustring s pt (va + of_nat n) (mx - n) ys)"
proof
  assume u: "ustring s pt va mx xs"
  have n: "n \<le> length xs"
  proof (rule ccontr)
    assume "\<not> ?thesis"
    then have "take (length xs + 1) X = xs @ [0]" using ubytes_take(1)[OF X(1), of "length xs + 1"] u by (simp add: ustring_def)
    then show False using z in_set_takeD[of 0 "length xs + 1" X] by simp
  qed
  define ys where "ys = drop n xs"
  have "take n (xs @ [0]) = X" using ubytes_take(1)[of s pt va "length xs + 1" "xs @ [0]" n] u X(1) n by (simp add: ustring_def)
  then have xs: "xs = X @ ys" "length X = n" using n append_take_drop_id[of n xs] by (auto simp: ys_def)
  then have "ubytes s pt va (n + (length ys + 1)) = Some (X @ ys @ [0])" using u by (simp add: ustring_def)
  then have "ubytes s pt (va + of_nat n) (length ys + 1) = Some (ys @ [0])"
    unfolding ubytes_add[of s pt va n] X(1) by auto
  then show "\<exists>ys. xs = X @ ys \<and> ustring s pt (va + of_nat n) (mx - n) ys" using xs u by (intro exI[of _ ys]) (auto simp: ustring_def)
next
  assume "\<exists>ys. xs = X @ ys \<and> ustring s pt (va + of_nat n) (mx - n) ys"
  then obtain ys where ys: "xs = X @ ys" "ustring s pt (va + of_nat n) (mx - n) ys" by blast
  have "length X = n" by (rule ubytes_take(2)[OF X(1) order_refl])
  then show "ustring s pt va mx xs" using ys z ubytes_add[of s pt va n "length ys + 1"] X by (auto simp: ustring_def)
qed

lemma copyinstr_ustring:
  assumes "\<forall>p. length (km_mem s p) = 4096"
  shows "\<exists>r. copyinstr s pt va mx = Ok r \<and> (\<forall>xs. r = Some xs \<longleftrightarrow> ustring s pt va mx xs)"
  using assms
proof (induction s pt va mx rule: copyinstr.induct)
  case (1 s pt va mx)
  let ?pa = "frame s pt (PGROUNDDOWN va)" and ?off = "unat (va - PGROUNDDOWN va)"
  let ?n = "min (4096 - ?off) mx" and ?va = "PGROUNDDOWN va + PGSIZE"
  let ?X = "page_read s ?pa ?off ?n"
  consider "mx = 0" | "0 < mx" "?pa = 0" | "0 < mx" "?pa \<noteq> 0" "0 \<in> set ?X" | "0 < mx" "?pa \<noteq> 0" "0 \<notin> set ?X" by blast
  then show ?case
  proof cases
    case 1
    then show ?thesis by (simp add: copyinstr.simps[of s] ustring_def)
  next
    case 2
    have "ubytes s pt va (Suc k) = None" for k
      unfolding ubytes_None by (rule exI[of _ 0]) (use 2 in simp)
    then show ?thesis using 2 by (simp add: copyinstr.simps[of s] walkaddr_frame Let_def ustring_def)
  next
    case 3
    have X: "ubytes s pt va ?n = Some ?X" using ubytes_chunk[of ?n va s pt] 1(2) 3 offset_less[of va] by (simp add: Let_def)
    have "copyinstr s pt va mx = Ok (Some (takeWhile (\<lambda>c. c \<noteq> 0) ?X))"
      using 3 by (subst copyinstr.simps) (simp add: walkaddr_frame Let_def)
    then show ?thesis using ustring_found[OF X _ 3(3)] by auto
  next
    case 4
    have X: "ubytes s pt va ?n = Some ?X" using ubytes_chunk[of ?n va s pt] 1(2) 4 offset_less[of va] by (simp add: Let_def)
    obtain r where r: "copyinstr s pt ?va (mx - ?n) = Ok r" "\<forall>xs. r = Some xs \<longleftrightarrow> ustring s pt ?va (mx - ?n) xs"
      using 1(1)[OF 4(1) refl _ 4(2) refl refl refl 4(3) 1(2)] by (auto simp: walkaddr_frame)
    have run: "copyinstr s pt va mx = Ok (map_option (\<lambda>ys. ?X @ ys) r)"
      using 4 r(1) by (subst copyinstr.simps) (simp add: walkaddr_frame Let_def)
    have "ustring s pt (va + of_nat ?n) (mx - ?n) ys \<longleftrightarrow> ustring s pt ?va (mx - ?n) ys" for ys
    proof (cases "?n = mx")
      case False
      then have "?n = 4096 - ?off" by linarith
      then have "?va = va + of_nat ?n" by (simp only: next_page)
      then show ?thesis by simp
    qed (simp add: ustring_def)
    then have "ustring s pt va mx xs \<longleftrightarrow> (\<exists>ys. xs = ?X @ ys \<and> r = Some ys)" for xs
      using r(2) ustring_later[OF X _ 4(3), of mx] by simp
    then have "map_option (\<lambda>ys. ?X @ ys) r = Some xs \<longleftrightarrow> ustring s pt va mx xs" for xs by (cases r) auto
    then show ?thesis using run by blast
  qed
qed

section \<open>Properties\<close>

text \<open>C25: \<open>copyout\<close> returns for every user pointer and never panics. It returns -1 exactly when a byte of the
  destination is not mapped for the user; otherwise it returns 0, the destination bytes are those of
  \<open>src\<close>, every other user byte is unchanged, and no translation changes.\<close>

theorem copyout_writes_user_bytes:
  assumes "user_space s pt" "length src < 2 ^ 64"
  shows "\<exists>r s'. copyout s pt dstva src = Ok (r, s') \<and> (\<forall>a. frame s' pt a = frame s pt a) \<and>
    (if \<exists>k<length src. ubyte s pt (dstva + of_nat k) = None then r = -1
     else r = 0 \<and> (\<forall>a. ubyte s' pt a =
       (if unat (a - dstva) < length src then Some (src ! unat (a - dstva)) else ubyte s pt a)))"
proof -
  have none: "ubytes s pt dstva (length src) = None \<longleftrightarrow> (\<exists>k<length src. ubyte s pt (dstva + of_nat k) = None)"
    by (auto simp: ubytes_None ubyte_def Let_def split: if_splits)
  then show ?thesis using copyout_ubytes[OF assms, of dstva] unfolding copied_def none by blast
qed

text \<open>What \<open>copyout\<close> has written, \<open>copyin\<close> at the same user address reads back, across page boundaries.\<close>

theorem copyout_copyin_roundtrip:
  assumes "user_space s pt" "length src < 2 ^ 64" "copyout s pt va src = Ok (0, s')"
  shows "copyin s' pt va (length src) = Ok (Some src)"
proof -
  have s': "user_space s' pt" "copied s s' pt va src"
    using copyout_ubytes[OF assms(1,2), of va] assms(3) by (auto split: if_splits)
  have "ubyte s' pt (va + of_nat k) = Some (src ! k)" if "k < length src" for k
    using s'(2) that assms(2) unat_of_nat_small[of k] unfolding copied_def by simp
  then have "map (\<lambda>k. ubyte s' pt (va + of_nat k)) [0..<length src] = map (\<lambda>k. Some (src ! k)) [0..<length src]" by simp
  then have "ubytes s' pt va (length src) = Some src" unfolding ubytes_def by (simp only: those_map_Some map_nth)
  then show ?thesis using copyin_ubytes[OF user_spaceD(1)[OF s'(1)]] by simp
qed

text \<open>C26: \<open>copyinstr\<close> returns for every user pointer, and it yields a string exactly when the mapped user memory
  holds that string, without zero bytes, followed by a zero byte within the first \<open>max\<close> bytes.\<close>

theorem copyinstr_reads_terminated_string:
  assumes "\<forall>p. length (km_mem s p) = 4096"
  shows "\<exists>r. copyinstr s pt srcva mx = Ok r \<and>
    (\<forall>xs. r = Some xs \<longleftrightarrow> length xs < mx \<and> 0 \<notin> set xs \<and>
      (\<forall>k<length xs. ubyte s pt (srcva + of_nat k) = Some (xs ! k)) \<and>
      ubyte s pt (srcva + of_nat (length xs)) = Some 0)"
proof -
  have "ubytes s pt srcva (length xs + 1) = Some (xs @ [0]) \<longleftrightarrow>
      (\<forall>k<length xs. ubyte s pt (srcva + of_nat k) = Some (xs ! k)) \<and> ubyte s pt (srcva + of_nat (length xs)) = Some 0" for xs
    by (simp add: ubytes_def those_eq_Some map_upt_eq)
  then show ?thesis using copyinstr_ustring[OF assms, of pt srcva mx] unfolding ustring_def by simp
qed

section \<open>Witnesses\<close>

text \<open>An address space with one user page, at address 0.\<close>

definition ex_space :: kmem where
  "ex_space = set_pte (set_pte (set_pte \<lparr>km_mem = \<lambda>_. replicate 4096 0, km_freelist = 0\<rparr> 0x87fff000 0 0x21FFF801)
     0x87ffe000 0 0x21FFF401) 0x87ffd000 0 0x21FFF017"

lemma ex_space_len: "length (km_mem ex_space p) = 4096"
  by (simp add: ex_space_def set_pte_def)

lemma ex_space_pte: "j < 512 \<Longrightarrow> pte ex_space t j =
  (if j \<noteq> 0 then 0 else if t = 0x87fff000 then 0x21FFF801 else if t = 0x87ffe000 then 0x21FFF401
   else if t = 0x87ffd000 then 0x21FFF017 else 0)"
  by (simp add: ex_space_def pte_set_pte set_pte_shape) (simp add: pte_def get_le_zero)

lemma ex_space_node:
  "index_path is \<Longrightarrow> node ex_space 0x87fff000 is =
    (if is = [] then Some 0x87fff000 else if is = [0] then Some 0x87ffe000 else if is = [0, 0] then Some 0x87ffd000 else None)"
  by (erule index_path_cases) (auto simp: ex_space_pte PTE_V_def PTE2PA_def)

lemma ex_space_frame: "frame ex_space 0x87fff000 va = (if va < 4096 then 0x87ffc000 else 0)"
proof (cases "va < MAXVA")
  case True
  have p: "PX 2 va = 0 \<and> PX 1 va = 0 \<and> PX 0 va = 0 \<longleftrightarrow> va < 4096"
  proof -
    have "PX l 0 = 0" for l by (simp add: PX_def)
    moreover have "PGROUNDDOWN va = PGROUNDDOWN 0 \<longleftrightarrow> va < 4096"
      by (simp add: word_unat_eq_iff unat_PGROUNDDOWN word_less_nat_alt div_eq_0_iff)
    ultimately show ?thesis using page_by_indices[OF True, of 0] by (simp add: MAXVA_val)
  qed
  have "lookup ex_space 0x87fff000 va = (if va < 4096 then Some 0x21FFF017 else None)"
    unfolding p[symmetric] lookup_def leaf_table_def ex_space_node[OF PX_index_path(1)]
    by (auto simp: ex_space_pte PX_less PTE_V_def)
  then show ?thesis using True by (auto simp: frame_def PTE_U_def PTE2PA_def)
next
  case False
  then have "\<not> va < 4096" "MAXVA \<le> va" by (auto simp: word_less_nat_alt word_le_nat_alt MAXVA_val)
  then show ?thesis by (simp add: frame_def)
qed

lemma ex_space_user: "user_space ex_space 0x87fff000"
proof -
  have "PGROUNDDOWN va = PGROUNDDOWN va'" if "va < 4096" "va' < 4096" for va va'
    using that by (simp add: word_unat_eq_iff unat_PGROUNDDOWN word_less_nat_alt)
  moreover have "0x87ffc000 \<notin> table_pages ex_space 0x87fff000"
    unfolding table_pages_def by (auto simp: ex_space_node split: if_splits)
  ultimately show ?thesis unfolding user_space_def ex_space_frame using ex_space_len
    by (metis (full_types))
qed

lemma ex_space_ubyte:
  assumes "va < 4096"
  shows "ubyte ex_space 0x87fff000 va = Some 0"
proof -
  have "PGROUNDDOWN va = 0" using assms by (simp add: word_unat_eq_iff unat_PGROUNDDOWN word_less_nat_alt)
  then show ?thesis using assms by (simp add: ubyte_def ex_space_frame Let_def)
    (simp add: ex_space_def set_pte_def word_less_nat_alt)
qed

lemma ex_src: "length [1, 2 :: byte] < 2 ^ 64" by simp

theorem copyout_writes_user_bytes_witness:
  "(\<exists>s'. copyout ex_space 0x87fff000 0x10 [1, 2] = Ok (0, s') \<and> ubyte s' 0x87fff000 0x11 = Some 2) \<and>
   (\<exists>s'. copyout ex_space 0x87fff000 0xFFF [1, 2] = Ok (-1, s'))"
proof
  have "\<not> (\<exists>k<length [1, 2 :: byte]. ubyte ex_space 0x87fff000 (0x10 + of_nat k) = None)"
    using ex_space_ubyte[of "0x10"] ex_space_ubyte[of "0x11"] by (auto simp: less_Suc_eq word_less_nat_alt)
  then obtain s' where "copyout ex_space 0x87fff000 0x10 [1, 2] = Ok (0, s')" and
      w: "\<forall>a. ubyte s' 0x87fff000 a = (if unat (a - 0x10) < length [1, 2 :: byte] then Some ([1, 2] ! unat (a - 0x10))
        else ubyte ex_space 0x87fff000 a)"
    using copyout_writes_user_bytes[OF ex_space_user ex_src, of "0x10"] by auto
  moreover have "ubyte s' 0x87fff000 0x11 = Some 2" using w[rule_format, of "0x11"] by simp
  ultimately show "\<exists>s'. copyout ex_space 0x87fff000 0x10 [1, 2] = Ok (0, s') \<and> ubyte s' 0x87fff000 0x11 = Some 2" by blast
  have "ubyte ex_space 0x87fff000 (0xFFF + of_nat 1) = None"
    by (simp add: ubyte_def ex_space_frame PGROUNDDOWN_div Let_def)
  then have "\<exists>k<length [1, 2 :: byte]. ubyte ex_space 0x87fff000 (0xFFF + of_nat k) = None" by (intro exI[of _ 1]) simp
  then show "\<exists>s'. copyout ex_space 0x87fff000 0xFFF [1, 2] = Ok (-1, s')"
    using copyout_writes_user_bytes[OF ex_space_user ex_src, of "0xFFF"] by auto
qed

lemma ex_copyout: "\<exists>s'. copyout ex_space 0x87fff000 0x10 [1, 2] = Ok (0, s')"
proof -
  have "ubytes ex_space 0x87fff000 0x10 (length [1, 2 :: byte]) \<noteq> None"
    using ex_space_ubyte[of "0x10"] ex_space_ubyte[of "0x11"] by (simp add: ubytes_def word_less_nat_alt)
  then show ?thesis using copyout_ubytes[OF ex_space_user ex_src, of "0x10"] by auto
qed

theorem copyout_copyin_roundtrip_witness:
  "\<exists>s'. copyout ex_space 0x87fff000 0x10 [1, 2] = Ok (0, s') \<and>
     copyin s' 0x87fff000 0x10 (length [1, 2 :: byte]) = Ok (Some [1, 2])"
proof -
  obtain s' where s': "copyout ex_space 0x87fff000 0x10 [1, 2] = Ok (0, s')" using ex_copyout by blast
  then show ?thesis using copyout_copyin_roundtrip[OF ex_space_user ex_src s'] by blast
qed

theorem copyinstr_reads_terminated_string_witness: "copyinstr ex_space 0x87fff000 0x10 4 = Ok (Some [])"
proof -
  obtain r where r: "copyinstr ex_space 0x87fff000 0x10 4 = Ok r"
    "r = Some [] \<longleftrightarrow> length ([] :: byte list) < 4 \<and> 0 \<notin> set ([] :: byte list) \<and>
      (\<forall>k<length ([] :: byte list). ubyte ex_space 0x87fff000 (0x10 + of_nat k) = Some (([] :: byte list) ! k)) \<and>
      ubyte ex_space 0x87fff000 (0x10 + of_nat (length ([] :: byte list))) = Some 0"
    using copyinstr_reads_terminated_string[of ex_space "0x87fff000" "0x10" 4] ex_space_len by blast
  then show ?thesis by (simp add: ex_space_ubyte word_less_nat_alt)
qed

text \<open>The same page table with two free pages.\<close>

definition ex_free :: kmem where
  "ex_free = \<lparr>km_mem = (\<lambda>_. replicate 4096 0)(0x87ff0000 := put64 (replicate 4096 0) 0 0x87fe0000), km_freelist = 0x87ff0000\<rparr>"

lemma ex_free_inv: "pt_inv 0x80020000 ex_free 0x87fff000 [0x87ff0000, 0x87fe0000]"
proof -
  have "kmem_inv 0x80020000 ex_free [0x87ff0000, 0x87fe0000]"
    by (simp add: kmem_inv_def ex_free_def page_ok_def PGSIZE_def PHYSTOP_val run_next_def get_le_zero)
  moreover have node: "node ex_free 0x87fff000 is = (if is = [] then Some 0x87fff000 else None)" if "index_path is" for "is"
    using that by (cases rule: index_path_cases) (simp_all add: ex_free_def pte_def get_le_zero)
  then have "table_pages ex_free 0x87fff000 = {0x87fff000}"
    unfolding table_pages_def by (auto split: if_splits intro: PX_index_path(3))
  ultimately show ?thesis using node by (auto simp: pt_inv_def ex_free_def split: if_splits)
qed

theorem mappages_updates_translation_witness:
  "\<exists>s'. mappages ex_free 0x87fff000 0x1000 PGSIZE 0x87000000 PTE_R = Ok (0, s') \<and>
     lookup s' 0x87fff000 0x1234 = Some (PA2PTE 0x87000000 OR PTE_R OR PTE_V)"
proof -
  have "pte ex_free 0x87fff000 (PX 2 va) = 0" for va
    by (rule pte_zero_page) (simp_all add: ex_free_def PX_less)
  then have "leaf_table ex_free 0x87fff000 va = None" for va by (simp add: leaf_table_def)
  then have "lookup ex_free 0x87fff000 0x1000 = None" by (simp add: lookup_def)
  moreover have "(0x1000 :: uint64) < MAXVA" "(0x1234 :: uint64) < MAXVA" by (simp_all add: MAXVA_val word_less_nat_alt)
  moreover have "PGROUNDDOWN 0x1234 = 0x1000" by (simp add: PGROUNDDOWN_div)
  ultimately show ?thesis
    using mappages_updates_translation[OF ex_free_inv, of "0x1000" "0x87000000" PTE_R] by auto
qed

end
