(* ===== verification/Pipe.thy ===== *)
theory Pipe
  imports Byte_Queue Vm_Copy
begin

text \<open>
  Pipes, \<open>kernel/pipe.c\<close>. A call that may block returns \<open>Ret r\<close> or \<open>Wait c i\<close>: the caller sleeps on channel \<open>c\<close>,
  and after a wakeup its loop goes on with counter \<open>i\<close> and the pipe as it then is. The operations
  hold the pipe's lock throughout except while they sleep, so each stretch between two sleeps is one step. \<open>wakeup\<close>
  changes no pipe; it is part of the process model.
\<close>

section \<open>Definitions\<close>

datatype wait = Ret int | Wait chan int

definition PIPESIZE :: nat where "PIPESIZE = 512"

record pipe =
  p_data :: "byte list"
  p_nread :: uint
  p_nwrite :: uint
  p_readopen :: bool
  p_writeopen :: bool

text \<open>The pipe \<open>pipealloc\<close> sets up in the page at \<open>pi\<close>; \<open>kalloc\<close> has filled the page with 5.\<close>

definition new_pipe :: pipe where
  "new_pipe = \<lparr>p_data = replicate PIPESIZE 5, p_nread = 0, p_nwrite = 0, p_readopen = True, p_writeopen = True\<rparr>"

text \<open>\<open>pi->data[pi->nwrite++ % PIPESIZE] = ch\<close> and \<open>ch = pi->data[pi->nread++ % PIPESIZE]\<close>.\<close>

definition pipe_put :: "byte \<Rightarrow> pipe \<Rightarrow> pipe" where
  "pipe_put ch p = p\<lparr>p_data := (p_data p)[unat (p_nwrite p) mod PIPESIZE := ch], p_nwrite := p_nwrite p + 1\<rparr>"

definition pipe_get :: "pipe \<Rightarrow> byte \<times> pipe" where
  "pipe_get p = (p_data p ! (unat (p_nread p) mod PIPESIZE), p\<lparr>p_nread := p_nread p + 1\<rparr>)"

text \<open>The pipe after \<open>pipeclose\<close>; \<open>None\<close> when both ends are closed and the page is freed.\<close>

definition pipeclose :: "pipe \<Rightarrow> bool \<Rightarrow> pipe option" where
  "pipeclose p writable =
     (let p = (if writable then p\<lparr>p_writeopen := False\<rparr> else p\<lparr>p_readopen := False\<rparr>)
      in if \<not> p_readopen p \<and> \<not> p_writeopen p then None else Some p)"

text \<open>The loop of \<open>pipewrite\<close> from counter \<open>i\<close>, for a process with page table \<open>pt\<close>.\<close>

function pipewrite_from :: "kmem \<Rightarrow> uint64 \<Rightarrow> bool \<Rightarrow> nat \<Rightarrow> uint64 \<Rightarrow> int \<Rightarrow> int \<Rightarrow> pipe \<Rightarrow> (wait \<times> pipe) outcome" where
  "pipewrite_from m pt killed pi addr n i p =
     (if i < n then
        if \<not> p_readopen p \<or> killed then Ok (Ret (-1), p)
        else if p_nwrite p = p_nread p + of_nat PIPESIZE then Ok (Wait (Chan_nwrite pi) i, p)
        else bnd (copyin m pt (addr + of_int i) 1) (\<lambda>r.
             case r of None \<Rightarrow> Ok (Ret i, p)
             | Some cs \<Rightarrow> pipewrite_from m pt killed pi addr n (i + 1) (pipe_put (hd cs) p))
      else Ok (Ret i, p))"
  by pat_completeness auto
termination
  by (relation "measure (\<lambda>(m, pt, killed, pi, addr, n, i, p). nat (n - i))") auto

declare pipewrite_from.simps [simp del]

definition pipewrite :: "kmem \<Rightarrow> uint64 \<Rightarrow> bool \<Rightarrow> nat \<Rightarrow> uint64 \<Rightarrow> int \<Rightarrow> pipe \<Rightarrow> (wait \<times> pipe) outcome" where
  "pipewrite m pt killed pi addr n p = pipewrite_from m pt killed pi addr n 0 p"

text \<open>The copying loop of \<open>piperead\<close>, and \<open>piperead\<close> itself; a reader woken from its sleep starts again.\<close>

function piperead_copy :: "kmem \<Rightarrow> uint64 \<Rightarrow> uint64 \<Rightarrow> int \<Rightarrow> int \<Rightarrow> pipe \<Rightarrow> (int \<times> pipe \<times> kmem) outcome" where
  "piperead_copy m pt addr n i p =
     (if i < n then
        if p_nread p = p_nwrite p then Ok (i, p, m)
        else let (ch, p) = pipe_get p in
             bnd (copyout m pt (addr + of_int i) [ch]) (\<lambda>(r, m).
             if r = -1 then Ok (i, p, m) else piperead_copy m pt addr n (i + 1) p)
      else Ok (i, p, m))"
  by pat_completeness auto
termination
  by (relation "measure (\<lambda>(m, pt, addr, n, i, p). nat (n - i))") auto

declare piperead_copy.simps [simp del]

definition piperead :: "kmem \<Rightarrow> uint64 \<Rightarrow> bool \<Rightarrow> nat \<Rightarrow> uint64 \<Rightarrow> int \<Rightarrow> pipe \<Rightarrow> (wait \<times> pipe \<times> kmem) outcome" where
  "piperead m pt killed pi addr n p =
     (if p_nread p = p_nwrite p \<and> p_writeopen p
      then if killed then Ok (Ret (-1), p, m) else Ok (Wait (Chan_nread pi) 0, p, m)
      else bnd (piperead_copy m pt addr n 0 p) (\<lambda>(i, p, m). Ok (Ret i, p, m)))"

section \<open>The pipe as a queue\<close>

definition pipe_ok :: "pipe \<Rightarrow> bool" where
  "pipe_ok p \<longleftrightarrow> length (p_data p) = PIPESIZE \<and> unat (p_nwrite p - p_nread p) \<le> PIPESIZE"

definition pipe_list :: "pipe \<Rightarrow> byte list" where
  "pipe_list p = ring PIPESIZE (p_data p) (p_nread p) (p_nwrite p)"

lemma PIPESIZE_dvd: "PIPESIZE dvd 2 ^ LENGTH(32)" "PIPESIZE < 2 ^ LENGTH(32)"
  by (simp_all add: PIPESIZE_def)

lemma pipe_put_ok:
  assumes "pipe_ok p" "length (pipe_list p) < PIPESIZE"
  shows "pipe_ok (pipe_put c p) \<and> pipe_list (pipe_put c p) = pipe_list p @ [c]"
proof -
  have l: "pipe_list (pipe_put c p) = pipe_list p @ [c]"
    using ring_put[OF PIPESIZE_dvd(1) _ PIPESIZE_dvd(2), of "p_nwrite p" "p_nread p" "p_data p" c] assms
    by (simp add: pipe_list_def pipe_put_def pipe_ok_def)
  then have "length (pipe_list (pipe_put c p)) = length (pipe_list p) + 1" by simp
  then show ?thesis using l assms by (simp add: pipe_ok_def pipe_list_def) (simp add: pipe_put_def)
qed

lemma pipe_get_ok:
  assumes "pipe_ok p" "pipe_list p \<noteq> []"
  shows "fst (pipe_get p) = hd (pipe_list p) \<and> pipe_ok (snd (pipe_get p)) \<and> pipe_list (snd (pipe_get p)) = tl (pipe_list p)"
proof -
  have "p_nwrite p \<noteq> p_nread p" using assms(2) by (auto simp: pipe_list_def)
  then have r: "pipe_list p = fst (pipe_get p) # pipe_list (snd (pipe_get p))"
    using ring_get[of "p_nwrite p" "p_nread p" PIPESIZE "p_data p"] by (simp add: pipe_list_def pipe_get_def)
  then have "length (pipe_list p) = length (pipe_list (snd (pipe_get p))) + 1" by simp
  then have "pipe_ok (snd (pipe_get p))" using assms(1) by (simp add: pipe_ok_def pipe_list_def) (simp add: pipe_get_def)
  then show ?thesis using r by simp
qed

interpretation pq: byte_queue pipe_ok pipe_list PIPESIZE pipe_put pipe_get
  by unfold_locales (simp_all add: pipe_put_ok pipe_get_ok, simp add: pipe_ok_def pipe_list_def)

lemma pipe_full: "pipe_ok p \<Longrightarrow> p_nwrite p = p_nread p + of_nat PIPESIZE \<longleftrightarrow> length (pipe_list p) = PIPESIZE"
proof -
  assume "pipe_ok p"
  have "p_nwrite p = p_nread p + of_nat PIPESIZE \<longleftrightarrow> p_nwrite p - p_nread p = of_nat PIPESIZE" by (auto simp: algebra_simps)
  also have "\<dots> \<longleftrightarrow> unat (p_nwrite p - p_nread p) = PIPESIZE" by (auto simp: PIPESIZE_def word_unat_eq_iff)
  finally show ?thesis by (simp add: pipe_list_def)
qed

lemma pipe_empty: "p_nread p = p_nwrite p \<longleftrightarrow> pipe_list p = []"
  by (auto simp: pipe_list_def ring_def unat_eq_zero)

section \<open>Writing and reading\<close>

lemma ubytes_1: "ubytes m pt a 1 = map_option (\<lambda>c. [c]) (ubyte m pt a)"
  by (cases "ubyte m pt a") (simp_all add: ubytes_def)

lemma copyin_byte: "user_space m pt \<Longrightarrow> copyin m pt a 1 = Ok (map_option (\<lambda>c. [c]) (ubyte m pt a))"
  using copyin_ubytes[of m pt a 1] by (simp add: user_spaceD(1) ubytes_1 del: One_nat_def)

lemma pipe_put_open [simp]: "p_readopen (pipe_put x p) = p_readopen p"
  by (simp add: pipe_put_def)

lemma pipewrite_from_put:
  assumes "user_space m pt" "p_readopen p" "pipe_ok p"
    and "\<forall>k<length xs. ubyte m pt (addr + of_int i + of_nat k) = Some (xs ! k)"
  shows "pipewrite_from m pt False pi addr (i + int (length xs)) i p =
    (let room = PIPESIZE - length (pipe_list p)
     in Ok (if length xs \<le> room then Ret (i + int (length xs)) else Wait (Chan_nwrite pi) (i + int room), pq.put_all (take room xs) p))"
  using assms
proof (induction xs arbitrary: i p)
  case Nil
  then show ?case by (simp add: pipewrite_from.simps)
next
  case (Cons x xs)
  show ?case
  proof (cases "length (pipe_list p) = PIPESIZE")
    case True
    then show ?thesis using Cons.prems by (simp add: pipewrite_from.simps[of m] pipe_full)
  next
    case False
    then have less: "length (pipe_list p) < PIPESIZE" using pq.bounded[OF Cons.prems(3)] by simp
    note put = pq.put_ok[OF Cons.prems(3) less, of x]
    obtain r where r: "PIPESIZE - length (pipe_list p) = Suc r" "PIPESIZE - length (pipe_list (pipe_put x p)) = r"
      using less put by (cases "PIPESIZE - length (pipe_list p)") simp_all
    have "ubyte m pt (addr + of_int (i + 1) + of_nat k) = Some (xs ! k)" if "k < length xs" for k
      using Cons.prems(4)[rule_format, of "Suc k"] that by (simp add: ac_simps)
    then have "pipewrite_from m pt False pi addr (i + 1 + int (length xs)) (i + 1) (pipe_put x p) =
        Ok (if length xs \<le> r then Ret (i + 1 + int (length xs)) else Wait (Chan_nwrite pi) (i + 1 + int r), pq.put_all (take r xs) (pipe_put x p))"
      using Cons.IH[of "pipe_put x p" "i + 1"] Cons.prems(1,2) put r(2) by (simp add: Let_def)
    moreover have "copyin m pt (addr + of_int i) 1 = Ok (Some [x])"
      using copyin_byte[OF Cons.prems(1)] Cons.prems(4)[rule_format, of 0] by simp
    moreover have "p_nwrite p \<noteq> of_nat PIPESIZE + p_nread p" using pipe_full[OF Cons.prems(3)] False by (simp add: add.commute)
    ultimately show ?thesis using Cons.prems(2) r(1)
      by (simp add: pipewrite_from.simps[of m pt False pi addr _ i] Let_def ac_simps)
  qed
qed

lemma copied_mapped: "copied m m' pt a xs \<Longrightarrow> ubyte m pt b \<noteq> None \<Longrightarrow> ubyte m' pt b \<noteq> None"
  by (simp add: copied_def)

lemma copied_Cons:
  assumes "copied m m1 pt a [x]" "copied m1 m2 pt (a + 1) xs" "length (x # xs) < 2 ^ 64"
  shows "copied m m2 pt a (x # xs)"
  unfolding copied_def
proof
  fix b
  have l: "unat (b - (a + 1)) < length xs \<longleftrightarrow> 1 \<le> unat (b - a) \<and> unat (b - a) < length (x # xs)"
    "1 \<le> unat (b - a) \<Longrightarrow> unat (b - (a + 1)) = unat (b - a) - 1"
    if "xs \<noteq> []" using later_chunk[of 1 "length (x # xs)" b a] assms(3) that by auto
  then show "ubyte m2 pt b = (if unat (b - a) < length (x # xs) then Some ((x # xs) ! unat (b - a)) else ubyte m pt b)"
    using assms(1,2) by (cases "xs = []") (auto simp: copied_def nth_Cons' simp del: unat_eq_0)
qed

lemma piperead_copy_get:
  assumes "user_space m pt" "pipe_ok p" "i \<le> n"
    and "ys = take (nat (n - i)) (pipe_list p)"
    and "\<forall>k<length ys. ubyte m pt (addr + of_int i + of_nat k) \<noteq> None"
  shows "\<exists>m'. piperead_copy m pt addr n i p = Ok (i + int (length ys), snd (pq.get_n (length ys) p), m') \<and>
    user_space m' pt \<and> copied m m' pt (addr + of_int i) ys"
  using assms
proof (induction ys arbitrary: i m p)
  case Nil
  then have "\<not> i < n \<or> pipe_list p = []" by auto
  then show ?case using Nil.prems(1) by (auto simp: piperead_copy.simps[of m] pipe_empty copied_def)
next
  case (Cons y ys)
  have ne: "pipe_list p \<noteq> []" using Cons.prems(4) by auto
  have i: "i < n" using Cons.prems(4) by (cases "i < n") simp_all
  have "take (nat (n - i)) (pipe_list p) = hd (pipe_list p) # take (nat (n - (i + 1))) (tl (pipe_list p))"
  proof -
    have "nat (n - i) = Suc (nat (n - (i + 1)))" using i by linarith
    then show ?thesis using ne by (cases "pipe_list p") simp_all
  qed
  then have y: "y = hd (pipe_list p)" "ys = take (nat (n - (i + 1))) (tl (pipe_list p))" using Cons.prems(4) by simp_all
  obtain p1 where g: "pipe_get p = (y, p1)" "pipe_ok p1" "pipe_list p1 = tl (pipe_list p)"
    using pq.get_ok[OF Cons.prems(2) ne] y(1) by (cases "pipe_get p") auto
  have "ubytes m pt (addr + of_int i) (length [y]) \<noteq> None" using Cons.prems(5)[rule_format, of 0] ubytes_1[of m pt "addr + of_int i"] by simp
  then obtain m1 where c: "copyout m pt (addr + of_int i) [y] = Ok (0, m1)" "user_space m1 pt" "copied m m1 pt (addr + of_int i) [y]"
    using copyout_ubytes[OF Cons.prems(1), of "[y]" "addr + of_int i"] by auto
  have "ubyte m1 pt (addr + of_int (i + 1) + of_nat k) \<noteq> None" if "k < length ys" for k
    using Cons.prems(5)[rule_format, of "Suc k"] that copied_mapped[OF c(3), of "addr + of_int (i + 1) + of_nat k"] by (simp add: ac_simps)
  then obtain m' where r: "piperead_copy m1 pt addr n (i + 1) p1 = Ok (i + 1 + int (length ys), snd (pq.get_n (length ys) p1), m')"
      "user_space m' pt" "copied m1 m' pt (addr + of_int (i + 1)) ys"
    using Cons.IH[of m1 p1 "i + 1"] c(2) g(2,3) y(2) i by auto
  have len: "length (y # ys) < 2 ^ 64"
  proof -
    have "length (y # ys) \<le> length (pipe_list p)" using Cons.prems(4) by simp
    then show ?thesis using pq.bounded[OF Cons.prems(2)] by (simp add: PIPESIZE_def)
  qed
  have "copied m m' pt (addr + of_int i) (y # ys)"
    using copied_Cons[OF c(3) _ len] r(3) by (simp add: ac_simps)
  moreover have "piperead_copy m pt addr n i p = Ok (i + int (length (y # ys)), snd (pq.get_n (length (y # ys)) p), m')"
    using i ne c(1) g(1) r(1) by (simp add: piperead_copy.simps[of m] pipe_empty split_beta)
  ultimately show ?case using r(2) by blast
qed

section \<open>Properties\<close>

text \<open>
  C16: A write to a pipe whose reader is gone, or by a killed process, fails and changes nothing. Any other write of \<open>n\<close>
  readable bytes appends them in order as far as there is room, also where the counters wrap around, and then
  either returns \<open>n\<close> or sleeps with the number of bytes written so far.
\<close>

theorem pipewrite_appends:
  assumes "user_space m pt" "pipe_ok p" "\<forall>k<length xs. ubyte m pt (addr + of_nat k) = Some (xs ! k)"
  shows "\<exists>r p'. pipewrite m pt killed pi addr (int (length xs)) p = Ok (r, p') \<and>
    (if xs \<noteq> [] \<and> (\<not> p_readopen p \<or> killed) then r = Ret (-1) \<and> p' = p
     else let room = PIPESIZE - length (pipe_list p) in pipe_ok p' \<and> pipe_list p' = pipe_list p @ take room xs \<and>
       r = (if length xs \<le> room then Ret (int (length xs)) else Wait (Chan_nwrite pi) (int room)))"
proof (cases "xs \<noteq> [] \<and> (\<not> p_readopen p \<or> killed)")
  case True
  then show ?thesis by (simp add: pipewrite_def pipewrite_from.simps[of m])
next
  case False
  let ?room = "PIPESIZE - length (pipe_list p)"
  note put = pq.put_all_ok[OF assms(2), of "take ?room xs"]
  show ?thesis
  proof (cases "xs = []")
    case True
    then show ?thesis using assms(2) by (simp add: pipewrite_def pipewrite_from.simps[of m])
  next
    case ne: False
    then have "pipewrite m pt killed pi addr (int (length xs)) p =
        Ok (if length xs \<le> ?room then Ret (int (length xs)) else Wait (Chan_nwrite pi) (int ?room), pq.put_all (take ?room xs) p)"
      using pipewrite_from_put[OF assms(1) _ assms(2), of xs addr 0 pi] assms(3) False by (simp add: pipewrite_def Let_def)
    moreover have "length (pipe_list p) + length (take ?room xs) \<le> PIPESIZE" using pq.bounded[OF assms(2)] by simp
    ultimately show ?thesis using put False ne by (simp add: Let_def)
  qed
qed

text \<open>
  C17: A read from an empty pipe with a writer sleeps, or fails for a killed process. Any other read returns at once with the
  oldest bytes of the pipe, as many as are there and were asked for: they are removed from the pipe and stored at the
  destination, and no other byte of the reader changes.
\<close>

theorem piperead_delivers_front:
  assumes "user_space m pt" "pipe_ok p" "0 \<le> n"
    and "ys = take (nat n) (pipe_list p)" "\<forall>k<length ys. ubyte m pt (addr + of_nat k) \<noteq> None"
  shows "\<exists>r p' m'. piperead m pt killed pi addr n p = Ok (r, p', m') \<and>
    (if pipe_list p = [] \<and> p_writeopen p then p' = p \<and> m' = m \<and> r = (if killed then Ret (-1) else Wait (Chan_nread pi) 0)
     else r = Ret (int (length ys)) \<and> pipe_ok p' \<and> pipe_list p = ys @ pipe_list p' \<and>
       (\<forall>a. ubyte m' pt a = (if unat (a - addr) < length ys then Some (ys ! unat (a - addr)) else ubyte m pt a)))"
proof (cases "pipe_list p = [] \<and> p_writeopen p")
  case True
  then show ?thesis by (simp add: piperead_def pipe_empty)
next
  case False
  obtain m' where r: "piperead_copy m pt addr n 0 p = Ok (int (length ys), snd (pq.get_n (length ys) p), m')"
      "copied m m' pt addr ys"
    using piperead_copy_get[OF assms(1,2), of 0 n ys addr] assms(3-5) by auto
  have "piperead m pt killed pi addr n p = Ok (Ret (int (length ys)), snd (pq.get_n (length ys) p), m')"
    using False r(1) by (auto simp: piperead_def pipe_empty)
  moreover have "length ys \<le> length (pipe_list p)" "ys = take (length ys) (pipe_list p)" using assms(4) by (auto simp: min_def)
  ultimately show ?thesis using False r(2) pq.get_n_ok[OF assms(2), of "length ys"]
    by (simp add: copied_def) (metis append_take_drop_id)
qed

text \<open>A pipe whose counters are about to wrap around, and one that holds two bytes.\<close>

theorem pipewrite_appends_witness:
  "\<exists>r p'. pipewrite ex_space 0x87fff000 False 1 0x10 2 (new_pipe\<lparr>p_nread := -1, p_nwrite := -1\<rparr>) = Ok (r, p') \<and>
     r = Ret 2 \<and> pipe_list p' = [0, 0]"
proof -
  let ?p = "new_pipe\<lparr>p_nread := -1, p_nwrite := -1\<rparr>"
  have p: "pipe_ok ?p" "pipe_list ?p = []" by (simp_all add: pipe_ok_def new_pipe_def pipe_list_def)
  have "\<forall>k<length [0, 0 :: byte]. ubyte ex_space 0x87fff000 (0x10 + of_nat k) = Some ([0, 0 :: byte] ! k)"
    using ex_space_ubyte[of "0x10"] ex_space_ubyte[of "0x11"] by (auto simp: less_Suc_eq word_less_nat_alt)
  from pipewrite_appends[OF ex_space_user p(1) this, of False 1] show ?thesis using p(2)
    by (auto simp: PIPESIZE_def new_pipe_def)
qed

theorem piperead_delivers_front_witness:
  "\<exists>r p' m'. piperead ex_space 0x87fff000 False 1 0x10 3 (new_pipe\<lparr>p_nwrite := 2\<rparr>) = Ok (r, p', m') \<and>
     r = Ret 2 \<and> ubyte m' 0x87fff000 0x11 = Some 5"
proof -
  let ?p = "new_pipe\<lparr>p_nwrite := 2\<rparr>"
  have p: "pipe_ok ?p" "pipe_list ?p = [5, 5]"
    by (simp_all add: pipe_ok_def new_pipe_def pipe_list_def PIPESIZE_def ring_def upt_rec)
  have ys: "[5, 5] = take (nat 3) (pipe_list ?p)" by (simp add: p)
  have "\<forall>k<length [5, 5 :: byte]. ubyte ex_space 0x87fff000 (0x10 + of_nat k) \<noteq> None"
    using ex_space_ubyte[of "0x10"] ex_space_ubyte[of "0x11"] by (auto simp: less_Suc_eq word_less_nat_alt)
  from piperead_delivers_front[OF ex_space_user p(1) _ ys this, of False 1] obtain r p' m' where
    "piperead ex_space 0x87fff000 False 1 0x10 3 ?p = Ok (r, p', m')" "r = Ret 2"
    "\<forall>a. ubyte m' 0x87fff000 a = (if unat (a - 0x10) < 2 then Some ([5, 5] ! unat (a - 0x10)) else ubyte ex_space 0x87fff000 a)"
    using p(2) by auto
  moreover from this(3)[rule_format, of "0x11"] have "ubyte m' 0x87fff000 0x11 = Some 5" by simp
  ultimately show ?thesis by blast
qed

end
