(* ===== verification/Sleeplock.thy ===== *)
theory Sleeplock
  imports Kernel_Prelude
begin

text \<open>
  Sleeping locks, \<open>kernel/sleeplock.c\<close>. The spinlock inside a sleep-lock makes every operation atomic, so
  an operation is a function of the lock and of the calling process. \<open>acquiresleep\<close> of a lock that is
  held sleeps on the lock's address \<open>c\<close>; when it is woken it tests the lock again.
\<close>

record sleeplock =
  sl_locked :: bool
  sl_pid :: int

definition initsleeplock :: sleeplock where
  "initsleeplock = \<lparr>sl_locked = False, sl_pid = 0\<rparr>"

definition acquiresleep :: "chan \<Rightarrow> int \<Rightarrow> sleeplock \<Rightarrow> sleeplock outcome" where
  "acquiresleep c pid lk = (if sl_locked lk then Sleep c else Ok \<lparr>sl_locked = True, sl_pid = pid\<rparr>)"

definition releasesleep :: "sleeplock \<Rightarrow> sleeplock" where
  "releasesleep lk = \<lparr>sl_locked = False, sl_pid = 0\<rparr>"

definition holdingsleep :: "int \<Rightarrow> sleeplock \<Rightarrow> bool" where
  "holdingsleep pid lk \<longleftrightarrow> sl_locked lk \<and> sl_pid lk = pid"

lemma acquiresleep_holding: "acquiresleep c pid lk = Ok lk' \<Longrightarrow> \<not> sl_locked lk \<and> holdingsleep pid lk'"
  by (auto simp: acquiresleep_def holdingsleep_def split: if_splits)

lemma releasesleep_free [simp]: "\<not> holdingsleep pid (releasesleep lk)" "\<not> sl_locked (releasesleep lk)"
  by (simp_all add: releasesleep_def holdingsleep_def)

end
