(* ===== verification/Buffer_Cache.thy ===== *)
theory Buffer_Cache
  imports Sleeplock Kernel_Bytes
begin

text \<open>
  The buffer cache, \<open>kernel/bio.c\<close> with \<open>kernel/buf.h\<close>: thirty buffers in a doubly linked list ordered by
  recent use, looked up by device and block number, recycled from the least recently used end.

  A pointer to a buffer is \<open>Buf i\<close> for an element of \<open>bcache.buf\<close> or \<open>Head\<close> for \<open>bcache.head\<close>. The disk is the
  image of its blocks together with the sequence of block writes it has performed. A transfer
  through \<open>rw_queue\<close> completes before it returns, which is its behaviour for a request that is alone in
  the scheduler (\<open>Disk_Sched\<close>). The spinlock \<open>bcache.lock\<close> makes the operations atomic; \<open>bc_pid\<close> is the running
  process.
\<close>

section \<open>State\<close>

definition NBUF :: nat where "NBUF = 30"
definition BSIZE :: nat where "BSIZE = 1024"
definition ROOTDEV :: uint where "ROOTDEV = 1"

datatype bref = Head | Buf nat

record buf =
  b_valid :: bool
  b_disk :: bool
  b_dev :: uint
  b_blockno :: uint
  b_lock :: sleeplock
  b_refcnt :: uint
  b_prev :: bref
  b_next :: bref
  b_data :: "byte list"

record bcache =
  bc_buf :: "buf list"
  bc_head_prev :: bref
  bc_head_next :: bref
  bc_disk :: "uint \<Rightarrow> byte list"
  bc_writes :: "(uint \<times> byte list) list"
  bc_pid :: int

definition upd_buf :: "bcache \<Rightarrow> nat \<Rightarrow> (buf \<Rightarrow> buf) \<Rightarrow> bcache" where
  "upd_buf s i f = s\<lparr>bc_buf := (bc_buf s)[i := f (bc_buf s ! i)]\<rparr>"

fun get_next :: "bcache \<Rightarrow> bref \<Rightarrow> bref" where
  "get_next s Head = bc_head_next s"
| "get_next s (Buf i) = b_next (bc_buf s ! i)"

fun get_prev :: "bcache \<Rightarrow> bref \<Rightarrow> bref" where
  "get_prev s Head = bc_head_prev s"
| "get_prev s (Buf i) = b_prev (bc_buf s ! i)"

fun set_next :: "bcache \<Rightarrow> bref \<Rightarrow> bref \<Rightarrow> bcache" where
  "set_next s Head r = s\<lparr>bc_head_next := r\<rparr>"
| "set_next s (Buf i) r = upd_buf s i (b_next_update (\<lambda>_. r))"

fun set_prev :: "bcache \<Rightarrow> bref \<Rightarrow> bref \<Rightarrow> bcache" where
  "set_prev s Head r = s\<lparr>bc_head_prev := r\<rparr>"
| "set_prev s (Buf i) r = upd_buf s i (b_prev_update (\<lambda>_. r))"

section \<open>Operations\<close>

text \<open>Insertion of a buffer behind the list head, in \<open>binit\<close> and \<open>brelse\<close>.\<close>

definition link_front :: "bcache \<Rightarrow> nat \<Rightarrow> bcache" where
  "link_front s i =
     (let s = set_next s (Buf i) (get_next s Head);
          s = set_prev s (Buf i) Head;
          s = set_prev s (get_next s Head) (Buf i)
      in set_next s Head (Buf i))"

fun binit_from :: "nat \<Rightarrow> nat \<Rightarrow> bcache \<Rightarrow> bcache" where
  "binit_from i 0 s = s"
| "binit_from i (Suc n) s =
     binit_from (Suc i) n (link_front (upd_buf s i (b_lock_update (\<lambda>_. initsleeplock))) i)"

definition binit :: "bcache \<Rightarrow> bcache" where
  "binit s = binit_from 0 NBUF (s\<lparr>bc_head_prev := Head, bc_head_next := Head\<rparr>)"

text \<open>The two loops of \<open>bget\<close>. A round takes one unit of fuel; the list has \<open>NBUF\<close> buffers and the head.\<close>

fun bget_cached :: "nat \<Rightarrow> bcache \<Rightarrow> bref \<Rightarrow> uint \<Rightarrow> uint \<Rightarrow> nat option outcome" where
  "bget_cached 0 s r dev blockno = Diverge"
| "bget_cached (Suc n) s Head dev blockno = Ok None"
| "bget_cached (Suc n) s (Buf i) dev blockno =
     (if b_dev (bc_buf s ! i) = dev \<and> b_blockno (bc_buf s ! i) = blockno then Ok (Some i)
      else bget_cached n s (b_next (bc_buf s ! i)) dev blockno)"

fun bget_unused :: "nat \<Rightarrow> bcache \<Rightarrow> bref \<Rightarrow> nat option outcome" where
  "bget_unused 0 s r = Diverge"
| "bget_unused (Suc n) s Head = Ok None"
| "bget_unused (Suc n) s (Buf i) =
     (if b_refcnt (bc_buf s ! i) = 0 then Ok (Some i) else bget_unused n s (b_prev (bc_buf s ! i)))"

definition lock_buf :: "bcache \<Rightarrow> nat \<Rightarrow> (nat \<times> bcache) outcome" where
  "lock_buf s i =
     bnd (acquiresleep (Chan_buf i) (bc_pid s) (b_lock (bc_buf s ! i))) (\<lambda>lk.
     Ok (i, upd_buf s i (b_lock_update (\<lambda>_. lk))))"

definition bget :: "bcache \<Rightarrow> uint \<Rightarrow> uint \<Rightarrow> (nat \<times> bcache) outcome" where
  "bget s dev blockno =
     bnd (bget_cached (Suc NBUF) s (bc_head_next s) dev blockno) (\<lambda>c.
     case c of Some i \<Rightarrow> lock_buf (upd_buf s i (b_refcnt_update (\<lambda>n. n + 1))) i
     | None \<Rightarrow>
         bnd (bget_unused (Suc NBUF) s (bc_head_prev s)) (\<lambda>u.
         case u of None \<Rightarrow> Panic ''bget: no buffers''
         | Some i \<Rightarrow>
             lock_buf (upd_buf s i (\<lambda>b. b\<lparr>b_dev := dev, b_blockno := blockno, b_valid := False, b_refcnt := 1\<rparr>)) i))"

text \<open>A disk transfer of a buffer.\<close>

definition disk_rw :: "bcache \<Rightarrow> nat \<Rightarrow> bool \<Rightarrow> bcache" where
  "disk_rw s i write =
     (let b = bc_buf s ! i in
      if write then s\<lparr>bc_disk := (bc_disk s)(b_blockno b := b_data b), bc_writes := bc_writes s @ [(b_blockno b, b_data b)]\<rparr>
      else upd_buf s i (b_data_update (\<lambda>_. bc_disk s (b_blockno b))))"

definition bread :: "bcache \<Rightarrow> uint \<Rightarrow> uint \<Rightarrow> (nat \<times> bcache) outcome" where
  "bread s dev blockno =
     bnd (bget s dev blockno) (\<lambda>(i, s).
     if b_valid (bc_buf s ! i) then Ok (i, s)
     else Ok (i, upd_buf (disk_rw s i False) i (b_valid_update (\<lambda>_. True))))"

definition bwrite :: "bcache \<Rightarrow> nat \<Rightarrow> bcache outcome" where
  "bwrite s i = (if \<not> holdingsleep (bc_pid s) (b_lock (bc_buf s ! i)) then Panic ''bwrite'' else Ok (disk_rw s i True))"

definition brelse :: "bcache \<Rightarrow> nat \<Rightarrow> bcache outcome" where
  "brelse s i =
     (if \<not> holdingsleep (bc_pid s) (b_lock (bc_buf s ! i)) then Panic ''brelse''
      else
        let s = upd_buf s i (b_lock_update releasesleep);
            s = upd_buf s i (b_refcnt_update (\<lambda>n. n - 1))
        in Ok (if b_refcnt (bc_buf s ! i) = 0 then
                 let s = set_prev s (b_next (bc_buf s ! i)) (b_prev (bc_buf s ! i));
                     s = set_next s (b_prev (bc_buf s ! i)) (b_next (bc_buf s ! i))
                 in link_front s i
               else s))"

definition bpin :: "bcache \<Rightarrow> nat \<Rightarrow> bcache" where
  "bpin s i = upd_buf s i (b_refcnt_update (\<lambda>n. n + 1))"

definition bunpin :: "bcache \<Rightarrow> nat \<Rightarrow> bcache" where
  "bunpin s i = upd_buf s i (b_refcnt_update (\<lambda>n. n - 1))"

end
