(* ===== verification/Buffer_Lru.thy ===== *)
theory Buffer_Lru
  imports Buffer_Cache
begin

text \<open>
  The list of recent use. \<open>lru s L\<close> relates the prev and next pointers of \<open>bcache\<close> to the list \<open>L\<close> of buffer numbers,
  most recently used first. \<open>bget\<close> searches \<open>L\<close> forwards and then backwards, \<open>brelse\<close> moves a buffer to the front.
\<close>

section \<open>Pointer segments\<close>

fun seg :: "(bref \<Rightarrow> bref) \<Rightarrow> bref \<Rightarrow> nat list \<Rightarrow> bref \<Rightarrow> bool" where
  "seg f r [] r' \<longleftrightarrow> f r = r'"
| "seg f r (i # is) r' \<longleftrightarrow> f r = Buf i \<and> seg f (Buf i) is r'"

definition last_node :: "bref \<Rightarrow> nat list \<Rightarrow> bref" where
  "last_node r is = (if is = [] then r else Buf (last is))"

definition first_node :: "nat list \<Rightarrow> bref" where
  "first_node is = (case is of [] \<Rightarrow> Head | i # _ \<Rightarrow> Buf i)"

lemma seg_append: "seg f r (xs @ i # ys) r' \<longleftrightarrow> seg f r xs (Buf i) \<and> seg f (Buf i) ys r'"
  by (induction xs arbitrary: r) auto

lemma seg_cong: "seg f r is r' \<Longrightarrow> f' r2 = f r \<Longrightarrow> (\<forall>i\<in>set is. f' (Buf i) = f (Buf i)) \<Longrightarrow> seg f' r2 is r'"
  by (induction "is" arbitrary: r r2) auto

lemma seg_set_end:
  "seg f r is r' \<Longrightarrow> distinct is \<Longrightarrow> r \<notin> Buf ` set is \<Longrightarrow> seg (f(last_node r is := x)) r is x"
proof (induction "is" arbitrary: r)
  case (Cons i "is")
  have "last_node r (i # is) = last_node (Buf i) is" by (simp add: last_node_def)
  moreover have "r \<noteq> last_node (Buf i) is" using Cons.prems(3) by (auto simp: last_node_def)
  moreover have "seg (f(last_node (Buf i) is := x)) (Buf i) is x" by (rule Cons.IH) (use Cons.prems in auto)
  moreover from calculation have "(f(last_node (Buf i) is := x)) r = Buf i" using Cons.prems(1) by simp
  ultimately show ?case by (simp only: seg.simps simp_thms)
qed (simp add: last_node_def)

lemma last_node_in: "last_node r is \<in> insert r (Buf ` set is)"
  by (simp add: last_node_def)

lemma seg_first: "seg f r is Head \<Longrightarrow> f r = first_node is"
  by (cases "is") (simp_all add: first_node_def)

text \<open>Unlinking \<open>i\<close>, and putting it before the first or behind the last node.\<close>

lemma seg_unlink:
  assumes "seg f Head (xs @ i # ys) Head" "distinct (xs @ i # ys)"
  shows "seg (f(last_node Head xs := f (Buf i))) Head (xs @ ys) Head"
proof -
  have s: "seg f Head xs (Buf i)" "seg f (Buf i) ys Head" using assms(1) by (simp_all add: seg_append)
  let ?f = "f(last_node Head xs := f (Buf i))"
  have a: "seg ?f Head xs (f (Buf i))" using seg_set_end[OF s(1), of "f (Buf i)"] assms(2) by auto
  show ?thesis
  proof (cases ys)
    case Nil
    then show ?thesis using a s(2) by simp
  next
    case (Cons j zs)
    have "seg f (Buf j) zs Head" "f (Buf i) = Buf j" using s(2) Cons by simp_all
    moreover have "\<forall>k\<in>insert j (set zs). Buf k \<noteq> last_node Head xs" using assms(2) Cons last_node_in[of Head xs] by auto
    ultimately show ?thesis using a Cons by (auto simp: seg_append intro: seg_cong)
  qed
qed

lemma seg_push_front:
  assumes "seg f Head is Head" "i \<notin> set is"
  shows "seg (f(Buf i := f Head, Head := Buf i)) Head (i # is) Head"
  using assms by (auto intro: seg_cong)

lemma seg_push_back:
  assumes "seg f Head is Head" "i \<notin> set is" "distinct is"
  shows "seg (f(Buf i := Head, last_node Head is := Buf i)) Head (is @ [i]) Head"
proof -
  have "seg (f(Buf i := Head)) Head is Head" using assms(1,2) by (auto intro: seg_cong)
  then have "seg (f(Buf i := Head, last_node Head is := Buf i)) Head is (Buf i)"
    using seg_set_end[of "f(Buf i := Head)" Head "is" Head "Buf i"] assms(3) by auto
  moreover have "Buf i \<noteq> last_node Head is" using assms(2) by (auto simp: last_node_def)
  ultimately show ?thesis by (simp add: seg_append)
qed

section \<open>The list of the cache\<close>

definition lru :: "bcache \<Rightarrow> nat list \<Rightarrow> bool" where
  "lru s L \<longleftrightarrow> seg (get_next s) Head L Head \<and> seg (get_prev s) Head (rev L) Head \<and> distinct L \<and>
     set L \<subseteq> {..<length (bc_buf s)}"

lemma length_upd_buf [simp]: "length (bc_buf (upd_buf s i f)) = length (bc_buf s)"
  by (simp add: upd_buf_def)

lemma length_set_link [simp]: "length (bc_buf (set_next s r x)) = length (bc_buf s)"
  "length (bc_buf (set_prev s r x)) = length (bc_buf s)"
  by (cases r; simp)+

lemma nth_upd_buf: "bc_buf (upd_buf s i f) ! j = (if j = i \<and> i < length (bc_buf s) then f (bc_buf s ! j) else bc_buf s ! j)"
  by (cases "i < length (bc_buf s)") (auto simp: upd_buf_def nth_list_update list_update_beyond)

lemma upd_buf_head [simp]: "bc_head_next (upd_buf s i f) = bc_head_next s" "bc_head_prev (upd_buf s i f) = bc_head_prev s"
  by (simp_all add: upd_buf_def)

lemma get_set_next: "r \<in> insert Head (Buf ` {..<length (bc_buf s)}) \<Longrightarrow> get_next (set_next s r x) = (get_next s)(r := x)"
  "get_prev (set_next s r x) = get_prev s"
proof -
  show "get_next (set_next s r x) = (get_next s)(r := x)" if "r \<in> insert Head (Buf ` {..<length (bc_buf s)})"
  proof
    fix q
    show "get_next (set_next s r x) q = ((get_next s)(r := x)) q"
      using that by (cases q; cases r) (auto simp: nth_upd_buf)
  qed
  show "get_prev (set_next s r x) = get_prev s"
  proof
    fix q
    show "get_prev (set_next s r x) q = get_prev s q"
      by (cases q; cases r) (auto simp: nth_upd_buf)
  qed
qed

lemma get_set_prev: "r \<in> insert Head (Buf ` {..<length (bc_buf s)}) \<Longrightarrow> get_prev (set_prev s r x) = (get_prev s)(r := x)"
  "get_next (set_prev s r x) = get_next s"
proof -
  show "get_prev (set_prev s r x) = (get_prev s)(r := x)" if "r \<in> insert Head (Buf ` {..<length (bc_buf s)})"
  proof
    fix q
    show "get_prev (set_prev s r x) q = ((get_prev s)(r := x)) q"
      using that by (cases q; cases r) (auto simp: nth_upd_buf)
  qed
  show "get_next (set_prev s r x) = get_next s"
  proof
    fix q
    show "get_next (set_prev s r x) q = get_next s q"
      by (cases q; cases r) (auto simp: nth_upd_buf)
  qed
qed

text \<open>\<open>link_front\<close> of a buffer outside the list, and the unlinking in \<open>brelse\<close>.\<close>

lemma link_front_lru:
  assumes "lru s L" "i < length (bc_buf s)" "i \<notin> set L"
  shows "lru (link_front s i) (i # L)"
proof -
  let ?s1 = "set_next s (Buf i) (get_next s Head)"
  let ?s2 = "set_prev ?s1 (Buf i) Head"
  let ?s3 = "set_prev ?s2 (get_next ?s2 Head) (Buf i)"
  have sg: "seg (get_next s) Head L Head" "seg (get_prev s) Head (rev L) Head" "distinct L"
    using assms(1) by (simp_all add: lru_def)
  have h: "get_next ?s2 Head = first_node L" using seg_first[OF sg(1)] assms(2) by (simp add: get_set_prev get_set_next)
  have "first_node L \<in> insert Head (Buf ` {..<length (bc_buf s)})"
    using assms(1) by (auto simp: lru_def first_node_def split: list.splits)
  then have "get_next (link_front s i) = (get_next s)(Buf i := get_next s Head, Head := Buf i)"
    "get_prev (link_front s i) = (get_prev s)(Buf i := Head, first_node L := Buf i)"
    using assms(2) h seg_first[OF sg(1)]
    by (simp_all add: link_front_def Let_def get_set_next get_set_prev
          del: set_next.simps set_prev.simps get_next.simps get_prev.simps)
  moreover have "last_node Head (rev L) = first_node L" by (cases L) (simp_all add: last_node_def first_node_def)
  ultimately show ?thesis
    using seg_push_front[OF sg(1) assms(3)] seg_push_back[OF sg(2), of i] assms by (simp add: lru_def link_front_def Let_def)
qed

lemma unlink_lru:
  assumes "lru s (xs @ i # ys)"
  defines "s' \<equiv> set_prev s (b_next (bc_buf s ! i)) (b_prev (bc_buf s ! i))"
  shows "lru (set_next s' (b_prev (bc_buf s' ! i)) (b_next (bc_buf s' ! i))) (xs @ ys)"
proof -
  have sg: "seg (get_next s) Head (xs @ i # ys) Head" "seg (get_prev s) Head (rev ys @ i # rev xs) Head" "distinct (xs @ i # ys)"
    using assms(1) by (simp_all add: lru_def)
  have pv: "b_prev (bc_buf s ! i) = last_node Head xs" 
    using seg_first[of "get_prev s" "Buf i" "rev xs"] sg(2) by (cases xs rule: rev_cases) (simp_all add: seg_append last_node_def first_node_def)
  have nx: "b_next (bc_buf s ! i) = last_node Head (rev ys)"
    using seg_first[of "get_next s" "Buf i" ys] sg(1) by (cases ys) (simp_all add: seg_append last_node_def first_node_def)
  have ok: "last_node Head xs \<in> insert Head (Buf ` {..<length (bc_buf s)})" "last_node Head (rev ys) \<in> insert Head (Buf ` {..<length (bc_buf s)})"
    using assms(1) last_node_in[of Head xs] last_node_in[of Head "rev ys"] by (auto simp: lru_def)
  have i: "Buf i \<noteq> last_node Head (rev ys)" using sg(3) last_node_in[of Head "rev ys"] by auto
  have "b_prev (bc_buf s' ! i) = get_prev s' (Buf i)" "b_next (bc_buf s' ! i) = get_next s' (Buf i)" by simp_all
  then have s': "b_prev (bc_buf s' ! i) = last_node Head xs" "b_next (bc_buf s' ! i) = get_next s (Buf i)"
    using i ok(2) by (simp_all only: s'_def nx get_set_prev) (simp_all add: pv)
  have "set ys \<inter> set xs = {}" using sg(3) by auto
  then show ?thesis
    unfolding s' using seg_unlink[OF sg(1,3)] seg_unlink[OF sg(2)] sg(3) ok assms(1) nx pv
    by (simp add: lru_def s'_def get_set_next get_set_prev)
qed

section \<open>What the links do not touch\<close>

definition strip :: "bcache \<Rightarrow> buf list \<times> (uint \<Rightarrow> byte list) \<times> (uint \<times> byte list) list \<times> int" where
  "strip s = (map (\<lambda>b. b\<lparr>b_prev := Head, b_next := Head\<rparr>) (bc_buf s), bc_disk s, bc_writes s, bc_pid s)"

lemma strip_upd_buf:
  assumes "\<And>b. (f b)\<lparr>b_prev := Head, b_next := Head\<rparr> = b\<lparr>b_prev := Head, b_next := Head\<rparr>"
  shows "strip (upd_buf s i f) = strip s"
proof (cases "i < length (bc_buf s)")
  case True
  then show ?thesis using assms by (simp add: strip_def upd_buf_def map_update list_update_same_conv)
qed (simp add: strip_def upd_buf_def list_update_beyond)

lemma strip_set_link [simp]: "strip (set_next s r x) = strip s" "strip (set_prev s r x) = strip s"
  by (cases r; simp add: strip_upd_buf; simp add: strip_def)+

lemma strip_link_front [simp]: "strip (link_front s i) = strip s"
  by (simp add: link_front_def Let_def del: set_next.simps set_prev.simps)

lemma stripD:
  assumes "strip s = strip s'"
  shows "bc_disk s = bc_disk s'" "bc_writes s = bc_writes s'" "bc_pid s = bc_pid s'" "length (bc_buf s) = length (bc_buf s')"
    "i < length (bc_buf s') \<Longrightarrow> b_valid (bc_buf s ! i) = b_valid (bc_buf s' ! i)"
    "i < length (bc_buf s') \<Longrightarrow> b_dev (bc_buf s ! i) = b_dev (bc_buf s' ! i)"
    "i < length (bc_buf s') \<Longrightarrow> b_blockno (bc_buf s ! i) = b_blockno (bc_buf s' ! i)"
    "i < length (bc_buf s') \<Longrightarrow> b_lock (bc_buf s ! i) = b_lock (bc_buf s' ! i)"
    "i < length (bc_buf s') \<Longrightarrow> b_refcnt (bc_buf s ! i) = b_refcnt (bc_buf s' ! i)"
    "i < length (bc_buf s') \<Longrightarrow> b_data (bc_buf s ! i) = b_data (bc_buf s' ! i)"
proof -
  let ?f = "\<lambda>b :: buf. b\<lparr>b_prev := Head, b_next := Head\<rparr>"
  have m: "map ?f (bc_buf s) = map ?f (bc_buf s')" using assms by (simp add: strip_def)
  show l: "length (bc_buf s) = length (bc_buf s')" using map_eq_imp_length_eq[OF m] .
  show "bc_disk s = bc_disk s'" "bc_writes s = bc_writes s'" "bc_pid s = bc_pid s'" using assms by (simp_all add: strip_def)
  have n: "?f (bc_buf s ! i) = ?f (bc_buf s' ! i)" if "i < length (bc_buf s')" using m that l by (metis nth_map)
  show "b_valid (bc_buf s ! i) = b_valid (bc_buf s' ! i)" if "i < length (bc_buf s')" using arg_cong[OF n[OF that], of b_valid] by simp
  show "b_dev (bc_buf s ! i) = b_dev (bc_buf s' ! i)" if "i < length (bc_buf s')" using arg_cong[OF n[OF that], of b_dev] by simp
  show "b_blockno (bc_buf s ! i) = b_blockno (bc_buf s' ! i)" if "i < length (bc_buf s')" using arg_cong[OF n[OF that], of b_blockno] by simp
  show "b_lock (bc_buf s ! i) = b_lock (bc_buf s' ! i)" if "i < length (bc_buf s')" using arg_cong[OF n[OF that], of b_lock] by simp
  show "b_refcnt (bc_buf s ! i) = b_refcnt (bc_buf s' ! i)" if "i < length (bc_buf s')" using arg_cong[OF n[OF that], of b_refcnt] by simp
  show "b_data (bc_buf s ! i) = b_data (bc_buf s' ! i)" if "i < length (bc_buf s')" using arg_cong[OF n[OF that], of b_data] by simp
qed

lemma lru_upd_buf:
  assumes "\<And>b. b_next (f b) = b_next b" "\<And>b. b_prev (f b) = b_prev b"
  shows "lru (upd_buf s i f) L \<longleftrightarrow> lru s L"
proof -
  have "get_next (upd_buf s i f) = get_next s"
  proof
    fix r show "get_next (upd_buf s i f) r = get_next s r" using assms by (cases r) (auto simp: nth_upd_buf)
  qed
  moreover have "get_prev (upd_buf s i f) = get_prev s"
  proof
    fix r show "get_prev (upd_buf s i f) r = get_prev s r" using assms by (cases r) (auto simp: nth_upd_buf)
  qed
  ultimately show ?thesis by (simp add: lru_def)
qed

section \<open>Searching and releasing\<close>

lemma bget_cached_find:
  "seg (get_next s) r L Head \<Longrightarrow> length L < n \<Longrightarrow>
   bget_cached n s (get_next s r) dev blockno =
     Ok (find (\<lambda>i. b_dev (bc_buf s ! i) = dev \<and> b_blockno (bc_buf s ! i) = blockno) L)"
proof (induction L arbitrary: r n)
  case Nil
  then show ?case by (cases n) simp_all
next
  case (Cons i L)
  obtain m where "n = Suc m" using Cons.prems(2) by (cases n) auto
  then show ?case using Cons.IH[of "Buf i" m] Cons.prems by simp
qed

lemma bget_unused_find:
  "seg (get_prev s) r L Head \<Longrightarrow> length L < n \<Longrightarrow>
   bget_unused n s (get_prev s r) = Ok (find (\<lambda>i. b_refcnt (bc_buf s ! i) = 0) L)"
proof (induction L arbitrary: r n)
  case Nil
  then show ?case by (cases n) simp_all
next
  case (Cons i L)
  obtain m where "n = Suc m" using Cons.prems(2) by (cases n) auto
  then show ?case using Cons.IH[of "Buf i" m] Cons.prems by simp
qed

lemma brelse_lru:
  assumes "lru s L" "i \<in> set L" "holdingsleep (bc_pid s) (b_lock (bc_buf s ! i))"
  defines "t \<equiv> upd_buf s i (\<lambda>b. b_refcnt_update (\<lambda>n. n - 1) (b_lock_update releasesleep b))"
  shows "\<exists>s'. brelse s i = Ok s' \<and> strip s' = strip t \<and> lru s' (if b_refcnt (bc_buf s ! i) = 1 then i # remove1 i L else L)"
proof -
  have i: "i < length (bc_buf s)" using assms(1,2) by (auto simp: lru_def)
  have t: "upd_buf (upd_buf s i (b_lock_update releasesleep)) i (b_refcnt_update (\<lambda>n. n - 1)) = t"
    using i by (simp add: upd_buf_def t_def)
  have L: "lru t L" unfolding t_def using assms(1) by (simp add: lru_upd_buf)
  have z: "b_refcnt (bc_buf t ! i) = 0 \<longleftrightarrow> b_refcnt (bc_buf s ! i) = 1" using i by (simp add: t_def nth_upd_buf)
  show ?thesis
  proof (cases "b_refcnt (bc_buf s ! i) = 1")
    case False
    then have "brelse s i = Ok t" using assms(3) z t by (simp add: brelse_def Let_def)
    then show ?thesis using L False by simp
  next
    case True
    let ?u = "set_prev t (b_next (bc_buf t ! i)) (b_prev (bc_buf t ! i))"
    let ?v = "set_next ?u (b_prev (bc_buf ?u ! i)) (b_next (bc_buf ?u ! i))"
    have r: "brelse s i = Ok (link_front ?v i)" using assms(3) z t True by (simp add: brelse_def Let_def)
    obtain xs ys where xy: "L = xs @ i # ys" "i \<notin> set xs" using split_list_first[OF assms(2)] by blast
    then have "lru ?v (xs @ ys)" using unlink_lru L by blast
    moreover have "i \<notin> set (xs @ ys)" using assms(1) xy by (simp add: lru_def)
    moreover have "i < length (bc_buf ?v)" using i by (simp add: t_def)
    ultimately have "lru (link_front ?v i) (i # xs @ ys)" by (intro link_front_lru)
    moreover have "remove1 i L = xs @ ys" using xy by (simp add: remove1_append)
    ultimately show ?thesis using r True by simp
  qed
qed

section \<open>Initialisation\<close>

lemma binit_from_lru:
  assumes "lru s L" "length (bc_buf s) = NBUF" "i + n \<le> NBUF" "set L = {..<i}"
  shows "\<exists>L'. lru (binit_from i n s) L' \<and> set L' = {..<i + n}"
  using assms
proof (induction n arbitrary: i s L)
  case (Suc n)
  let ?s = "link_front (upd_buf s i (b_lock_update (\<lambda>_. initsleeplock))) i"
  have "lru (upd_buf s i (b_lock_update (\<lambda>_. initsleeplock))) L" using Suc.prems(1) by (simp add: lru_upd_buf)
  then have "lru ?s (i # L)" using Suc.prems by (intro link_front_lru) auto
  moreover have "length (bc_buf ?s) = NBUF" using Suc.prems(2) by (simp add: link_front_def Let_def)
  moreover have "set (i # L) = {..<Suc i}" using Suc.prems(4) by (simp add: lessThan_Suc)
  ultimately show ?case using Suc.IH[of ?s "i # L" "Suc i"] Suc.prems(3) by simp
qed auto

lemma binit_lru:
  assumes "length (bc_buf s) = NBUF"
  shows "\<exists>L. lru (binit s) L \<and> set L = {..<NBUF}"
proof -
  let ?s = "s\<lparr>bc_head_prev := Head, bc_head_next := Head\<rparr>"
  have "lru ?s []" by (simp add: lru_def)
  then show ?thesis unfolding binit_def using binit_from_lru[of ?s "[]" 0 NBUF] assms by simp
qed

end
