(* ===== verification/Buffer_View.thy ===== *)
theory Buffer_View
  imports Buffer_Lru
begin

text \<open>
  The contract of the buffer cache. The cache makes the disk look like an array \<open>view\<close> of blocks. \<open>cache_ok s P H\<close> is
  the state between two operations of the running process: \<open>P\<close> are the blocks pinned in the cache, \<open>H\<close> the
  blocks whose buffers the process holds, and every other valid buffer agrees with the disk. The locale
  \<open>block_cache\<close> states what the clients rely on, and its interpretation \<open>bc\<close> shows it of \<open>kernel/bio.c\<close>.
\<close>

section \<open>Interface\<close>

locale block_cache =
  fixes ok :: "'s \<Rightarrow> uint set \<Rightarrow> uint set \<Rightarrow> bool"
    and view :: "'s \<Rightarrow> uint \<Rightarrow> byte list"
    and disk :: "'s \<Rightarrow> uint \<Rightarrow> byte list"
    and writes :: "'s \<Rightarrow> (uint \<times> byte list) list"
    and handle :: "'s \<Rightarrow> uint \<Rightarrow> nat"
    and fetch :: "'s \<Rightarrow> uint \<Rightarrow> (nat \<times> 's) outcome"
    and store :: "'s \<Rightarrow> nat \<Rightarrow> 's outcome"
    and release :: "'s \<Rightarrow> nat \<Rightarrow> 's outcome"
    and pin :: "'s \<Rightarrow> nat \<Rightarrow> 's"
    and unpin :: "'s \<Rightarrow> nat \<Rightarrow> 's"
    and data :: "'s \<Rightarrow> nat \<Rightarrow> byte list"
    and blockno :: "'s \<Rightarrow> nat \<Rightarrow> uint"
    and set_data :: "'s \<Rightarrow> nat \<Rightarrow> byte list \<Rightarrow> 's"
    and capacity :: nat
    and bsize :: nat
  assumes fetch_ok: "ok s P H \<Longrightarrow> b \<notin> H \<Longrightarrow> b \<in> P \<or> card (P \<union> H) < capacity \<Longrightarrow>
      \<exists>s'. fetch s b = Ok (handle s' b, s') \<and> ok s' P (insert b H) \<and> view s' = view s \<and> disk s' = disk s \<and>
        writes s' = writes s \<and> (\<forall>c\<in>P \<union> H. handle s' c = handle s c)"
    and data_view: "ok s P H \<Longrightarrow> b \<in> H \<Longrightarrow> data s (handle s b) = view s b"
    and blockno_handle: "ok s P H \<Longrightarrow> b \<in> P \<union> H \<Longrightarrow> blockno s (handle s b) = b"
    and set_data_ok: "ok s P H \<Longrightarrow> b \<in> H \<Longrightarrow> length d = bsize \<Longrightarrow>
      ok (set_data s (handle s b) d) P H \<and> view (set_data s (handle s b) d) = (view s)(b := d) \<and>
      disk (set_data s (handle s b) d) = disk s \<and> writes (set_data s (handle s b) d) = writes s \<and>
      handle (set_data s (handle s b) d) = handle s"
    and store_ok: "ok s P H \<Longrightarrow> b \<in> H \<Longrightarrow>
      \<exists>s'. store s (handle s b) = Ok s' \<and> ok s' P H \<and> view s' = view s \<and> disk s' = (disk s)(b := view s b) \<and>
        writes s' = writes s @ [(b, view s b)] \<and> handle s' = handle s"
    and release_ok: "ok s P H \<Longrightarrow> b \<in> H \<Longrightarrow> b \<in> P \<or> view s b = disk s b \<Longrightarrow>
      \<exists>s'. release s (handle s b) = Ok s' \<and> ok s' P (H - {b}) \<and> view s' = view s \<and> disk s' = disk s \<and>
        writes s' = writes s \<and> handle s' = handle s"
    and pin_ok: "ok s P H \<Longrightarrow> b \<in> H \<Longrightarrow> b \<notin> P \<Longrightarrow>
      ok (pin s (handle s b)) (insert b P) H \<and> view (pin s (handle s b)) = view s \<and> disk (pin s (handle s b)) = disk s \<and>
      writes (pin s (handle s b)) = writes s \<and> handle (pin s (handle s b)) = handle s"
    and unpin_ok: "ok s P H \<Longrightarrow> b \<in> H \<Longrightarrow> b \<in> P \<Longrightarrow>
      ok (unpin s (handle s b)) (P - {b}) H \<and> view (unpin s (handle s b)) = view s \<and> disk (unpin s (handle s b)) = disk s \<and>
      writes (unpin s (handle s b)) = writes s \<and> handle (unpin s (handle s b)) = handle s"
    and clean: "ok s P H \<Longrightarrow> b \<notin> P \<union> H \<Longrightarrow> view s b = disk s b"
    and view_length: "ok s P H \<Longrightarrow> length (view s b) = bsize"

begin

text \<open>Reading a block, changing it, writing it through and releasing it.\<close>

lemma fetch_modify_store:
  assumes "ok s P H" "b \<notin> H" "b \<in> P \<or> card (P \<union> H) < capacity" "length (g (view s b)) = bsize"
  shows "\<exists>s'. bnd (fetch s b) (\<lambda>(h, s). bnd (store (set_data s h (g (data s h))) h) (\<lambda>s. release s h)) = Ok s' \<and>
    ok s' P H \<and> view s' = (view s)(b := g (view s b)) \<and> disk s' = (disk s)(b := g (view s b)) \<and>
    writes s' = writes s @ [(b, g (view s b))] \<and> (\<forall>c\<in>P \<union> H. handle s' c = handle s c)"
proof -
  obtain s1 where s1: "fetch s b = Ok (handle s1 b, s1)" "ok s1 P (insert b H)" "view s1 = view s" "disk s1 = disk s"
      "writes s1 = writes s" "\<forall>c\<in>P \<union> H. handle s1 c = handle s c" using fetch_ok[OF assms(1-3)] by blast
  let ?s2 = "set_data s1 (handle s1 b) (g (view s b))"
  have d: "data s1 (handle s1 b) = view s b" using data_view[OF s1(2)] s1(3) by simp
  have s2: "ok ?s2 P (insert b H)" "view ?s2 = (view s)(b := g (view s b))" "disk ?s2 = disk s" "writes ?s2 = writes s" "handle ?s2 = handle s1"
    using set_data_ok[OF s1(2) _ assms(4)] s1 by simp_all
  obtain s3 where s3: "store ?s2 (handle s1 b) = Ok s3" "ok s3 P (insert b H)" "view s3 = view ?s2"
      "disk s3 = (disk s)(b := g (view s b))" "writes s3 = writes s @ [(b, g (view s b))]" "handle s3 = handle s1"
    using store_ok[OF s2(1), of b] s2 by auto
  obtain s4 where "release s3 (handle s1 b) = Ok s4" "ok s4 P (insert b H - {b})" "view s4 = view s3" "disk s4 = disk s3"
      "writes s4 = writes s3" "handle s4 = handle s3"
    using release_ok[OF s3(2), of b] s3 s2 by auto
  moreover have "insert b H - {b} = H" using assms(2) by auto
  ultimately show ?thesis using s1 s2 s3 d by (intro exI[of _ s4]) simp
qed

text \<open>Reading a block and releasing it.\<close>

lemma fetch_release:
  assumes "ok s P H" "b \<notin> H" "b \<in> P \<or> card (P \<union> H) < capacity"
  shows "\<exists>s1 s'. fetch s b = Ok (handle s1 b, s1) \<and> data s1 (handle s1 b) = view s b \<and> release s1 (handle s1 b) = Ok s' \<and>
    ok s' P H \<and> view s' = view s \<and> disk s' = disk s \<and> writes s' = writes s \<and> (\<forall>c\<in>P \<union> H. handle s' c = handle s c)"
proof -
  obtain s1 where s1: "fetch s b = Ok (handle s1 b, s1)" "ok s1 P (insert b H)" "view s1 = view s" "disk s1 = disk s"
      "writes s1 = writes s" "\<forall>c\<in>P \<union> H. handle s1 c = handle s c" using fetch_ok[OF assms(1-3)] by blast
  have "b \<in> P \<or> view s1 b = disk s1 b" using clean[OF assms(1), of b] assms(2) s1 by auto
  then obtain s4 where "release s1 (handle s1 b) = Ok s4" "ok s4 P (insert b H - {b})" "view s4 = view s1" "disk s4 = disk s1"
      "writes s4 = writes s1" "handle s4 = handle s1"
    using release_ok[OF s1(2), of b] by auto
  moreover have "insert b H - {b} = H" using assms(2) by auto
  ultimately show ?thesis using s1 data_view[OF s1(2), of b] by (intro exI[of _ s1] exI[of _ s4]) simp
qed

end

section \<open>The cache as an array of blocks\<close>

definition caches :: "bcache \<Rightarrow> nat \<Rightarrow> uint \<Rightarrow> bool" where
  "caches s i b \<longleftrightarrow> i < NBUF \<and> b_dev (bc_buf s ! i) = ROOTDEV \<and> b_blockno (bc_buf s ! i) = b"

definition handle :: "bcache \<Rightarrow> uint \<Rightarrow> nat" where
  "handle s b = (case find (\<lambda>i. caches s i b) [0..<NBUF] of Some i \<Rightarrow> i | None \<Rightarrow> 0)"

definition view :: "bcache \<Rightarrow> uint \<Rightarrow> byte list" where
  "view s b =
     (case find (\<lambda>i. caches s i b \<and> b_valid (bc_buf s ! i)) [0..<NBUF] of
        Some i \<Rightarrow> b_data (bc_buf s ! i) | None \<Rightarrow> bc_disk s b)"

definition buf_ok :: "(uint \<Rightarrow> byte list) \<Rightarrow> int \<Rightarrow> uint set \<Rightarrow> uint set \<Rightarrow> buf \<Rightarrow> bool" where
  "buf_ok d pid P H b \<longleftrightarrow> length (b_data b) = BSIZE \<and>
     (if b_dev b = ROOTDEV then
        b_refcnt b = of_bool (b_blockno b \<in> P) + of_bool (b_blockno b \<in> H) \<and>
        (sl_locked (b_lock b) \<longleftrightarrow> b_blockno b \<in> H) \<and> (sl_locked (b_lock b) \<longrightarrow> sl_pid (b_lock b) = pid) \<and>
        (b_blockno b \<in> P \<union> H \<longrightarrow> b_valid b) \<and>
        (b_blockno b \<notin> P \<union> H \<longrightarrow> b_valid b \<longrightarrow> b_data b = d (b_blockno b))
      else b_refcnt b = 0 \<and> \<not> sl_locked (b_lock b))"

definition cache_ok :: "bcache \<Rightarrow> uint set \<Rightarrow> uint set \<Rightarrow> bool" where
  "cache_ok s P H \<longleftrightarrow>
     (\<exists>L. lru s L \<and> set L = {..<NBUF}) \<and> length (bc_buf s) = NBUF \<and> (\<forall>b. length (bc_disk s b) = BSIZE) \<and>
     (\<forall>i<NBUF. buf_ok (bc_disk s) (bc_pid s) P H (bc_buf s ! i)) \<and>
     (\<forall>i j b. caches s i b \<longrightarrow> caches s j b \<longrightarrow> i = j) \<and> (\<forall>b\<in>P \<union> H. \<exists>i. caches s i b)"

lemma cache_okD:
  assumes "cache_ok s P H"
  shows "\<exists>L. lru s L \<and> set L = {..<NBUF}" "length (bc_buf s) = NBUF" "length (bc_disk s b) = BSIZE"
    "i < NBUF \<Longrightarrow> buf_ok (bc_disk s) (bc_pid s) P H (bc_buf s ! i)"
    "caches s i b \<Longrightarrow> caches s j b \<Longrightarrow> i = j" "b \<in> P \<union> H \<Longrightarrow> \<exists>i. caches s i b"
  using assms unfolding cache_ok_def by blast+

lemma find_unique:
  assumes "P i" "i \<in> set xs" "\<And>j. P j \<Longrightarrow> j \<in> set xs \<Longrightarrow> j = i"
  shows "find P xs = Some i"
proof (cases "find P xs")
  case None
  then show ?thesis using assms(1,2) by (auto simp: find_None_iff)
next
  case (Some j)
  then have "P j" "j \<in> set xs" by (auto simp: find_Some_iff)
  then show ?thesis using Some assms(3) by auto
qed

lemma find_SomeD: "find P xs = Some i \<Longrightarrow> P i \<and> i \<in> set xs"
  by (auto simp: find_Some_iff)

lemma handleI:
  assumes "cache_ok s P H" "caches s i b"
  shows "handle s b = i"
proof -
  have "find (\<lambda>i. caches s i b) [0..<NBUF] = Some i"
    using assms cache_okD(5)[OF assms(1)] by (intro find_unique) (auto simp: caches_def)
  then show ?thesis by (simp add: handle_def)
qed

lemma viewI:
  assumes "cache_ok s P H" "caches s i b" "b_valid (bc_buf s ! i)"
  shows "view s b = b_data (bc_buf s ! i)"
proof -
  have "find (\<lambda>i. caches s i b \<and> b_valid (bc_buf s ! i)) [0..<NBUF] = Some i"
    using assms cache_okD(5)[OF assms(1)] by (intro find_unique) (auto simp: caches_def)
  then show ?thesis by (simp add: view_def)
qed

lemma view_disk:
  assumes "\<And>i. caches s i b \<Longrightarrow> \<not> b_valid (bc_buf s ! i)"
  shows "view s b = bc_disk s b"
proof -
  have "find (\<lambda>i. caches s i b \<and> b_valid (bc_buf s ! i)) [0..<NBUF] = None"
    using assms by (auto simp: find_None_iff)
  then show ?thesis by (simp add: view_def)
qed

lemma handle_caches:
  assumes "cache_ok s P H" "b \<in> P \<union> H"
  shows "caches s (handle s b) b" "b_valid (bc_buf s ! handle s b)"
proof -
  obtain i where i: "caches s i b" using cache_okD(6)[OF assms] by blast
  then show c: "caches s (handle s b) b" using handleI[OF assms(1) i] by simp
  then show "b_valid (bc_buf s ! handle s b)" using cache_okD(4)[OF assms(1), of "handle s b"] assms(2)
    by (auto simp: buf_ok_def caches_def)
qed

lemma cache_clean:
  assumes "cache_ok s P H" "b \<notin> P \<union> H"
  shows "view s b = bc_disk s b"
proof (cases "\<exists>i. caches s i b \<and> b_valid (bc_buf s ! i)")
  case True
  then obtain i where i: "caches s i b" "b_valid (bc_buf s ! i)" by blast
  then show ?thesis using viewI[OF assms(1) i] cache_okD(4)[OF assms(1), of i] assms(2) by (auto simp: buf_ok_def caches_def)
qed (use view_disk in blast)

lemma view_len:
  assumes "cache_ok s P H"
  shows "length (view s b) = BSIZE"
proof (cases "\<exists>i. caches s i b \<and> b_valid (bc_buf s ! i)")
  case True
  then obtain i where i: "caches s i b" "b_valid (bc_buf s ! i)" by blast
  then show ?thesis using viewI[OF assms i] cache_okD(4)[OF assms(1), of i] by (auto simp: buf_ok_def caches_def)
next
  case False
  then have "view s b = bc_disk s b" by (intro view_disk) blast
  then show ?thesis using cache_okD(3)[OF assms] by simp
qed

section \<open>Changing one buffer\<close>

text \<open>The links do not matter for the contract.\<close>

lemma buf_ok_links [simp]: "buf_ok d pid P H (b\<lparr>b_prev := r, b_next := q\<rparr>) = buf_ok d pid P H b"
  by (simp add: buf_ok_def)

lemma strip_nth:
  assumes "strip s = strip t" "i < length (bc_buf t)"
  shows "(bc_buf s ! i)\<lparr>b_prev := Head, b_next := Head\<rparr> = (bc_buf t ! i)\<lparr>b_prev := Head, b_next := Head\<rparr>"
proof -
  have "map (\<lambda>b. b\<lparr>b_prev := Head, b_next := Head\<rparr>) (bc_buf s) = map (\<lambda>b. b\<lparr>b_prev := Head, b_next := Head\<rparr>) (bc_buf t)"
    using assms(1) by (simp add: strip_def)
  then show ?thesis using assms(2) stripD(4)[OF assms(1)] by (metis nth_map)
qed

lemma cache_ok_strip:
  assumes "strip s = strip t" "lru s L" "set L = {..<NBUF}" "cache_ok t P H"
  shows "cache_ok s P H" "view s = view t" "handle s = handle t"
proof -
  have len: "length (bc_buf t) = NBUF" by (rule cache_okD(2)[OF assms(4)])
  note d = stripD[OF assms(1), unfolded len]
  have c: "caches s = caches t" by (intro ext) (auto simp: caches_def d)
  have "buf_ok (bc_disk s) (bc_pid s) P H (bc_buf s ! i)" if "i < NBUF" for i
    using cache_okD(4)[OF assms(4) that] strip_nth[OF assms(1), of i] that len buf_ok_links d(1,3) by metis
  then show "cache_ok s P H" using assms(2,3,4) c d(1,4) unfolding cache_ok_def by auto
  show "handle s = handle t" by (intro ext) (simp add: handle_def c)
  show "view s = view t"
  proof
    fix b
    have "find (\<lambda>i. caches s i b \<and> b_valid (bc_buf s ! i)) [0..<NBUF] = find (\<lambda>i. caches t i b \<and> b_valid (bc_buf t ! i)) [0..<NBUF]"
      using c d(5) by (intro find_cong) auto
    then show "view s b = view t b" using d(1,10)
      by (cases "find (\<lambda>i. caches t i b \<and> b_valid (bc_buf t ! i)) [0..<NBUF]") (auto simp: view_def dest: find_SomeD)
  qed
qed

lemma buf_ok_mono:
  assumes "buf_ok d pid P H b"
    "b_dev b = ROOTDEV \<Longrightarrow> (b_blockno b \<in> P' \<longleftrightarrow> b_blockno b \<in> P) \<and> (b_blockno b \<in> H' \<longleftrightarrow> b_blockno b \<in> H) \<and> d' (b_blockno b) = d (b_blockno b)"
  shows "buf_ok d' pid P' H' b"
  using assms by (cases "b_dev b = ROOTDEV") (auto simp: buf_ok_def)

text \<open>Buffer \<open>i\<close> becomes the buffer of block \<open>c\<close>.\<close>

lemma cache_upd:
  fixes w :: "(uint \<times> byte list) list"
  assumes ok: "cache_ok s P H" and i: "i < NBUF" and f: "\<And>b. b_next (f b) = b_next b" "\<And>b. b_prev (f b) = b_prev b"
    and new: "b_dev (f (bc_buf s ! i)) = ROOTDEV" "b_blockno (f (bc_buf s ! i)) = c" "b_valid (f (bc_buf s ! i))"
      "buf_ok d (bc_pid s) P' H' (f (bc_buf s ! i))" and only: "\<And>j. caches s j c \<Longrightarrow> j = i"
    and old: "b_dev (bc_buf s ! i) = ROOTDEV \<Longrightarrow> b_blockno (bc_buf s ! i) = c \<or> b_blockno (bc_buf s ! i) \<notin> P \<union> H"
    and rest: "\<And>b. b \<noteq> c \<Longrightarrow> (b \<in> P' \<longleftrightarrow> b \<in> P) \<and> (b \<in> H' \<longleftrightarrow> b \<in> H) \<and> d b = bc_disk s b"
    and dlen: "length (d c) = BSIZE"
  defines "s' \<equiv> (upd_buf s i f)\<lparr>bc_disk := d, bc_writes := w\<rparr>"
  shows "cache_ok s' P' H'" "view s' = (view s)(c := b_data (f (bc_buf s ! i)))" "handle s' c = i"
    "b \<in> P \<union> H \<Longrightarrow> b \<noteq> c \<Longrightarrow> handle s' b = handle s b" "caches s i c \<Longrightarrow> handle s' = handle s"
proof -
  have len: "length (bc_buf s) = NBUF" by (rule cache_okD(2)[OF ok])
  have nth: "bc_buf s' ! j = (if j = i then f (bc_buf s ! i) else bc_buf s ! j)" for j using i len by (auto simp: s'_def nth_upd_buf)
  have c: "caches s' j b \<longleftrightarrow> (if j = i then b = c else b \<noteq> c \<and> caches s j b)" for j b
  proof (cases "j = i")
    case True
    then show ?thesis using new(1,2) i by (auto simp: caches_def nth)
  next
    case False
    then have "caches s' j b = caches s j b" by (simp add: caches_def nth)
    then show ?thesis using False only[of j] by (cases "b = c") auto
  qed
  obtain L where L: "lru s L" "set L = {..<NBUF}" using cache_okD(1)[OF ok] by blast
  have "get_next s' = get_next (upd_buf s i f)" "get_prev s' = get_prev (upd_buf s i f)"
  proof -
    show "get_next s' = get_next (upd_buf s i f)" by (rule ext, case_tac x) (simp_all add: s'_def)
    show "get_prev s' = get_prev (upd_buf s i f)" by (rule ext, case_tac x) (simp_all add: s'_def)
  qed
  then have L': "lru s' L" using lru_upd_buf[of f s i L] f L(1) by (simp add: lru_def s'_def)
  have bufs: "buf_ok (bc_disk s') (bc_pid s') P' H' (bc_buf s' ! j)" if "j < NBUF" for j
  proof (cases "j = i")
    case True
    then show ?thesis using new(4) nth by (simp add: s'_def upd_buf_def)
  next
    case False
    have "b_blockno (bc_buf s ! j) \<noteq> c" if "b_dev (bc_buf s ! j) = ROOTDEV" using only[of j] False \<open>j < NBUF\<close> that by (auto simp: caches_def)
    then show ?thesis using cache_okD(4)[OF ok that] rest False nth
      by (auto simp: s'_def upd_buf_def intro!: buf_ok_mono[of "bc_disk s" "bc_pid s" P H])
  qed
  have uniq: "j = k" if "caches s' j b" "caches s' k b" for j k b
    using that c cache_okD(5)[OF ok, of j b k] by (auto split: if_splits)
  have cov: "\<exists>j. caches s' j b" if "b \<in> P' \<union> H'" for b
  proof (cases "b = c")
    case False
    then have "b \<in> P \<union> H" using rest that by auto
    then obtain j where "caches s j b" using cache_okD(6)[OF ok] by blast
    moreover have "j \<noteq> i" using calculation old False rest that by (auto simp: caches_def)
    ultimately show ?thesis using c False by auto
  qed (use c in auto)
  have "length (bc_disk s' b) = BSIZE" for b using dlen rest cache_okD(3)[OF ok] by (cases "b = c") (auto simp: s'_def)
  then show ok': "cache_ok s' P' H'" using L(2) L' len bufs uniq cov unfolding cache_ok_def by (auto simp: s'_def)
  have ci: "caches s' i c" using c by simp
  show "handle s' c = i" by (rule handleI[OF ok' ci])
  show "handle s' b = handle s b" if "b \<in> P \<union> H" "b \<noteq> c" for b
  proof -
    have h: "caches s (handle s b) b" by (rule handle_caches(1)[OF ok that(1)])
    moreover have "handle s b \<noteq> i" using h old that by (auto simp: caches_def)
    ultimately show ?thesis using c that(2) by (intro handleI[OF ok']) simp
  qed
  show "handle s' = handle s" if "caches s i c"
  proof -
    have i': "caches s i b \<longleftrightarrow> b = c" for b using that by (auto simp: caches_def)
    have "caches s' j b = caches s j b" for j b
    proof (cases "j = i")
      case True
      then show ?thesis using c[of i b] i'[of b] by simp
    next
      case False
      then have "caches s j b \<Longrightarrow> b \<noteq> c" using only by blast
      then show ?thesis using c[of j b] False by argo
    qed
    then have "caches s' = caches s" by blast
    then show ?thesis by (intro ext) (simp add: handle_def)
  qed
  show "view s' = (view s)(c := b_data (f (bc_buf s ! i)))"
  proof
    fix b
    show "view s' b = ((view s)(c := b_data (f (bc_buf s ! i)))) b"
    proof (cases "b = c")
      case True
      then show ?thesis using viewI[OF ok' ci] new(3) nth by simp
    next
      case False
      have d: "bc_disk s' b = bc_disk s b" using rest[OF False] by (simp add: s'_def)
      show ?thesis
      proof (cases "\<exists>j. caches s' j b \<and> b_valid (bc_buf s' ! j)")
        case True
        then obtain j where j: "caches s' j b" "b_valid (bc_buf s' ! j)" by blast
        then have "j \<noteq> i" "caches s j b" using c False by (auto split: if_splits)
        then show ?thesis using viewI[OF ok' j] viewI[OF ok, of j b] j(2) nth False by simp
      next
        case none: False
        then have v: "view s' b = bc_disk s b" using view_disk[of s' b] d by auto
        show ?thesis
        proof (cases "caches s i b")
          case True
          then have "b \<notin> P \<union> H" using old False by (auto simp: caches_def)
          then show ?thesis using v cache_clean[OF ok] False by simp
        next
          case False
          then have "view s b = bc_disk s b" using none c nth \<open>b \<noteq> c\<close> by (intro view_disk) (metis (full_types))
          then show ?thesis using v \<open>b \<noteq> c\<close> by simp
        qed
      qed
    qed
  qed
qed

section \<open>The operations\<close>

definition set_data :: "bcache \<Rightarrow> nat \<Rightarrow> byte list \<Rightarrow> bcache" where
  "set_data s i d = upd_buf s i (b_data_update (\<lambda>_. d))"

lemma upd_buf_disk: "upd_buf s i f = (upd_buf s i f)\<lparr>bc_disk := bc_disk s, bc_writes := bc_writes s\<rparr>"
  by (simp add: upd_buf_def)

lemma upd_upd_buf: "upd_buf (upd_buf s i f) i g = upd_buf s i (\<lambda>b. g (f b))"
  by (cases "i < length (bc_buf s)") (simp_all add: upd_buf_def list_update_beyond)

text \<open>A change of the buffer of block \<open>c\<close> that keeps it the buffer of block \<open>c\<close>.\<close>

lemma cache_upd_same:
  assumes ok: "cache_ok s P H" and i: "caches s i c" and f: "\<And>b. b_next (f b) = b_next b" "\<And>b. b_prev (f b) = b_prev b"
    "\<And>b. b_dev (f b) = b_dev b" "\<And>b. b_blockno (f b) = b_blockno b"
    and new: "b_valid (f (bc_buf s ! i))" "buf_ok (bc_disk s) (bc_pid s) P' H' (f (bc_buf s ! i))"
    and rest: "\<And>b. b \<noteq> c \<Longrightarrow> (b \<in> P' \<longleftrightarrow> b \<in> P) \<and> (b \<in> H' \<longleftrightarrow> b \<in> H)"
  shows "cache_ok (upd_buf s i f) P' H'" "view (upd_buf s i f) = (view s)(c := b_data (f (bc_buf s ! i)))"
    "handle (upd_buf s i f) = handle s"
proof -
  have prem: "i < NBUF" "b_dev (f (bc_buf s ! i)) = ROOTDEV" "b_blockno (f (bc_buf s ! i)) = c"
    "b_blockno (bc_buf s ! i) = c" using i f by (auto simp: caches_def)
  have only: "j = i" if "caches s j c" for j using cache_okD(5)[OF ok] i that by blast
  have rest': "(b \<in> P' \<longleftrightarrow> b \<in> P) \<and> (b \<in> H' \<longleftrightarrow> b \<in> H) \<and> bc_disk s b = bc_disk s b" if "b \<noteq> c" for b using rest[OF that] by simp
  note cu = cache_upd[OF ok prem(1) f(1,2) prem(2,3) new only _ rest' cache_okD(3)[OF ok], where w = "bc_writes s"]
  show "cache_ok (upd_buf s i f) P' H'" "view (upd_buf s i f) = (view s)(c := b_data (f (bc_buf s ! i)))"
    "handle (upd_buf s i f) = handle s"
    using cu(1,2,5) prem(4) i by (simp_all add: upd_buf_disk[symmetric])
qed

lemma set_data_law:
  assumes "cache_ok s P H" "b \<in> H" "length d = BSIZE"
  defines "s' \<equiv> set_data s (handle s b) d"
  shows "cache_ok s' P H \<and> view s' = (view s)(b := d) \<and> bc_disk s' = bc_disk s \<and> bc_writes s' = bc_writes s \<and> handle s' = handle s"
proof -
  have c: "caches s (handle s b) b" "b_valid (bc_buf s ! handle s b)" using handle_caches[OF assms(1), of b] assms(2) by auto
  have "buf_ok (bc_disk s) (bc_pid s) P H (bc_buf s ! handle s b)" using cache_okD(4)[OF assms(1)] c(1) by (simp add: caches_def)
  then have "buf_ok (bc_disk s) (bc_pid s) P H (b_data_update (\<lambda>_. d) (bc_buf s ! handle s b))"
    using assms(2,3) c(1) by (auto simp: buf_ok_def caches_def)
  then show ?thesis using cache_upd_same[OF assms(1) c(1), of "b_data_update (\<lambda>_. d)" P H] c(2)
    by (simp add: s'_def set_data_def) (simp add: upd_buf_def)
qed

lemma bpin_law:
  assumes "cache_ok s P H" "b \<in> H" "b \<notin> P"
  defines "s' \<equiv> bpin s (handle s b)"
  shows "cache_ok s' (insert b P) H \<and> view s' = view s \<and> bc_disk s' = bc_disk s \<and> bc_writes s' = bc_writes s \<and> handle s' = handle s"
proof -
  have c: "caches s (handle s b) b" "b_valid (bc_buf s ! handle s b)" using handle_caches[OF assms(1), of b] assms(2) by auto
  have "buf_ok (bc_disk s) (bc_pid s) P H (bc_buf s ! handle s b)" using cache_okD(4)[OF assms(1)] c(1) by (simp add: caches_def)
  then have "buf_ok (bc_disk s) (bc_pid s) (insert b P) H (b_refcnt_update (\<lambda>n. n + 1) (bc_buf s ! handle s b))"
    using assms(2,3) c(1) by (auto simp: buf_ok_def caches_def)
  then show ?thesis using cache_upd_same[OF assms(1) c(1), of "b_refcnt_update (\<lambda>n. n + 1)" "insert b P" H] c viewI[OF assms(1) c]
    by (simp add: s'_def bpin_def fun_upd_idem) (simp add: upd_buf_def)
qed

lemma bunpin_law:
  assumes "cache_ok s P H" "b \<in> H" "b \<in> P"
  defines "s' \<equiv> bunpin s (handle s b)"
  shows "cache_ok s' (P - {b}) H \<and> view s' = view s \<and> bc_disk s' = bc_disk s \<and> bc_writes s' = bc_writes s \<and> handle s' = handle s"
proof -
  have c: "caches s (handle s b) b" "b_valid (bc_buf s ! handle s b)" using handle_caches[OF assms(1), of b] assms(2) by auto
  have "buf_ok (bc_disk s) (bc_pid s) P H (bc_buf s ! handle s b)" using cache_okD(4)[OF assms(1)] c(1) by (simp add: caches_def)
  then have "buf_ok (bc_disk s) (bc_pid s) (P - {b}) H (b_refcnt_update (\<lambda>n. n - 1) (bc_buf s ! handle s b))"
    using assms(2,3) c(1) by (auto simp: buf_ok_def caches_def)
  then show ?thesis using cache_upd_same[OF assms(1) c(1), of "b_refcnt_update (\<lambda>n. n - 1)" "P - {b}" H] c viewI[OF assms(1) c]
    by (simp add: s'_def bunpin_def fun_upd_idem) (simp add: upd_buf_def)
qed

lemma held_buf:
  assumes "cache_ok s P H" "b \<in> H"
  shows "caches s (handle s b) b" "b_valid (bc_buf s ! handle s b)" "holdingsleep (bc_pid s) (b_lock (bc_buf s ! handle s b))"
    "buf_ok (bc_disk s) (bc_pid s) P H (bc_buf s ! handle s b)"
proof -
  show c: "caches s (handle s b) b" "b_valid (bc_buf s ! handle s b)" using handle_caches[OF assms(1), of b] assms(2) by auto
  then show k: "buf_ok (bc_disk s) (bc_pid s) P H (bc_buf s ! handle s b)" using cache_okD(4)[OF assms(1)] by (simp add: caches_def)
  then show "holdingsleep (bc_pid s) (b_lock (bc_buf s ! handle s b))"
    using c(1) assms(2) by (simp add: buf_ok_def caches_def holdingsleep_def)
qed

lemma bwrite_law:
  assumes "cache_ok s P H" "b \<in> H"
  shows "\<exists>s'. bwrite s (handle s b) = Ok s' \<and> cache_ok s' P H \<and> view s' = view s \<and> bc_disk s' = (bc_disk s)(b := view s b) \<and>
    bc_writes s' = bc_writes s @ [(b, view s b)] \<and> handle s' = handle s"
proof -
  let ?i = "handle s b"
  note h = held_buf[OF assms]
  let ?d = "(bc_disk s)(b := b_data (bc_buf s ! ?i))" and ?w = "bc_writes s @ [(b, b_data (bc_buf s ! ?i))]"
  have v: "view s b = b_data (bc_buf s ! ?i)" by (rule viewI[OF assms(1) h(1,2)])
  have ci: "?i < NBUF" "b_dev (bc_buf s ! ?i) = ROOTDEV" "b_blockno (bc_buf s ! ?i) = b" using h(1) by (simp_all add: caches_def)
  have only: "j = ?i" if "caches s j b" for j using cache_okD(5)[OF assms(1)] h(1) that by blast
  have k: "buf_ok ?d (bc_pid s) P H (bc_buf s ! ?i)" using h(4) ci assms(2) by (simp add: buf_ok_def)
  have u: "upd_buf s ?i (\<lambda>b. b) = s" by (simp add: upd_buf_def)
  have rest: "(c \<in> P \<longleftrightarrow> c \<in> P) \<and> (c \<in> H \<longleftrightarrow> c \<in> H) \<and> ?d c = bc_disk s c" if "c \<noteq> b" for c using that by simp
  have dl: "length (?d b) = BSIZE" using k by (simp add: buf_ok_def)
  note cu = cache_upd[where f = "\<lambda>b. b" and w = ?w and d = ?d, OF assms(1) ci(1) refl refl ci(2,3) h(2) k only _ rest dl, unfolded u]
  have "bwrite s ?i = Ok (s\<lparr>bc_disk := ?d, bc_writes := ?w\<rparr>)" using h(3) ci(3) by (simp add: bwrite_def disk_rw_def Let_def)
  then show ?thesis using cu(1,2,5) v h(1) ci by (auto simp: fun_upd_idem simp del: fun_upd_apply)
qed

lemma brelse_law:
  assumes "cache_ok s P H" "b \<in> H" "b \<in> P \<or> view s b = bc_disk s b"
  shows "\<exists>s'. brelse s (handle s b) = Ok s' \<and> cache_ok s' P (H - {b}) \<and> view s' = view s \<and> bc_disk s' = bc_disk s \<and>
    bc_writes s' = bc_writes s \<and> handle s' = handle s"
proof -
  let ?i = "handle s b" and ?f = "\<lambda>b. b_refcnt_update (\<lambda>n. n - 1) (b_lock_update releasesleep b)"
  note h = held_buf[OF assms(1,2)]
  let ?t = "upd_buf s ?i ?f"
  have v: "view s b = b_data (bc_buf s ! ?i)" by (rule viewI[OF assms(1) h(1,2)])
  have "buf_ok (bc_disk s) (bc_pid s) P (H - {b}) (?f (bc_buf s ! ?i))"
    using h(1,2,4) assms(2,3) v by (auto simp: buf_ok_def caches_def)
  then have t: "cache_ok ?t P (H - {b})" "view ?t = view s" "handle ?t = handle s"
    using cache_upd_same[OF assms(1) h(1), of ?f P "H - {b}"] h(2) v by (simp_all add: fun_upd_idem)
  obtain L where L: "lru s L" "set L = {..<NBUF}" using cache_okD(1)[OF assms(1)] by blast
  have i: "?i \<in> set L" using h(1) L(2) by (simp add: caches_def)
  obtain s' where s': "brelse s ?i = Ok s'" "strip s' = strip ?t"
      "lru s' (if b_refcnt (bc_buf s ! ?i) = 1 then ?i # remove1 ?i L else L)"
    using brelse_lru[OF L(1) i h(3)] by blast
  moreover have "set (if b_refcnt (bc_buf s ! ?i) = 1 then ?i # remove1 ?i L else L) = {..<NBUF}"
    using L i by (auto simp: lru_def)
  ultimately show ?thesis using cache_ok_strip[OF s'(2,3) _ t(1)] stripD(1,2)[OF s'(2)] t by (auto simp: upd_buf_def)
qed

lemma cached_find:
  assumes "cache_ok s P H"
  shows "bget_cached (Suc NBUF) s (bc_head_next s) ROOTDEV b = Ok (if \<exists>i. caches s i b then Some (handle s b) else None)"
proof -
  obtain L where L: "lru s L" "set L = {..<NBUF}" using cache_okD(1)[OF assms] by blast
  then have "length L = NBUF" using distinct_card[of L] by (simp add: lru_def)
  then have f: "bget_cached (Suc NBUF) s (bc_head_next s) ROOTDEV b =
      Ok (find (\<lambda>i. b_dev (bc_buf s ! i) = ROOTDEV \<and> b_blockno (bc_buf s ! i) = b) L)"
    using bget_cached_find[of s Head L "Suc NBUF" ROOTDEV b] L(1) by (simp add: lru_def)
  show ?thesis
  proof (cases "\<exists>i. caches s i b")
    case True
    then obtain i where i: "caches s i b" by blast
    have "find (\<lambda>i. b_dev (bc_buf s ! i) = ROOTDEV \<and> b_blockno (bc_buf s ! i) = b) L = Some i"
      using i L(2) cache_okD(5)[OF assms] by (intro find_unique) (auto simp: caches_def)
    then show ?thesis using f True handleI[OF assms i] by simp
  next
    case False
    then have "find (\<lambda>i. b_dev (bc_buf s ! i) = ROOTDEV \<and> b_blockno (bc_buf s ! i) = b) L = None"
      using L(2) by (auto simp: find_None_iff caches_def)
    then show ?thesis using f False by simp
  qed
qed

lemma unused_find:
  assumes ok: "cache_ok s P H" and card: "card (P \<union> H) < NBUF"
  shows "\<exists>i<NBUF. bget_unused (Suc NBUF) s (bc_head_prev s) = Ok (Some i) \<and> b_refcnt (bc_buf s ! i) = 0"
proof -
  obtain L where L: "lru s L" "set L = {..<NBUF}" using cache_okD(1)[OF ok] by blast
  then have "length L = NBUF" using distinct_card[of L] by (simp add: lru_def)
  then have f: "bget_unused (Suc NBUF) s (bc_head_prev s) = Ok (find (\<lambda>i. b_refcnt (bc_buf s ! i) = 0) (rev L))"
    using bget_unused_find[of s Head "rev L" "Suc NBUF"] L(1) by (simp add: lru_def)
  let ?g = "\<lambda>i. b_blockno (bc_buf s ! i)"
  have "\<exists>i<NBUF. b_refcnt (bc_buf s ! i) = 0"
  proof (rule ccontr)
    assume "\<not> ?thesis"
    then have used: "caches s i (?g i)" "?g i \<in> P \<union> H" if "i < NBUF" for i
      using cache_okD(4)[OF ok that] that by (auto simp: buf_ok_def caches_def split: if_splits)
    have "inj_on ?g {..<NBUF}" using used(1) cache_okD(5)[OF ok] by (intro inj_onI) (metis lessThan_iff)
    then have "card (?g ` {..<NBUF}) = NBUF" by (simp add: card_image)
    moreover have "P \<union> H \<subseteq> ?g ` {..<NBUF}" using cache_okD(6)[OF ok] by (fastforce simp: caches_def)
    then have "finite (P \<union> H)" by (rule finite_subset) simp
    then have "card (?g ` {..<NBUF}) \<le> card (P \<union> H)" using used(2) by (intro card_mono) auto
    ultimately show False using card by simp
  qed
  then obtain i where "find (\<lambda>i. b_refcnt (bc_buf s ! i) = 0) (rev L) = Some i"
    using L(2) by (cases "find (\<lambda>i. b_refcnt (bc_buf s ! i) = 0) (rev L)") (auto simp: find_None_iff)
  then show ?thesis using f find_SomeD[of _ "rev L" i] L(2) by auto
qed

lemma bread_hit:
  assumes ok: "cache_ok s P H" and b: "b \<notin> H" and c: "caches s i b"
  defines "v \<equiv> (if b_valid (bc_buf s ! i) then b_data (bc_buf s ! i) else bc_disk s b)"
  defines "f \<equiv> \<lambda>x :: buf. x\<lparr>b_valid := True, b_lock := \<lparr>sl_locked = True, sl_pid = bc_pid s\<rparr>, b_refcnt := b_refcnt x + 1, b_data := v\<rparr>"
  shows "bread s ROOTDEV b = Ok (i, upd_buf s i f)" "buf_ok (bc_disk s) (bc_pid s) P (insert b H) (f (bc_buf s ! i))"
    "view s b = v"
proof -
  have i: "i < length (bc_buf s)" "i < NBUF" using c cache_okD(2)[OF ok] by (simp_all add: caches_def)
  have k: "buf_ok (bc_disk s) (bc_pid s) P H (bc_buf s ! i)" by (rule cache_okD(4)[OF ok i(2)])
  have g: "bget_cached (Suc NBUF) s (bc_head_next s) ROOTDEV b = Ok (Some i)"
    using cached_find[OF ok, of b] handleI[OF ok c] c by auto
  have lk: "\<not> sl_locked (b_lock (bc_buf s ! i))" using k c b by (simp add: buf_ok_def caches_def)
  show "bread s ROOTDEV b = Ok (i, upd_buf s i f)"
    using i(1) c lk g
    by (simp add: bread_def bget_def lock_buf_def acquiresleep_def nth_upd_buf disk_rw_def Let_def caches_def upd_upd_buf v_def f_def
          del: bget_cached.simps) (cases "bc_buf s ! i", auto simp: upd_buf_def)
  show "view s b = v"
  proof (cases "b_valid (bc_buf s ! i)")
    case True
    then show ?thesis using viewI[OF ok c] by (simp add: v_def)
  next
    case False
    then have "view s b = bc_disk s b" using c cache_okD(5)[OF ok] by (intro view_disk) auto
    then show ?thesis using False by (simp add: v_def)
  qed
  then have "length v = BSIZE" using view_len[OF ok, of b] by simp
  then show "buf_ok (bc_disk s) (bc_pid s) P (insert b H) (f (bc_buf s ! i))"
    using k c b by (auto simp: buf_ok_def caches_def f_def)
qed

lemma bread_miss:
  assumes ok: "cache_ok s P H" and c: "\<And>i. \<not> caches s i b"
    and i: "i < NBUF" "bget_unused (Suc NBUF) s (bc_head_prev s) = Ok (Some i)" "b_refcnt (bc_buf s ! i) = 0"
  defines "f \<equiv> \<lambda>x :: buf. x\<lparr>b_valid := True, b_dev := ROOTDEV, b_blockno := b,
      b_lock := \<lparr>sl_locked = True, sl_pid = bc_pid s\<rparr>, b_refcnt := 1, b_data := bc_disk s b\<rparr>"
  shows "bread s ROOTDEV b = Ok (i, upd_buf s i f)" "buf_ok (bc_disk s) (bc_pid s) P (insert b H) (f (bc_buf s ! i))"
    "view s b = bc_disk s b" "b_dev (bc_buf s ! i) = ROOTDEV \<Longrightarrow> b_blockno (bc_buf s ! i) \<notin> P \<union> H"
proof -
  have il: "i < length (bc_buf s)" using i(1) cache_okD(2)[OF ok] by simp
  have k: "buf_ok (bc_disk s) (bc_pid s) P H (bc_buf s ! i)" by (rule cache_okD(4)[OF ok i(1)])
  have g: "bget_cached (Suc NBUF) s (bc_head_next s) ROOTDEV b = Ok None" using cached_find[OF ok, of b] c by simp
  have free: "b_dev (bc_buf s ! i) = ROOTDEV \<Longrightarrow> b_blockno (bc_buf s ! i) \<notin> P \<union> H"
    using k i(3) by (auto simp: buf_ok_def of_bool_def split: if_splits)
  then have lk: "\<not> sl_locked (b_lock (bc_buf s ! i))" using k by (auto simp: buf_ok_def split: if_splits)
  show "bread s ROOTDEV b = Ok (i, upd_buf s i f)"
    using il lk g i(2)
    by (simp add: bread_def bget_def lock_buf_def acquiresleep_def nth_upd_buf disk_rw_def Let_def upd_upd_buf f_def
          del: bget_cached.simps bget_unused.simps) (cases "bc_buf s ! i", auto simp: upd_buf_def)
  show "view s b = bc_disk s b" using c by (intro view_disk) blast
  have "b \<notin> P \<union> H" using cache_okD(6)[OF ok, of b] c by blast
  then show "buf_ok (bc_disk s) (bc_pid s) P (insert b H) (f (bc_buf s ! i))"
    using cache_okD(3)[OF ok] by (simp add: buf_ok_def f_def)
  show "b_dev (bc_buf s ! i) = ROOTDEV \<Longrightarrow> b_blockno (bc_buf s ! i) \<notin> P \<union> H" by (rule free)
qed

lemma bread_law:
  assumes ok: "cache_ok s P H" and b: "b \<notin> H" and room: "b \<in> P \<or> card (P \<union> H) < NBUF"
  shows "\<exists>s'. bread s ROOTDEV b = Ok (handle s' b, s') \<and> cache_ok s' P (insert b H) \<and> view s' = view s \<and> bc_disk s' = bc_disk s \<and>
    bc_writes s' = bc_writes s \<and> (\<forall>c\<in>P \<union> H. handle s' c = handle s c)"
proof (cases "\<exists>i. caches s i b")
  case True
  then obtain i where c: "caches s i b" by blast
  note h = bread_hit[OF ok b c]
  let ?v = "if b_valid (bc_buf s ! i) then b_data (bc_buf s ! i) else bc_disk s b"
  let ?f = "\<lambda>x :: buf. x\<lparr>b_valid := True, b_lock := \<lparr>sl_locked = True, sl_pid = bc_pid s\<rparr>, b_refcnt := b_refcnt x + 1, b_data := ?v\<rparr>"
  have "cache_ok (upd_buf s i ?f) P (insert b H)" "view (upd_buf s i ?f) = (view s)(b := ?v)" "handle (upd_buf s i ?f) = handle s"
    using cache_upd_same[OF ok c, of ?f P "insert b H"] h(2) by simp_all
  then show ?thesis using h(1,3) handleI[OF ok c]
    by (intro exI[of _ "upd_buf s i ?f"]) (simp add: fun_upd_idem upd_buf_def)
next
  case False
  have "b \<notin> P" using False cache_okD(6)[OF ok, of b] by blast
  then obtain i where i: "i < NBUF" "bget_unused (Suc NBUF) s (bc_head_prev s) = Ok (Some i)" "b_refcnt (bc_buf s ! i) = 0"
    using unused_find[OF ok] room by blast
  have nc: "\<And>i. \<not> caches s i b" using False by blast
  note m = bread_miss[OF ok nc i]
  let ?f = "\<lambda>x :: buf. x\<lparr>b_valid := True, b_dev := ROOTDEV, b_blockno := b,
      b_lock := \<lparr>sl_locked = True, sl_pid = bc_pid s\<rparr>, b_refcnt := 1, b_data := bc_disk s b\<rparr>"
  have old: "b_blockno (bc_buf s ! i) = b \<or> b_blockno (bc_buf s ! i) \<notin> P \<union> H" if "b_dev (bc_buf s ! i) = ROOTDEV" using m(4) that by blast
  have only: "j = i" if "caches s j b" for j using nc that by blast
  have rest: "(c \<in> P \<longleftrightarrow> c \<in> P) \<and> (c \<in> insert b H \<longleftrightarrow> c \<in> H) \<and> bc_disk s c = bc_disk s c" if "c \<noteq> b" for c using that by simp
  have u: "cache_ok (upd_buf s i ?f) P (insert b H)" "view (upd_buf s i ?f) = (view s)(b := bc_disk s b)" "handle (upd_buf s i ?f) b = i"
    "\<And>c. c \<in> P \<union> H \<Longrightarrow> c \<noteq> b \<Longrightarrow> handle (upd_buf s i ?f) c = handle s c"
    using cache_upd[where f = ?f and w = "bc_writes s" and d = "bc_disk s" and c = b and P' = P and H' = "insert b H",
        OF ok i(1) _ _ _ _ _ m(2) only old rest cache_okD(3)[OF ok]]
    by (simp_all add: upd_buf_disk[symmetric])
  show ?thesis using m(1,3) u \<open>b \<notin> P\<close> b
    by (intro exI[of _ "upd_buf s i ?f"]) (auto simp: fun_upd_idem upd_buf_def)
qed

text \<open>The contract of \<open>kernel/bio.c\<close>.\<close>

interpretation bc: block_cache cache_ok view bc_disk bc_writes handle "\<lambda>s. bread s ROOTDEV" bwrite brelse bpin bunpin
  "\<lambda>s i. b_data (bc_buf s ! i)" "\<lambda>s i. b_blockno (bc_buf s ! i)" set_data NBUF BSIZE
proof (unfold_locales, goal_cases)
  case (1 s P H b)
  then show ?case by (rule bread_law)
next
  case (2 s P H b)
  then show ?case using viewI[OF 2(1) held_buf(1,2)[OF 2]] by simp
next
  case (3 s P H b)
  then show ?case using handle_caches(1)[OF 3] by (simp add: caches_def)
next
  case (4 s P H b d)
  then show ?case by (rule set_data_law)
next
  case (5 s P H b)
  then show ?case by (rule bwrite_law)
next
  case (6 s P H b)
  then show ?case by (rule brelse_law)
next
  case (7 s P H b)
  then show ?case by (rule bpin_law)
next
  case (8 s P H b)
  then show ?case by (rule bunpin_law)
next
  case (9 s P H b)
  then show ?case by (rule cache_clean)
next
  case (10 s P H b)
  then show ?case by (rule view_len)
qed

section \<open>Initialisation\<close>

lemma strip_binit_from:
  "(\<forall>i<length (bc_buf s). b_lock (bc_buf s ! i) = initsleeplock) \<Longrightarrow> strip (binit_from i n s) = strip s"
proof (induction n arbitrary: i s)
  case (Suc n)
  let ?t = "upd_buf s i (b_lock_update (\<lambda>_. initsleeplock))"
  have "(bc_buf s)[i := (bc_buf s ! i)\<lparr>b_lock := initsleeplock\<rparr>] = bc_buf s"
    using Suc.prems by (cases "i < length (bc_buf s)") (auto intro: list_update_same_conv[THEN iffD2] simp: list_update_beyond)
  then have t: "?t = s" by (simp add: upd_buf_def)
  have "b_lock (bc_buf (link_front s i) ! j) = initsleeplock" if "j < length (bc_buf (link_front s i))" for j
    using Suc.prems that stripD(4)[OF strip_link_front[of s i]] stripD(8)[OF strip_link_front[of s i], of j] by simp
  then show ?case using Suc.IH[of "link_front s i" "Suc i"] t by simp
qed simp

text \<open>Static storage is zero: no buffer is valid, referenced or locked, and every buffer has device 0.\<close>

definition boot_cache :: "bcache \<Rightarrow> bool" where
  "boot_cache s \<longleftrightarrow> length (bc_buf s) = NBUF \<and> (\<forall>b. length (bc_disk s b) = BSIZE) \<and>
     (\<forall>b\<in>set (bc_buf s). \<not> b_valid b \<and> b_dev b = 0 \<and> b_refcnt b = 0 \<and> b_lock b = initsleeplock \<and> length (b_data b) = BSIZE)"

lemma boot_bufs:
  assumes "boot_cache s" "i < NBUF"
  shows "b_dev (bc_buf s ! i) = 0" "b_refcnt (bc_buf s ! i) = 0" "b_lock (bc_buf s ! i) = initsleeplock"
    "length (b_data (bc_buf s ! i)) = BSIZE" "length (bc_buf s) = NBUF"
  using assms nth_mem[of i "bc_buf s"] unfolding boot_cache_def by auto

lemma strip_binit: "boot_cache s \<Longrightarrow> strip (binit s) = strip s"
  unfolding binit_def by (subst strip_binit_from) (use boot_bufs in \<open>simp_all add: strip_def boot_cache_def\<close>)

lemma binit_ok:
  assumes "boot_cache s"
  shows "cache_ok (binit s) {} {}" "view (binit s) = bc_disk s" "bc_disk (binit s) = bc_disk s" "bc_writes (binit s) = bc_writes s"
proof -
  have len: "length (bc_buf s) = NBUF" using assms by (simp add: boot_cache_def)
  note b = boot_bufs[OF assms]
  obtain L where L: "lru (binit s) L" "set L = {..<NBUF}" using binit_lru[OF len] by blast
  note d = stripD[OF strip_binit[OF assms], unfolded len]
  have nc: "\<not> caches (binit s) i c" for i c using d(6) b(1) by (auto simp: caches_def ROOTDEV_def)
  have "buf_ok (bc_disk (binit s)) (bc_pid (binit s)) {} {} (bc_buf (binit s) ! i)" if "i < NBUF" for i
    using d(6,8,9,10)[OF that] b[OF that] by (simp add: buf_ok_def ROOTDEV_def initsleeplock_def)
  then show "cache_ok (binit s) {} {}"
    using L d(1,4) assms nc unfolding cache_ok_def by (auto simp: boot_cache_def)
  show "bc_disk (binit s) = bc_disk s" "bc_writes (binit s) = bc_writes s" by (rule d(1) d(2))+
  then show "view (binit s) = bc_disk s" using nc view_disk[of "binit s"] by (intro ext) metis
qed

section \<open>Properties\<close>



text \<open>On a miss \<open>bget\<close> recycles the least recently used buffer without references, where use means the last
  release, and panics when every buffer is referenced.\<close>

theorem bget_recycles_least_recent:
  assumes "lru s L" "length L \<le> NBUF" "\<forall>i\<in>set L. \<not> (b_dev (bc_buf s ! i) = dev \<and> b_blockno (bc_buf s ! i) = b)"
    "\<forall>i\<in>set L. \<not> sl_locked (b_lock (bc_buf s ! i))"
  shows "case find (\<lambda>i. b_refcnt (bc_buf s ! i) = 0) (rev L) of
      None \<Rightarrow> bget s dev b = Panic ''bget: no buffers''
    | Some i \<Rightarrow> \<exists>s'. bget s dev b = Ok (i, s') \<and> b_dev (bc_buf s' ! i) = dev \<and> b_blockno (bc_buf s' ! i) = b \<and>
        \<not> b_valid (bc_buf s' ! i) \<and> b_refcnt (bc_buf s' ! i) = 1 \<and> lru s' L"
proof -
  have "find (\<lambda>i. b_dev (bc_buf s ! i) = dev \<and> b_blockno (bc_buf s ! i) = b) L = None" using assms(3) by (simp add: find_None_iff)
  then have c: "bget_cached (Suc NBUF) s (bc_head_next s) dev b = Ok None"
    using bget_cached_find[of s Head L "Suc NBUF" dev b] assms(1,2) by (simp add: lru_def)
  have u: "bget_unused (Suc NBUF) s (bc_head_prev s) = Ok (find (\<lambda>i. b_refcnt (bc_buf s ! i) = 0) (rev L))"
    using bget_unused_find[of s Head "rev L" "Suc NBUF"] assms(1,2) by (simp add: lru_def)
  show ?thesis
  proof (cases "find (\<lambda>i. b_refcnt (bc_buf s ! i) = 0) (rev L)")
    case None
    then show ?thesis using c u by (simp add: bget_def del: bget_cached.simps bget_unused.simps)
  next
    case (Some i)
    then have i: "i \<in> set L" using find_SomeD[OF Some] by simp
    then have "i < length (bc_buf s)" using assms(1) by (auto simp: lru_def)
    then show ?thesis using c u Some assms(1,4) i
      by (simp add: bget_def lock_buf_def acquiresleep_def nth_upd_buf lru_upd_buf del: bget_cached.simps bget_unused.simps)
  qed
qed

section \<open>Witnesses\<close>

definition ex_buf :: buf where
  "ex_buf = \<lparr>b_valid = False, b_disk = False, b_dev = 0, b_blockno = 0, b_lock = initsleeplock, b_refcnt = 0,
     b_prev = Head, b_next = Head, b_data = replicate BSIZE 0\<rparr>"

definition ex_cache :: bcache where
  "ex_cache = \<lparr>bc_buf = replicate NBUF ex_buf, bc_head_prev = Head, bc_head_next = Head,
     bc_disk = \<lambda>_. replicate BSIZE 0, bc_writes = [], bc_pid = 1\<rparr>"

lemma boot_ex_cache: "boot_cache ex_cache"
  by (simp add: boot_cache_def ex_cache_def ex_buf_def)



theorem bget_recycles_least_recent_witness:
  "\<exists>i s'. bget (binit ex_cache) 1 7 = Ok (i, s') \<and> b_blockno (bc_buf s' ! i) = 7"
proof -
  let ?s = "binit ex_cache"
  have len: "length (bc_buf ex_cache) = NBUF" by (simp add: ex_cache_def)
  obtain L where L: "lru ?s L" "set L = {..<NBUF}" using binit_lru[OF len] by blast
  have "length L = NBUF" using L distinct_card[of L] by (simp add: lru_def)
  moreover have b: "b_dev (bc_buf ?s ! i) = 0" "b_refcnt (bc_buf ?s ! i) = 0" "b_lock (bc_buf ?s ! i) = initsleeplock" if "i \<in> set L" for i
    using stripD(6,8,9)[OF strip_binit[OF boot_ex_cache], of i] boot_bufs[OF boot_ex_cache, of i] that L(2) len by simp_all
  moreover have "find (\<lambda>i. b_refcnt (bc_buf ?s ! i) = 0) (rev L) \<noteq> None"
    using b(2) \<open>length L = NBUF\<close> by (auto simp: find_None_iff NBUF_def)
  ultimately show ?thesis using bget_recycles_least_recent[OF L(1), of 1 7] by (auto simp: initsleeplock_def)
qed

end
