(* ===== verification/Kernel_Log.thy ===== *)
theory Kernel_Log
  imports Buffer_View
begin

text \<open>
  The logging layer, \<open>kernel/log.c\<close>: a redo log of whole blocks that makes the updates between \<open>begin_op\<close> and \<open>end_op\<close>
  atomic. The header block holds the number of logged blocks and their home block numbers as 32-bit
  integers. \<open>log.lock\<close> makes the operations on \<open>log\<close> atomic; a call that has to wait is a \<open>Sleep\<close>.
\<close>

section \<open>State\<close>

definition MAXOPBLOCKS :: int where "MAXOPBLOCKS = 10"
definition LOGSIZE :: nat where "LOGSIZE = 30"

record klog =
  lg_bc :: bcache
  lg_start :: uint
  lg_size :: int
  lg_outstanding :: int
  lg_committing :: bool
  lg_dev :: uint
  lg_n :: int
  lg_block :: "uint list"

section \<open>The header block\<close>

text \<open>Fields of \<open>struct logheader\<close> in the data of a buffer.\<close>

definition lh_n :: "byte list \<Rightarrow> int" where
  "lh_n d = sint (get32 d 0)"

definition lh_block :: "byte list \<Rightarrow> nat \<Rightarrow> uint" where
  "lh_block d i = get32 d (4 + 4 * i)"

text \<open>The copy loops of \<open>read_head\<close> and \<open>write_head\<close>, from index \<open>i\<close> for \<open>k\<close> rounds.\<close>

fun read_head_loop :: "nat \<Rightarrow> nat \<Rightarrow> byte list \<Rightarrow> uint list \<Rightarrow> uint list outcome" where
  "read_head_loop i 0 d bl = Ok bl"
| "read_head_loop i (Suc k) d bl = bnd (aset bl (int i) (lh_block d i)) (\<lambda>bl. read_head_loop (Suc i) k d bl)"

fun write_head_loop :: "nat \<Rightarrow> nat \<Rightarrow> byte list \<Rightarrow> uint list \<Rightarrow> byte list outcome" where
  "write_head_loop i 0 d bl = Ok d"
| "write_head_loop i (Suc k) d bl = bnd (aget bl (int i)) (\<lambda>b. write_head_loop (Suc i) k (put32 d (4 + 4 * i) b) bl)"

definition read_head :: "klog \<Rightarrow> klog outcome" where
  "read_head s =
     bnd (bread (lg_bc s) (lg_dev s) (lg_start s)) (\<lambda>(b, bc).
     let d = b_data (bc_buf bc ! b) in
     bnd (read_head_loop 0 (nat (lh_n d)) d (lg_block s)) (\<lambda>bl.
     bnd (brelse bc b) (\<lambda>bc.
     Ok (s\<lparr>lg_bc := bc, lg_n := lh_n d, lg_block := bl\<rparr>))))"

definition write_head :: "klog \<Rightarrow> klog outcome" where
  "write_head s =
     bnd (bread (lg_bc s) (lg_dev s) (lg_start s)) (\<lambda>(b, bc).
     bnd (write_head_loop 0 (nat (lg_n s)) (put32 (b_data (bc_buf bc ! b)) 0 (word_of_int (lg_n s))) (lg_block s)) (\<lambda>d.
     bnd (bwrite (set_data bc b d) b) (\<lambda>bc.
     bnd (brelse bc b) (\<lambda>bc.
     Ok (s\<lparr>lg_bc := bc\<rparr>)))))"

section \<open>Copying between the log and the home locations\<close>

fun install_trans_from :: "bool \<Rightarrow> nat \<Rightarrow> nat \<Rightarrow> klog \<Rightarrow> klog outcome" where
  "install_trans_from recovering tail 0 s = Ok s"
| "install_trans_from recovering tail (Suc k) s =
     bnd (bread (lg_bc s) (lg_dev s) (lg_start s + of_nat tail + 1)) (\<lambda>(lbuf, bc).
     bnd (aget (lg_block s) (int tail)) (\<lambda>home.
     bnd (bread bc (lg_dev s) home) (\<lambda>(dbuf, bc).
     bnd (bwrite (set_data bc dbuf (b_data (bc_buf bc ! lbuf))) dbuf) (\<lambda>bc.
     let bc = (if recovering then bc else bunpin bc dbuf) in
     bnd (brelse bc lbuf) (\<lambda>bc.
     bnd (brelse bc dbuf) (\<lambda>bc.
     install_trans_from recovering (Suc tail) k (s\<lparr>lg_bc := bc\<rparr>)))))))"

definition install_trans :: "bool \<Rightarrow> klog \<Rightarrow> klog outcome" where
  "install_trans recovering s = install_trans_from recovering 0 (nat (lg_n s)) s"

fun write_log_from :: "nat \<Rightarrow> nat \<Rightarrow> klog \<Rightarrow> klog outcome" where
  "write_log_from tail 0 s = Ok s"
| "write_log_from tail (Suc k) s =
     bnd (bread (lg_bc s) (lg_dev s) (lg_start s + of_nat tail + 1)) (\<lambda>(to, bc).
     bnd (aget (lg_block s) (int tail)) (\<lambda>home.
     bnd (bread bc (lg_dev s) home) (\<lambda>(from, bc).
     bnd (bwrite (set_data bc to (b_data (bc_buf bc ! from))) to) (\<lambda>bc.
     bnd (brelse bc from) (\<lambda>bc.
     bnd (brelse bc to) (\<lambda>bc.
     write_log_from (Suc tail) k (s\<lparr>lg_bc := bc\<rparr>)))))))"

definition write_log :: "klog \<Rightarrow> klog outcome" where
  "write_log s = write_log_from 0 (nat (lg_n s)) s"

section \<open>Transactions\<close>

definition recover_from_log :: "klog \<Rightarrow> klog outcome" where
  "recover_from_log s =
     bnd (read_head s) (\<lambda>s. bnd (install_trans True s) (\<lambda>s. write_head (s\<lparr>lg_n := 0\<rparr>)))"

definition initlog :: "uint \<Rightarrow> uint \<Rightarrow> uint \<Rightarrow> klog \<Rightarrow> klog outcome" where
  "initlog dev logstart nlog s =
     (if 4 + 4 * LOGSIZE \<ge> BSIZE then Panic ''initlog: too big logheader''
      else recover_from_log (s\<lparr>lg_start := logstart, lg_size := sint nlog, lg_dev := dev\<rparr>))"

definition commit :: "klog \<Rightarrow> klog outcome" where
  "commit s =
     (if lg_n s > 0 then
        bnd (write_log s) (\<lambda>s. bnd (write_head s) (\<lambda>s. bnd (install_trans False s) (\<lambda>s. write_head (s\<lparr>lg_n := 0\<rparr>))))
      else Ok s)"

definition begin_op :: "klog \<Rightarrow> klog outcome" where
  "begin_op s =
     (if lg_committing s then Sleep Chan_log
      else if lg_n s + (lg_outstanding s + 1) * MAXOPBLOCKS > int LOGSIZE then Sleep Chan_log
      else Ok (s\<lparr>lg_outstanding := lg_outstanding s + 1\<rparr>))"

definition end_op :: "klog \<Rightarrow> klog outcome" where
  "end_op s =
     (let s = s\<lparr>lg_outstanding := lg_outstanding s - 1\<rparr> in
      if lg_committing s then Panic ''log.committing''
      else if lg_outstanding s = 0 then
        bnd (commit (s\<lparr>lg_committing := True\<rparr>)) (\<lambda>s. Ok (s\<lparr>lg_committing := False\<rparr>))
      else Ok s)"

text \<open>The search loop of \<open>log_write\<close> leaves \<open>i\<close> at the first entry of the block, or at \<open>log.lh.n\<close>.\<close>

fun log_find :: "nat \<Rightarrow> nat \<Rightarrow> uint list \<Rightarrow> uint \<Rightarrow> nat outcome" where
  "log_find i 0 bl blockno = Ok i"
| "log_find i (Suc k) bl blockno =
     bnd (aget bl (int i)) (\<lambda>b. if b = blockno then Ok i else log_find (Suc i) k bl blockno)"

definition log_write :: "klog \<Rightarrow> nat \<Rightarrow> klog outcome" where
  "log_write s b =
     (if lg_n s \<ge> int LOGSIZE \<or> lg_n s \<ge> lg_size s - 1 then Panic ''too big a transaction''
      else if lg_outstanding s < 1 then Panic ''log_write outside of trans''
      else
        let blockno = b_blockno (bc_buf (lg_bc s) ! b) in
        bnd (log_find 0 (nat (lg_n s)) (lg_block s) blockno) (\<lambda>i.
        bnd (aset (lg_block s) (int i) blockno) (\<lambda>bl.
        Ok (if int i = lg_n s then s\<lparr>lg_bc := bpin (lg_bc s) b, lg_n := lg_n s + 1, lg_block := bl\<rparr>
            else s\<lparr>lg_block := bl\<rparr>))))"

end
