(* ===== verification/Log_Recovery.thy ===== *)
theory Log_Recovery
  imports Kernel_Log
begin

text \<open>
  Crash safety of the log. Every disk write of a commit goes through the cache, so a commit is a list of
  block writes; a crash keeps a prefix of it. The lemmas compute the writes of \<open>commit\<close> and the effect of
  \<open>recover_from_log\<close>, and the crash theorem combines them.
\<close>

section \<open>Write-through steps\<close>

definition apply_writes :: "(uint \<times> byte list) list \<Rightarrow> (uint \<Rightarrow> byte list) \<Rightarrow> uint \<Rightarrow> byte list" where
  "apply_writes ws f = fold (\<lambda>(b, d) f. f(b := d)) ws f"

lemma apply_writes_simps [simp]:
  "apply_writes [] f = f" "apply_writes ((b, d) # ws) f = apply_writes ws (f(b := d))"
  "apply_writes (us @ ws) f = apply_writes ws (apply_writes us f)"
  by (simp_all add: apply_writes_def)

lemma apply_writes_other: "b \<notin> fst ` set ws \<Longrightarrow> apply_writes ws f b = f b"
  by (induction ws arbitrary: f) auto

lemma apply_writes_map:
  assumes "distinct (map a [i..<j])" "t \<in> {i..<j}"
  shows "apply_writes (map (\<lambda>t. (a t, v t)) [i..<j]) f (a t) = v t"
proof -
  have "[i..<j] = [i..<t] @ t # [Suc t..<j]" using assms(2) upt_add_eq_append[of i t "j - t"] upt_conv_Cons[of t j] by simp
  moreover have "a t \<notin> a ` set [Suc t..<j]" using assms(1) calculation by auto
  ultimately show ?thesis by (simp add: apply_writes_other image_image)
qed

definition through :: "bcache \<Rightarrow> bcache \<Rightarrow> (uint \<times> byte list) list \<Rightarrow> bool" where
  "through s s' ws \<longleftrightarrow> view s' = apply_writes ws (view s) \<and> bc_disk s' = apply_writes ws (bc_disk s) \<and> bc_writes s' = bc_writes s @ ws"

lemma throughD: "through s s' ws \<Longrightarrow> view s' = apply_writes ws (view s)" "through s s' ws \<Longrightarrow> bc_disk s' = apply_writes ws (bc_disk s)"
  "through s s' ws \<Longrightarrow> bc_writes s' = bc_writes s @ ws"
  by (simp_all add: through_def)

lemma through_refl [simp]: "through s s []"
  by (simp add: through_def)

lemma through_trans: "through s s' us \<Longrightarrow> through s' s'' ws \<Longrightarrow> through s s'' (us @ ws)"
  by (simp add: through_def)

lemma through_one: "view s' = (view s)(b := d) \<Longrightarrow> bc_disk s' = (bc_disk s)(b := d) \<Longrightarrow> bc_writes s' = bc_writes s @ [(b, d)] \<Longrightarrow> through s s' [(b, d)]"
  by (simp add: through_def)

section \<open>Copying a block through the cache\<close>

context block_cache
begin

text \<open>Two buffers \<open>a\<close> and \<open>b\<close> are held; \<open>x\<close> is overwritten with the data of the other, \<open>y\<close>, and stored.\<close>

lemma copy_steps:
  assumes ok: "ok s P {}" and ab: "a \<noteq> b" "a \<notin> P" "b \<in> P \<or> card (insert a P) < capacity" "card P < capacity"
    and xy: "(x, y) = (a, b) \<or> (x, y) = (b, a)"
  shows "\<exists>s1 s2 s3. fetch s a = Ok (handle s1 a, s1) \<and> fetch s1 b = Ok (handle s2 b, s2) \<and> handle s2 a = handle s1 a \<and>
    store (set_data s2 (handle s2 x) (data s2 (handle s2 y))) (handle s2 x) = Ok s3 \<and> ok s3 P {a, b} \<and> handle s3 = handle s2 \<and>
    view s3 = (view s)(x := view s y) \<and> disk s3 = (disk s)(x := view s y) \<and> writes s3 = writes s @ [(x, view s y)]"
proof -
  have ra: "a \<in> P \<or> card (P \<union> {}) < capacity" using ab(4) by simp
  obtain s1 where s1: "fetch s a = Ok (handle s1 a, s1)" "ok s1 P {a}" "view s1 = view s" "disk s1 = disk s" "writes s1 = writes s"
    using fetch_ok[OF ok _ ra] by blast
  have rb: "b \<notin> {a}" "b \<in> P \<or> card (P \<union> {a}) < capacity" using ab(1,3) by auto
  obtain s2 where s2: "fetch s1 b = Ok (handle s2 b, s2)" "ok s2 P {a, b}" "view s2 = view s" "disk s2 = disk s" "writes s2 = writes s"
      "handle s2 a = handle s1 a"
    using fetch_ok[OF s1(2) rb] s1(3-5) by (auto simp: insert_commute)
  have x: "x \<in> {a, b}" "y \<in> {a, b}" using xy by auto
  have d: "data s2 (handle s2 y) = view s y" using data_view[OF s2(2) x(2)] s2(3) by simp
  let ?s = "set_data s2 (handle s2 x) (view s y)"
  have sd: "ok ?s P {a, b}" "view ?s = (view s)(x := view s y)" "disk ?s = disk s" "writes ?s = writes s" "handle ?s = handle s2"
    using set_data_ok[OF s2(2) x(1)] view_length[OF ok] s2 by simp_all
  obtain s3 where "store ?s (handle s2 x) = Ok s3" "ok s3 P {a, b}" "view s3 = view ?s" "disk s3 = (disk s)(x := view s y)"
      "writes s3 = writes s @ [(x, view s y)]" "handle s3 = handle s2"
    using store_ok[OF sd(1) x(1)] sd by auto
  then show ?thesis using s1 s2 sd d by (intro exI[of _ s1] exI[of _ s2] exI[of _ s3]) simp
qed

text \<open>Both buffers are released, the first \<open>p\<close> and then \<open>q\<close>.\<close>

lemma release_both:
  assumes ok: "ok s P {p, q}" and pq: "p \<noteq> q" "p \<in> P \<or> view s p = disk s p" "q \<in> P \<or> view s q = disk s q"
  shows "\<exists>s1 s2. release s (handle s p) = Ok s1 \<and> release s1 (handle s q) = Ok s2 \<and> ok s2 P {} \<and>
    view s2 = view s \<and> disk s2 = disk s \<and> writes s2 = writes s"
proof -
  have e: "{p, q} - {p} = {q}" "{q} - {q} = {}" using pq(1) by auto
  obtain s1 where s1: "release s (handle s p) = Ok s1" "ok s1 P {q}" "view s1 = view s" "disk s1 = disk s" "writes s1 = writes s"
      "handle s1 = handle s"
    using release_ok[OF ok _ pq(2)] e by auto
  obtain s2 where "release s1 (handle s q) = Ok s2" "ok s2 P {}" "view s2 = view s1" "disk s2 = disk s1" "writes s2 = writes s1"
    using release_ok[OF s1(2), of q] e s1 pq(3) by auto
  then show ?thesis using s1 by auto
qed

end

section \<open>The log area\<close>

definition laddr :: "uint \<Rightarrow> nat \<Rightarrow> uint" where
  "laddr st t = st + of_nat t + 1"

definition log_area :: "uint \<Rightarrow> uint set" where
  "log_area st = insert st (laddr st ` {..<29})"

lemma of_nat_uint_eq: "i < 2 ^ 32 \<Longrightarrow> j < 2 ^ 32 \<Longrightarrow> (of_nat i :: uint) = of_nat j \<longleftrightarrow> i = j"
  by (rule word_of_nat_eq_iff[THEN trans]) (simp add: take_bit_nat_eq_self)

lemma laddr_inj: "t < 29 \<Longrightarrow> u < 29 \<Longrightarrow> laddr st t = laddr st u \<longleftrightarrow> t = u"
  using of_nat_uint_eq[of t u] by (simp add: laddr_def)

lemma laddr_start: "t < 29 \<Longrightarrow> laddr st t \<noteq> st"
  using of_nat_uint_eq[of "Suc t" 0] by (simp add: laddr_def add.commute add.left_commute)

lemma distinct_laddr: "j \<le> 29 \<Longrightarrow> distinct (map (laddr st) [i..<j])"
  by (auto simp: distinct_map inj_on_def laddr_inj)

section \<open>The copy loops\<close>

lemma write_log_from_writes:
  assumes "cache_ok (lg_bc s) P {}" "card P < NBUF" "lg_dev s = ROOTDEV" "tail + k \<le> 29" "tail + k \<le> length (lg_block s)"
    "set (take (tail + k) (lg_block s)) \<subseteq> P" "P \<inter> log_area (lg_start s) = {}"
    "\<forall>t<tail + k. view (lg_bc s) (lg_block s ! t) = v t"
  shows "\<exists>bc. write_log_from tail k s = Ok (s\<lparr>lg_bc := bc\<rparr>) \<and> cache_ok bc P {} \<and>
    through (lg_bc s) bc (map (\<lambda>t. (laddr (lg_start s) t, v t)) [tail..<tail + k])"
  using assms
proof (induction k arbitrary: tail s)
  case 0
  then show ?case by (intro exI[of _ "lg_bc s"]) simp
next
  case (Suc k)
  let ?a = "laddr (lg_start s) tail" and ?b = "lg_block s ! tail"
  have inP: "lg_block s ! t \<in> P" if "t < tail + Suc k" for t
    using Suc.prems(5,6) nth_mem[of t "take (tail + Suc k) (lg_block s)"] that by auto
  have b: "?b \<in> P" using inP by simp
  have a: "?a \<in> log_area (lg_start s)" using Suc.prems(4) by (auto simp: log_area_def)
  have ab: "?a \<noteq> ?b" "?a \<notin> P" using a b Suc.prems(7) by auto
  obtain s1 s2 s3 where c: "bread (lg_bc s) ROOTDEV ?a = Ok (handle s1 ?a, s1)" "bread s1 ROOTDEV ?b = Ok (handle s2 ?b, s2)"
      "handle s2 ?a = handle s1 ?a" "bwrite (set_data s2 (handle s2 ?a) (b_data (bc_buf s2 ! handle s2 ?b))) (handle s2 ?a) = Ok s3"
      "cache_ok s3 P {?b, ?a}" "handle s3 = handle s2" "view s3 = (view (lg_bc s))(?a := view (lg_bc s) ?b)"
      "bc_disk s3 = (bc_disk (lg_bc s))(?a := view (lg_bc s) ?b)" "bc_writes s3 = bc_writes (lg_bc s) @ [(?a, view (lg_bc s) ?b)]"
    using bc.copy_steps[OF Suc.prems(1) ab, of ?a ?b] Suc.prems(2) b by (auto simp: insert_commute)
  obtain s4 s5 where r: "brelse s3 (handle s3 ?b) = Ok s4" "brelse s4 (handle s3 ?a) = Ok s5" "cache_ok s5 P {}"
      "view s5 = view s3" "bc_disk s5 = bc_disk s3" "bc_writes s5 = bc_writes s3"
    using bc.release_both[OF c(5)] ab b c(7,8) by auto
  have vb: "view (lg_bc s) ?b = v tail" using Suc.prems(8) by simp
  have t: "through (lg_bc s) s5 [(?a, v tail)]" using r c vb by (intro through_one) simp_all
  have "\<forall>t<Suc tail + k. view s5 (lg_block s ! t) = v t"
  proof (intro allI impI)
    fix t assume "t < Suc tail + k"
    moreover from this have "lg_block s ! t \<in> P" using inP by simp
    ultimately show "view s5 (lg_block s ! t) = v t" using Suc.prems(8) ab(2) r(4) c(7) by auto
  qed
  then obtain bc where "write_log_from (Suc tail) k (s\<lparr>lg_bc := s5\<rparr>) = Ok (s\<lparr>lg_bc := bc\<rparr>)" "cache_ok bc P {}"
      "through s5 bc (map (\<lambda>t. (laddr (lg_start s) t, v t)) [Suc tail..<Suc tail + k])"
    using Suc.IH[of "s\<lparr>lg_bc := s5\<rparr>" "Suc tail"] Suc.prems r(3) by auto
  moreover have "[tail..<tail + Suc k] = tail # [Suc tail..<Suc tail + k]" by (simp add: upt_conv_Cons)
  moreover have "write_log_from tail (Suc k) s = write_log_from (Suc tail) k (s\<lparr>lg_bc := s5\<rparr>)"
    using c r Suc.prems(3,5) by (simp add: laddr_def del: bnd_Ok_iff)
  ultimately show ?case using through_trans[OF t] by (intro exI[of _ bc]) simp
qed

text \<open>Installing the blocks from \<open>tail\<close> on, when they are pinned and after a reboot.\<close>

lemma install_step:
  assumes ok: "cache_ok c P {}" and ab: "a \<noteq> b" "a \<notin> P" and P: "card P < NBUF" "if recovering then P = {} else b \<in> P"
  shows "\<exists>s1 s2 s3 s4 s5. bread c ROOTDEV a = Ok (handle s1 a, s1) \<and> bread s1 ROOTDEV b = Ok (handle s2 b, s2) \<and>
    bwrite (set_data s2 (handle s2 b) (b_data (bc_buf s2 ! handle s1 a))) (handle s2 b) = Ok s3 \<and>
    brelse (if recovering then s3 else bunpin s3 (handle s2 b)) (handle s1 a) = Ok s4 \<and> brelse s4 (handle s2 b) = Ok s5 \<and>
    cache_ok s5 (P - {b}) {} \<and> through c s5 [(b, view c a)]"
proof -
  have room: "b \<in> P \<or> card (insert a P) < NBUF" "card P < NBUF"
    using P by (auto simp: NBUF_def split: if_splits)
  obtain s1 s2 s3 where c: "bread c ROOTDEV a = Ok (handle s1 a, s1)" "bread s1 ROOTDEV b = Ok (handle s2 b, s2)"
      "handle s2 a = handle s1 a" "bwrite (set_data s2 (handle s2 b) (b_data (bc_buf s2 ! handle s2 a))) (handle s2 b) = Ok s3"
      "cache_ok s3 P {a, b}" "handle s3 = handle s2" "view s3 = (view c)(b := view c a)"
      "bc_disk s3 = (bc_disk c)(b := view c a)" "bc_writes s3 = bc_writes c @ [(b, view c a)]"
    using bc.copy_steps[OF ok ab room, of b a] by auto
  let ?u = "if recovering then s3 else bunpin s3 (handle s2 b)"
  have u: "cache_ok ?u (P - {b}) {a, b}" "view ?u = view s3" "bc_disk ?u = bc_disk s3" "bc_writes ?u = bc_writes s3" "handle ?u = handle s2"
    using P(2) c(5,6) bc.unpin_ok[OF c(5), of b] by (auto split: if_splits)
  have "view ?u a = bc_disk ?u a" "view ?u b = bc_disk ?u b" using bc.clean[OF ok, of a] ab c(7,8) u(2,3) by auto
  then obtain s4 s5 where "brelse ?u (handle ?u a) = Ok s4" "brelse s4 (handle ?u b) = Ok s5" "cache_ok s5 (P - {b}) {}"
      "view s5 = view ?u" "bc_disk s5 = bc_disk ?u" "bc_writes s5 = bc_writes ?u"
    using bc.release_both[OF u(1) ab(1)] by blast
  moreover from this have "through c s5 [(b, view c a)]" using u c by (intro through_one) simp_all
  ultimately show ?thesis using c u(5)
    by (intro exI[of _ s1] exI[of _ s2] exI[of _ s3] exI[of _ s4] exI[of _ s5]) simp
qed

lemma install_trans_from_writes:
  assumes "cache_ok (lg_bc s) P {}" "lg_dev s = ROOTDEV" "tail + k \<le> 29" "tail + k \<le> length (lg_block s)"
    "distinct (drop tail (take (tail + k) (lg_block s)))" "\<forall>t\<in>{tail..<tail + k}. lg_block s ! t \<notin> log_area (lg_start s)"
    "P = (if recovering then {} else set (drop tail (take (tail + k) (lg_block s))))"
    "\<forall>t\<in>{tail..<tail + k}. view (lg_bc s) (laddr (lg_start s) t) = v t"
  shows "\<exists>bc. install_trans_from recovering tail k s = Ok (s\<lparr>lg_bc := bc\<rparr>) \<and> cache_ok bc {} {} \<and>
    through (lg_bc s) bc (map (\<lambda>t. (lg_block s ! t, v t)) [tail..<tail + k])"
  using assms
proof (induction k arbitrary: tail s P)
  case 0
  then have "P = {}" by simp
  then show ?case using 0(1) by (intro exI[of _ "lg_bc s"]) simp
next
  case (Suc k)
  let ?a = "laddr (lg_start s) tail" and ?b = "lg_block s ! tail" and ?L = "drop tail (take (tail + Suc k) (lg_block s))"
  have L: "?L = ?b # drop (Suc tail) (take (Suc tail + k) (lg_block s))"
    using Suc.prems(4) by (subst Cons_nth_drop_Suc[symmetric]) simp_all
  have area: "laddr (lg_start s) t \<in> log_area (lg_start s)" if "t < tail + Suc k" for t using Suc.prems(3) that by (auto simp: log_area_def)
  have nL: "x \<notin> log_area (lg_start s)" if "x \<in> set ?L" for x
  proof -
    from that obtain j where j: "j < length ?L" "?L ! j = x" by (auto simp: in_set_conv_nth)
    then have "x = lg_block s ! (tail + j)" "tail + j \<in> {tail..<tail + Suc k}" using Suc.prems(4) by auto
    then show ?thesis using Suc.prems(6) by blast
  qed
  have b: "?b \<in> set ?L" using L by simp
  have ab: "?a \<noteq> ?b" "?a \<notin> P" using area[of tail] nL Suc.prems(7) b by (auto split: if_splits)
  have "card (set ?L) \<le> 29" using card_length[of ?L] Suc.prems(3,4) by simp
  then have P: "card P < NBUF" "if recovering then P = {} else ?b \<in> P"
    using Suc.prems(7) b by (auto simp: NBUF_def)
  have e: "lg_start s + of_nat tail + 1 = ?a" by (simp add: laddr_def)
  obtain s1 s2 s3 s4 s5 where c: "bread (lg_bc s) ROOTDEV ?a = Ok (handle s1 ?a, s1)" "bread s1 ROOTDEV ?b = Ok (handle s2 ?b, s2)"
      "bwrite (set_data s2 (handle s2 ?b) (b_data (bc_buf s2 ! handle s1 ?a))) (handle s2 ?b) = Ok s3"
      "brelse (if recovering then s3 else bunpin s3 (handle s2 ?b)) (handle s1 ?a) = Ok s4" "brelse s4 (handle s2 ?b) = Ok s5"
      "cache_ok s5 (P - {?b}) {}" "through (lg_bc s) s5 [(?b, view (lg_bc s) ?a)]"
    using install_step[OF Suc.prems(1) ab P] by blast
  have run: "install_trans_from recovering tail (Suc k) s = install_trans_from recovering (Suc tail) k (s\<lparr>lg_bc := s5\<rparr>)"
    using c(1-5) Suc.prems(2,4) by (simp add: e Let_def del: bnd_Ok_iff)
  have P': "P - {?b} = (if recovering then {} else set (drop (Suc tail) (take (Suc tail + k) (lg_block s))))"
    using Suc.prems(5,7) L by (auto split: if_splits)
  have v: "view s5 (laddr (lg_start s) t) = v t" if "t \<in> {Suc tail..<Suc tail + k}" for t
    using throughD(1)[OF c(7)] nL[OF b] area[of t] Suc.prems(8) that by auto
  let ?s = "s\<lparr>lg_bc := s5\<rparr>"
  have "\<exists>bc. install_trans_from recovering (Suc tail) k ?s = Ok (?s\<lparr>lg_bc := bc\<rparr>) \<and> cache_ok bc {} {} \<and>
      through (lg_bc ?s) bc (map (\<lambda>t. (lg_block ?s ! t, v t)) [Suc tail..<Suc tail + k])"
  proof (rule Suc.IH[of ?s "P - {?b}"])
    show "distinct (drop (Suc tail) (take (Suc tail + k) (lg_block ?s)))" using Suc.prems(5) L by simp
    show "\<forall>t\<in>{Suc tail..<Suc tail + k}. view (lg_bc ?s) (laddr (lg_start ?s) t) = v t" using v by simp
    show "P - {?b} = (if recovering then {} else set (drop (Suc tail) (take (Suc tail + k) (lg_block ?s))))" using P' by simp
  qed (use Suc.prems(2-4,6) c(6) in simp_all)
  then obtain bc where bc: "install_trans_from recovering (Suc tail) k (s\<lparr>lg_bc := s5\<rparr>) = Ok (s\<lparr>lg_bc := bc\<rparr>)" "cache_ok bc {} {}"
      "through s5 bc (map (\<lambda>t. (lg_block s ! t, v t)) [Suc tail..<Suc tail + k])" by auto
  have "[tail..<tail + Suc k] = tail # [Suc tail..<Suc tail + k]" by (simp add: upt_conv_Cons)
  moreover have "view (lg_bc s) ?a = v tail" using Suc.prems(8) by simp
  ultimately show ?case using through_trans[OF c(7) bc(3)] run bc(1,2) by (intro exI[of _ bc]) simp
qed

section \<open>The header block\<close>

lemma write_head_loop_ok:
  assumes "length d = BSIZE" "i + k \<le> length bl" "i + k \<le> 30"
  shows "\<exists>d'. write_head_loop i k d bl = Ok d' \<and> length d' = BSIZE \<and> get32 d' 0 = get32 d 0 \<and>
    (\<forall>j<30. lh_block d' j = (if i \<le> j \<and> j < i + k then bl ! j else lh_block d j))"
  using assms
proof (induction k arbitrary: i d)
  case (Suc k)
  let ?d = "put32 d (4 + 4 * i) (bl ! i)"
  have off: "4 + 4 * i + 4 \<le> length d" using Suc.prems(1,3) by (simp add: BSIZE_def)
  have len: "length ?d = BSIZE" using Suc.prems(1) off by simp
  have hd: "get32 ?d 0 = get32 d 0" using off by (intro get_put_other) auto
  have bl: "lh_block ?d j = (if j = i then bl ! i else lh_block d j)" if "j < 30" for j
  proof (cases "j = i")
    case False
    then have "get32 ?d (4 + 4 * j) = get32 d (4 + 4 * j)"
      using off that Suc.prems(1) by (intro get_put_other) (auto simp: BSIZE_def)
    then show ?thesis using False by (simp add: lh_block_def)
  qed (use off in \<open>simp add: lh_block_def\<close>)
  obtain d' where d': "write_head_loop (Suc i) k ?d bl = Ok d'" "length d' = BSIZE" "get32 d' 0 = get32 ?d 0"
      "\<forall>j<30. lh_block d' j = (if Suc i \<le> j \<and> j < Suc i + k then bl ! j else lh_block ?d j)"
    using Suc.IH[of ?d "Suc i"] Suc.prems(2,3) len by auto
  have "write_head_loop i (Suc k) d bl = Ok d'" using d'(1) Suc.prems(2) by simp
  moreover have "\<forall>j<30. lh_block d' j = (if i \<le> j \<and> j < i + Suc k then bl ! j else lh_block d j)" using d'(4) bl by auto
  ultimately show ?case using d'(2,3) hd by auto
qed auto

lemma read_head_loop_ok:
  assumes "i + k \<le> length bl"
  shows "\<exists>bl'. read_head_loop i k d bl = Ok bl' \<and> length bl' = length bl \<and>
    (\<forall>j<length bl. bl' ! j = (if i \<le> j \<and> j < i + k then lh_block d j else bl ! j))"
  using assms
proof (induction k arbitrary: i bl)
  case (Suc k)
  obtain bl' where "read_head_loop (Suc i) k d (bl[i := lh_block d i]) = Ok bl'" "length bl' = length bl"
      "\<forall>j<length bl. bl' ! j = (if Suc i \<le> j \<and> j < Suc i + k then lh_block d j else bl[i := lh_block d i] ! j)"
    using Suc.IH[of "Suc i" "bl[i := lh_block d i]"] Suc.prems by auto
  moreover from this have "\<forall>j<length bl. bl' ! j = (if i \<le> j \<and> j < i + Suc k then lh_block d j else bl ! j)"
    using Suc.prems by (intro allI impI, case_tac "j = i") auto
  ultimately show ?case using Suc.prems by (intro exI[of _ bl']) simp
qed auto

text \<open>A header block that records the first \<open>n\<close> entries of \<open>bl\<close>.\<close>

definition header :: "byte list \<Rightarrow> nat \<Rightarrow> uint list \<Rightarrow> bool" where
  "header d n bl \<longleftrightarrow> length d = BSIZE \<and> lh_n d = int n \<and> (\<forall>j<n. lh_block d j = bl ! j)"

lemma sint_small_nat: "n \<le> 30 \<Longrightarrow> sint (of_nat n :: uint) = int n"
  by (simp add: signed_of_nat signed_take_bit_int_eq_self)

lemma write_head_ok:
  assumes ok: "cache_ok (lg_bc s) P {}" and s: "card P < NBUF" "lg_dev s = ROOTDEV" "lg_n s = int n" "n \<le> 30" "n \<le> length (lg_block s)"
  shows "\<exists>c h. write_head s = Ok (s\<lparr>lg_bc := c\<rparr>) \<and> cache_ok c P {} \<and> header h n (lg_block s) \<and> through (lg_bc s) c [(lg_start s, h)]"
proof -
  let ?b = "lg_start s"
  let ?d = "put32 (view (lg_bc s) ?b) 0 (word_of_int (int n))"
  have vl: "length (view (lg_bc s) ?b) = BSIZE" by (rule bc.view_length[OF ok])
  then have dl: "length ?d = BSIZE" by (simp add: BSIZE_def)
  obtain h where h: "write_head_loop 0 n ?d (lg_block s) = Ok h" "length h = BSIZE" "get32 h 0 = get32 ?d 0"
      "\<forall>j<30. lh_block h j = (if 0 \<le> j \<and> j < 0 + n then lg_block s ! j else lh_block ?d j)"
    using write_head_loop_ok[OF dl, of 0 n "lg_block s"] s(4,5) by auto
  have "lh_n h = int n" unfolding lh_n_def h(3) using vl s(4) by (simp add: BSIZE_def sint_small_nat)
  then have hd: "header h n (lg_block s)" using h(2,4) s(4) by (simp add: header_def)
  have room: "?b \<in> P \<or> card (P \<union> {}) < NBUF" using s(1) by simp
  obtain s1 where s1: "bread (lg_bc s) ROOTDEV ?b = Ok (handle s1 ?b, s1)" "cache_ok s1 P {?b}" "view s1 = view (lg_bc s)"
      "bc_disk s1 = bc_disk (lg_bc s)" "bc_writes s1 = bc_writes (lg_bc s)"
    using bc.fetch_ok[OF ok _ room] by blast
  have d1: "b_data (bc_buf s1 ! handle s1 ?b) = view (lg_bc s) ?b" using bc.data_view[OF s1(2), of ?b] s1(3) by simp
  let ?s2 = "set_data s1 (handle s1 ?b) h"
  have s2: "cache_ok ?s2 P {?b}" "view ?s2 = (view (lg_bc s))(?b := h)" "bc_disk ?s2 = bc_disk (lg_bc s)"
      "bc_writes ?s2 = bc_writes (lg_bc s)" "handle ?s2 = handle s1"
    using bc.set_data_ok[OF s1(2) _ h(2)] s1 by simp_all
  obtain s3 where s3: "bwrite ?s2 (handle s1 ?b) = Ok s3" "cache_ok s3 P {?b}" "view s3 = view ?s2"
      "bc_disk s3 = (bc_disk (lg_bc s))(?b := h)" "bc_writes s3 = bc_writes (lg_bc s) @ [(?b, h)]" "handle s3 = handle s1"
    using bc.store_ok[OF s2(1), of ?b] s2 by auto
  obtain s4 where "brelse s3 (handle s1 ?b) = Ok s4" "cache_ok s4 P {}" "view s4 = view s3" "bc_disk s4 = bc_disk s3"
      "bc_writes s4 = bc_writes s3"
    using bc.release_ok[OF s3(2), of ?b] s3 s2 by auto
  moreover from this have "through (lg_bc s) s4 [(?b, h)]" using s2 s3 by (intro through_one) simp_all
  ultimately show ?thesis using s1(1) d1 h(1) s3(1) hd s(2,3)
    by (intro exI[of _ s4] exI[of _ h]) (simp add: write_head_def del: bnd_Ok_iff)
qed

lemma read_head_ok:
  assumes ok: "cache_ok (lg_bc s) {} {}" and s: "lg_dev s = ROOTDEV" "header (view (lg_bc s) (lg_start s)) n bl" "n \<le> length (lg_block s)"
  shows "\<exists>c bl'. read_head s = Ok (s\<lparr>lg_bc := c, lg_n := int n, lg_block := bl'\<rparr>) \<and> cache_ok c {} {} \<and>
    length bl' = length (lg_block s) \<and> (\<forall>j<n. bl' ! j = bl ! j) \<and> through (lg_bc s) c []"
proof -
  let ?d = "view (lg_bc s) (lg_start s)"
  have room: "lg_start s \<in> {} \<or> card ({} \<union> {} :: uint set) < NBUF" by (simp add: NBUF_def)
  obtain s1 c where c: "bread (lg_bc s) ROOTDEV (lg_start s) = Ok (handle s1 (lg_start s), s1)"
      "b_data (bc_buf s1 ! handle s1 (lg_start s)) = ?d" "brelse s1 (handle s1 (lg_start s)) = Ok c" "cache_ok c {} {}"
      "view c = view (lg_bc s)" "bc_disk c = bc_disk (lg_bc s)" "bc_writes c = bc_writes (lg_bc s)"
    using bc.fetch_release[OF ok _ room] by blast
  have n: "lh_n ?d = int n" "\<forall>j<n. lh_block ?d j = bl ! j" using s(2) by (simp_all add: header_def)
  obtain bl' where bl': "read_head_loop 0 n ?d (lg_block s) = Ok bl'" "length bl' = length (lg_block s)"
      "\<forall>j<length (lg_block s). bl' ! j = (if 0 \<le> j \<and> j < 0 + n then lh_block ?d j else lg_block s ! j)"
    using read_head_loop_ok[of 0 n "lg_block s" ?d] s(3) by auto
  have "read_head s = Ok (s\<lparr>lg_bc := c, lg_n := int n, lg_block := bl'\<rparr>)"
    using c(1-3) n(1) bl'(1) s(1) by (simp add: read_head_def Let_def del: bnd_Ok_iff)
  moreover have "\<forall>j<n. bl' ! j = bl ! j" using bl'(3) n(2) s(3) by simp
  ultimately show ?thesis using c bl'(2) by (intro exI[of _ c] exI[of _ bl']) (simp add: through_def)
qed

section \<open>Commit\<close>

lemma home_outside: "set (take n bl) \<inter> A = {} \<Longrightarrow> n \<le> length bl \<Longrightarrow> t < n \<Longrightarrow> bl ! t \<notin> A"
  using nth_mem[of t "take n bl"] by auto

text \<open>The log between the operations of a transaction: the logged blocks are distinct home blocks and pinned, and the
  header on the disk is empty.\<close>

definition log_ok :: "klog \<Rightarrow> nat \<Rightarrow> bool" where
  "log_ok s n \<longleftrightarrow> lg_n s = int n \<and> n \<le> 29 \<and> lg_dev s = ROOTDEV \<and> length (lg_block s) = LOGSIZE \<and>
     distinct (take n (lg_block s)) \<and> set (take n (lg_block s)) \<inter> log_area (lg_start s) = {} \<and>
     cache_ok (lg_bc s) (set (take n (lg_block s))) {} \<and> lh_n (bc_disk (lg_bc s) (lg_start s)) = 0"

definition commit_writes :: "klog \<Rightarrow> nat \<Rightarrow> byte list \<Rightarrow> byte list \<Rightarrow> (uint \<times> byte list) list" where
  "commit_writes s n h h0 =
     map (\<lambda>t. (laddr (lg_start s) t, view (lg_bc s) (lg_block s ! t))) [0..<n] @ [(lg_start s, h)] @
     map (\<lambda>t. (lg_block s ! t, view (lg_bc s) (lg_block s ! t))) [0..<n] @ [(lg_start s, h0)]"

lemma commit_ok:
  assumes "log_ok s n" "0 < n"
  shows "\<exists>c h h0. commit s = Ok (s\<lparr>lg_n := 0, lg_bc := c\<rparr>) \<and> cache_ok c {} {} \<and> header h n (lg_block s) \<and> header h0 0 (lg_block s) \<and>
    through (lg_bc s) c (commit_writes s n h h0)"
proof -
  let ?P = "set (take n (lg_block s))" and ?v = "\<lambda>t. view (lg_bc s) (lg_block s ! t)" and ?st = "lg_start s"
  have s: "lg_n s = int n" "n \<le> 29" "lg_dev s = ROOTDEV" "length (lg_block s) = 30" "distinct (take n (lg_block s))"
      "?P \<inter> log_area ?st = {}" "cache_ok (lg_bc s) ?P {}" using assms(1) by (auto simp: log_ok_def LOGSIZE_def)
  have card: "card ?P < NBUF" using card_length[of "take n (lg_block s)"] s(2) by (simp add: NBUF_def)
  have home: "lg_block s ! t \<in> ?P" if "t < n" for t using nth_mem[of t "take n (lg_block s)"] that s(2,4) by simp
  obtain c1 where c1: "write_log_from 0 n s = Ok (s\<lparr>lg_bc := c1\<rparr>)" "cache_ok c1 ?P {}"
      "through (lg_bc s) c1 (map (\<lambda>t. (laddr ?st t, ?v t)) [0..<n])"
    using write_log_from_writes[OF s(7) card s(3), of 0 n ?v] s(2,4,6) by auto
  obtain c2 h where c2: "write_head (s\<lparr>lg_bc := c1\<rparr>) = Ok (s\<lparr>lg_bc := c2\<rparr>)" "cache_ok c2 ?P {}" "header h n (lg_block s)"
      "through c1 c2 [(?st, h)]"
    using write_head_ok[of "s\<lparr>lg_bc := c1\<rparr>" ?P n] c1(2) card s(1-4) by auto
  have v: "view c2 (laddr ?st t) = ?v t" if "t \<in> {0..<0 + n}" for t
    using throughD(1)[OF c2(4)] throughD(1)[OF c1(3)] laddr_start[of t ?st] that s(2)
      apply_writes_map[OF distinct_laddr[OF s(2), of ?st 0], of t] by auto
  have "\<exists>c. install_trans_from False 0 n (s\<lparr>lg_bc := c2\<rparr>) = Ok (s\<lparr>lg_bc := c2\<rparr>\<lparr>lg_bc := c\<rparr>) \<and> cache_ok c {} {} \<and>
      through (lg_bc (s\<lparr>lg_bc := c2\<rparr>)) c (map (\<lambda>t. (lg_block (s\<lparr>lg_bc := c2\<rparr>) ! t, ?v t)) [0..<0 + n])"
    by (rule install_trans_from_writes[of _ ?P]) (use c2(2) s v home_outside[OF s(6)] in \<open>auto simp: LOGSIZE_def\<close>)
  then obtain c3 where c3: "install_trans_from False 0 n (s\<lparr>lg_bc := c2\<rparr>) = Ok (s\<lparr>lg_bc := c3\<rparr>)" "cache_ok c3 {} {}"
      "through c2 c3 (map (\<lambda>t. (lg_block s ! t, ?v t)) [0..<n])" by auto
  obtain c4 h0 where c4: "write_head (s\<lparr>lg_bc := c3, lg_n := 0\<rparr>) = Ok (s\<lparr>lg_n := 0, lg_bc := c4\<rparr>)" "cache_ok c4 {} {}"
      "header h0 0 (lg_block s)" "through c3 c4 [(?st, h0)]"
    using write_head_ok[of "s\<lparr>lg_bc := c3, lg_n := 0\<rparr>" "{}" 0] c3(2) s(3) by (auto simp: NBUF_def)
  have "commit s = Ok (s\<lparr>lg_n := 0, lg_bc := c4\<rparr>)"
    using assms(2) s(1) c1(1) c2(1) c3(1) c4(1) by (simp add: commit_def write_log_def install_trans_def del: bnd_Ok_iff)
  then show ?thesis using c4(2,3) c2(3) through_trans[OF c1(3) through_trans[OF c2(4) through_trans[OF c3(3) c4(4)]]]
    by (auto simp: commit_writes_def)
qed

section \<open>Recovery\<close>

text \<open>What recovery makes of a disk \<open>d\<close> whose header records the first \<open>n\<close> entries of \<open>bl\<close>.\<close>

definition recovered :: "uint \<Rightarrow> nat \<Rightarrow> uint list \<Rightarrow> (uint \<Rightarrow> byte list) \<Rightarrow> uint \<Rightarrow> byte list" where
  "recovered st n bl d = apply_writes (map (\<lambda>t. (bl ! t, d (laddr st t))) [0..<n]) d"

lemma recover_ok:
  assumes ok: "cache_ok (lg_bc s) {} {}" and s: "lg_dev s = ROOTDEV" "length (lg_block s) = LOGSIZE"
    and hd: "header (bc_disk (lg_bc s) (lg_start s)) n bl" "n \<le> 29" "n \<le> length bl" "distinct (take n bl)"
      "set (take n bl) \<inter> log_area (lg_start s) = {}"
  shows "\<exists>s' h0. recover_from_log s = Ok s' \<and> lg_n s' = 0 \<and> cache_ok (lg_bc s') {} {} \<and> header h0 0 bl \<and>
    bc_disk (lg_bc s') = (recovered (lg_start s) n bl (bc_disk (lg_bc s)))(lg_start s := h0)"
proof -
  let ?st = "lg_start s" and ?d = "bc_disk (lg_bc s)"
  have vd: "view (lg_bc s) = ?d" using bc.clean[OF ok] by auto
  obtain c1 bl' where c1: "read_head s = Ok (s\<lparr>lg_bc := c1, lg_n := int n, lg_block := bl'\<rparr>)" "cache_ok c1 {} {}"
      "length bl' = LOGSIZE" "\<forall>j<n. bl' ! j = bl ! j" "through (lg_bc s) c1 []"
    using read_head_ok[OF ok s(1), of n bl] hd s(2) vd by (auto simp: LOGSIZE_def)
  have v1: "view c1 = ?d" "bc_disk c1 = ?d" using c1(5) vd by (simp_all add: through_def)
  let ?s1 = "s\<lparr>lg_bc := c1, lg_n := int n, lg_block := bl'\<rparr>"
  have tk: "take n bl' = take n bl" using c1(3,4) hd(2,3) by (intro nth_equalityI) (auto simp: LOGSIZE_def)
  have "\<exists>c. install_trans_from True 0 n ?s1 = Ok (?s1\<lparr>lg_bc := c\<rparr>) \<and> cache_ok c {} {} \<and>
      through (lg_bc ?s1) c (map (\<lambda>t. (lg_block ?s1 ! t, ?d (laddr ?st t))) [0..<0 + n])"
  proof (rule install_trans_from_writes[of _ "{}"])
    show "\<forall>t\<in>{0..<0 + n}. lg_block ?s1 ! t \<notin> log_area (lg_start ?s1)"
      using home_outside[OF hd(5,3)] c1(4) by auto
  qed (use c1 s hd tk v1 in \<open>auto simp: LOGSIZE_def\<close>)
  then obtain c2 where c2: "install_trans_from True 0 n ?s1 = Ok (?s1\<lparr>lg_bc := c2\<rparr>)" "cache_ok c2 {} {}"
      "through c1 c2 (map (\<lambda>t. (bl' ! t, ?d (laddr ?st t))) [0..<n])" by auto
  let ?s2 = "?s1\<lparr>lg_bc := c2, lg_n := 0\<rparr>"
  obtain c3 h0 where c3: "write_head ?s2 = Ok (?s2\<lparr>lg_bc := c3\<rparr>)" "cache_ok c3 {} {}" "header h0 0 bl'" "through c2 c3 [(?st, h0)]"
    using write_head_ok[of ?s2 "{}" 0] c2(2) s(1) by (auto simp: NBUF_def)
  have me: "map (\<lambda>t. (bl ! t, ?d (laddr ?st t))) [0..<n] = map (\<lambda>t. (bl' ! t, ?d (laddr ?st t))) [0..<n]" using c1(4) by simp
  have "bc_disk c3 = (recovered ?st n bl ?d)(?st := h0)"
    unfolding recovered_def me using throughD(2)[OF c3(4)] throughD(2)[OF c2(3)] v1 by simp
  moreover have "recover_from_log s = Ok (?s2\<lparr>lg_bc := c3\<rparr>)"
    using c1(1) c2(1) c3(1) by (simp add: recover_from_log_def install_trans_def del: bnd_Ok_iff)
  moreover have "header h0 0 bl" using c3(3) by (simp add: header_def)
  ultimately show ?thesis using c3(2) by (intro exI[of _ "?s2\<lparr>lg_bc := c3\<rparr>"] exI[of _ h0]) simp
qed

section \<open>Crashes\<close>

lemma take_map_upt: "k \<le> n \<Longrightarrow> take k (map f [0..<n]) = map f [0..<k]"
  by (simp add: take_map)

lemma apply_writes_home:
  assumes "distinct (take n bl)" "n \<le> length bl" "t < n"
  shows "apply_writes (map (\<lambda>t. (bl ! t, v t)) [0..<n]) f (bl ! t) = v t"
proof -
  have "map ((!) bl) [0..<n] = take n bl" using assms(2) by (intro nth_equalityI) auto
  then show ?thesis using apply_writes_map[of "(!) bl" 0 n t v f] assms(1,3) by simp
qed

lemma map_outside: "b \<notin> set (take n bl) \<Longrightarrow> n \<le> length bl \<Longrightarrow> j \<le> n \<Longrightarrow> b \<notin> fst ` set (map (\<lambda>t. (bl ! t, v t)) [0..<j])"
  using nth_mem[of _ "take n bl"] by (force simp: image_iff)

text \<open>The home blocks a recovery finds or makes, after the first \<open>k\<close> writes of a commit.\<close>

lemma crash_recovered:
  assumes "log_ok s n" "header h n (lg_block s)" "header h0 0 (lg_block s)" "k \<le> length (commit_writes s n h h0)"
  defines "d \<equiv> apply_writes (take k (commit_writes s n h h0)) (bc_disk (lg_bc s))" and "st \<equiv> lg_start s"
  shows "\<exists>m. header (d st) m (lg_block s) \<and> m \<le> n \<and>
    (\<forall>b. b \<notin> log_area st \<longrightarrow> recovered st m (lg_block s) d b = (if k \<le> n then bc_disk (lg_bc s) b else view (lg_bc s) b))"
proof -
  let ?bl = "lg_block s" and ?v = "\<lambda>t. view (lg_bc s) (lg_block s ! t)" and ?D = "bc_disk (lg_bc s)"
  have s: "n \<le> 29" "n \<le> length ?bl" "distinct (take n ?bl)" "set (take n ?bl) \<inter> log_area st = {}"
      "cache_ok (lg_bc s) (set (take n ?bl)) {}" "lh_n (?D st) = 0"
    using assms(1) by (auto simp: log_ok_def LOGSIZE_def st_def)
  have st: "st \<in> log_area st" by (simp add: log_area_def)
  have logw: "b \<notin> fst ` set (map (\<lambda>t. (laddr st t, ?v t)) [0..<j])" if "b = st \<or> b \<notin> log_area st" "j \<le> n" for b j
  proof
    assume "b \<in> fst ` set (map (\<lambda>t. (laddr st t, ?v t)) [0..<j])"
    then obtain t where "t < j" "b = laddr st t" by auto
    then show False using that s(1) laddr_start[of t st] by (auto simp: log_area_def)
  qed
  have homew: "b \<notin> fst ` set (map (\<lambda>t. (?bl ! t, ?v t)) [0..<j])" if "b \<in> log_area st" "j \<le> n" for b j
  proof (rule map_outside[OF _ s(2) that(2)])
    show "b \<notin> set (take n ?bl)" using s(4) that(1) by auto
  qed
  have clean: "?D b = view (lg_bc s) b" if "b \<notin> set (take n ?bl)" for b using bc.clean[OF s(5), of b] that by simp
  have inst: "apply_writes (map (\<lambda>t. (?bl ! t, ?v t)) [0..<n]) f b = view (lg_bc s) b"
    if "b \<notin> log_area st" "b \<notin> set (take n ?bl) \<Longrightarrow> f b = ?D b" for f b
  proof (cases "b \<in> set (take n ?bl)")
    case True
    then obtain t where "t < n" "b = ?bl ! t" using s(2) by (auto simp: in_set_conv_nth)
    then show ?thesis using apply_writes_home[OF s(3,2)] by simp
  next
    case False
    then show ?thesis using apply_writes_other[OF map_outside[OF False s(2) order_refl]] that(2) clean by simp
  qed
  let ?L = "map (\<lambda>t. (laddr st t, ?v t)) [0..<n]" and ?H = "map (\<lambda>t. (?bl ! t, ?v t)) [0..<n]"
  have W: "commit_writes s n h h0 = ?L @ (st, h) # ?H @ [(st, h0)]" by (simp add: commit_writes_def st_def)
  consider "k \<le> n" | j where "k = n + Suc j" "j \<le> n" | "k = n + Suc (Suc n)"
  proof -
    have "k \<le> n + Suc (Suc n)" using assms(4) W by simp
    then have "k \<le> n \<or> (\<exists>j. k = n + Suc j \<and> j \<le> n) \<or> k = n + Suc (Suc n)" by presburger
    then show thesis using that by blast
  qed
  then show ?thesis
  proof cases
    case 1
    have d: "d = apply_writes (map (\<lambda>t. (laddr st t, ?v t)) [0..<k]) ?D" using 1 by (simp add: d_def W take_map)
    then have "d st = ?D st" by (simp only: apply_writes_other[OF logw[OF _ 1]] simp_thms)
    then have "header (d st) 0 ?bl" using s(6) cache_okD(3)[OF s(5)] by (simp add: header_def)
    moreover have "d b = ?D b" if "b \<notin> log_area st" for b unfolding d using that by (simp only: apply_writes_other[OF logw[OF _ 1]] simp_thms)
    ultimately show ?thesis using 1 by (intro exI[of _ 0]) (simp add: recovered_def)
  next
    case (2 j)
    let ?Hj = "map (\<lambda>t. (?bl ! t, ?v t)) [0..<j]"
    have d: "d = apply_writes ?Hj ((apply_writes ?L ?D)(st := h))" using 2 by (simp add: d_def W take_map)
    have "d st = h" unfolding d using apply_writes_other[OF homew[OF st 2(2)]] by simp
    moreover have la: "d (laddr st t) = ?v t" if "t < n" for t
    proof -
      have "laddr st t \<in> log_area st" using that s(1) by (simp add: log_area_def)
      then have "d (laddr st t) = ((apply_writes ?L ?D)(st := h)) (laddr st t)"
        unfolding d by (rule apply_writes_other[OF homew[OF _ 2(2)]])
      then show ?thesis using apply_writes_map[OF distinct_laddr[OF s(1)], of t 0 st ?v ?D] laddr_start[of t st] that s(1) by simp
    qed
    moreover have "recovered st n ?bl d b = view (lg_bc s) b" if b: "b \<notin> log_area st" for b
    proof -
      have me: "map (\<lambda>t. (?bl ! t, d (laddr st t))) [0..<n] = ?H" using la by simp
      have "d b = ?D b" if "b \<notin> set (take n ?bl)"
      proof -
        have "d b = ((apply_writes ?L ?D)(st := h)) b" unfolding d by (rule apply_writes_other[OF map_outside[OF that s(2) 2(2)]])
        also have "\<dots> = apply_writes ?L ?D b" using b st by auto
        also have "\<dots> = ?D b" using b by (intro apply_writes_other logw) simp_all
        finally show ?thesis .
      qed
      then show ?thesis unfolding recovered_def me using inst[OF b] by simp
    qed
    ultimately show ?thesis using 2 assms(2) by (intro exI[of _ n]) simp
  next
    case 3
    have d: "d = (apply_writes ?H ((apply_writes ?L ?D)(st := h)))(st := h0)" using 3 by (simp add: d_def W)
    have "d b = view (lg_bc s) b" if b: "b \<notin> log_area st" for b
    proof -
      have "((apply_writes ?L ?D)(st := h)) b = ?D b"
        using apply_writes_other[OF logw[OF _ order_refl], of b] b st by auto
      then show ?thesis unfolding d using inst[OF b] b st by auto
    qed
    then show ?thesis using 3 d assms(3) by (intro exI[of _ 0]) (simp add: recovered_def)
  qed
qed

text \<open>C1: A crash at any point of a commit is atomic. The disk performs the writes of \<open>commit\<close> one after the other; if
  the machine stops after the first \<open>k\<close> of them and reboots on that disk, then \<open>initlog\<close> succeeds and every block
  outside the log holds either its contents before the transaction, for every \<open>k\<close> up to the number of
  logged blocks, or the contents of the transaction, from the write of the header on. Afterwards the log is empty.\<close>

theorem commit_is_crash_atomic:
  assumes "log_ok s n" "commit s = Ok s'"
  defines "ws \<equiv> drop (length (bc_writes (lg_bc s))) (bc_writes (lg_bc s'))"
  assumes "k \<le> length ws"
    and boot: "boot_cache b" "bc_disk b = apply_writes (take k ws) (bc_disk (lg_bc s))" "lg_bc r = binit b" "length (lg_block r) = LOGSIZE"
  shows "\<exists>r'. initlog ROOTDEV (lg_start s) nlog r = Ok r' \<and> lg_n r' = 0 \<and> lh_n (bc_disk (lg_bc r') (lg_start s)) = 0 \<and>
    (\<forall>c. c \<notin> log_area (lg_start s) \<longrightarrow>
       bc_disk (lg_bc r') c = (if k \<le> n then bc_disk (lg_bc s) c else view (lg_bc s) c))"
proof -
  let ?st = "lg_start s" and ?bl = "lg_block s" and ?d = "bc_disk b"
  have bl: "n \<le> 29" "n \<le> length ?bl" "distinct (take n ?bl)" "set (take n ?bl) \<inter> log_area ?st = {}" "length ?bl = LOGSIZE"
    using assms(1) by (auto simp: log_ok_def LOGSIZE_def)
  have "\<exists>m. header (?d ?st) m ?bl \<and> m \<le> n \<and>
    (\<forall>c. c \<notin> log_area ?st \<longrightarrow> recovered ?st m ?bl ?d c = (if k \<le> n then bc_disk (lg_bc s) c else view (lg_bc s) c))"
  proof (cases "n = 0")
    case True
    then have "s' = s" using assms(1,2) by (simp add: commit_def log_ok_def)
    then have "k = 0" "?d = bc_disk (lg_bc s)" using assms(3,4) boot(2) by (simp_all add: ws_def)
    moreover have "header (bc_disk (lg_bc s) ?st) 0 ?bl"
      using assms(1) cache_okD(3)[of "lg_bc s"] by (auto simp: log_ok_def header_def)
    ultimately show ?thesis by (intro exI[of _ 0]) (simp add: recovered_def)
  next
    case False
    then obtain c h h0 where c: "commit s = Ok (s\<lparr>lg_n := 0, lg_bc := c\<rparr>)" "header h n ?bl" "header h0 0 ?bl"
        "through (lg_bc s) c (commit_writes s n h h0)" using commit_ok[OF assms(1)] by auto
    then have "ws = commit_writes s n h h0" using assms(2) by (auto simp: ws_def through_def)
    then show ?thesis using crash_recovered[OF assms(1) c(2,3)] assms(4) boot(2) by simp
  qed
  then obtain m where m: "header (?d ?st) m ?bl" "m \<le> n"
      "\<forall>c. c \<notin> log_area ?st \<longrightarrow> recovered ?st m ?bl ?d c = (if k \<le> n then bc_disk (lg_bc s) c else view (lg_bc s) c)" by blast
  let ?r = "r\<lparr>lg_start := ?st, lg_size := sint nlog, lg_dev := ROOTDEV\<rparr>"
  have "set (take m ?bl) \<subseteq> set (take n ?bl)" by (rule set_take_subset_set_take[OF m(2)])
  moreover have "distinct (take m ?bl)" using distinct_take[of "take n ?bl" m] bl(3) m(2) by (simp add: min_absorb1)
  ultimately have "\<exists>s' h0. recover_from_log ?r = Ok s' \<and> lg_n s' = 0 \<and> cache_ok (lg_bc s') {} {} \<and> header h0 0 ?bl \<and>
      bc_disk (lg_bc s') = (recovered (lg_start ?r) m ?bl (bc_disk (lg_bc ?r)))(lg_start ?r := h0)"
    using m bl boot binit_ok[OF boot(1)] by (intro recover_ok) (auto simp: LOGSIZE_def)
  then obtain r' h0 where "recover_from_log ?r = Ok r'" "lg_n r' = 0" "header h0 0 ?bl"
      "bc_disk (lg_bc r') = (recovered ?st m ?bl ?d)(?st := h0)" using boot(3) binit_ok(3)[OF boot(1)] by auto
  moreover have "?st \<in> log_area ?st" by (simp add: log_area_def)
  ultimately show ?thesis using m(3)
    by (intro exI[of _ r']) (auto simp: initlog_def LOGSIZE_def BSIZE_def header_def)
qed

section \<open>Updates inside a transaction\<close>

lemma log_find_ok:
  assumes "i + k \<le> length bl"
  shows "\<exists>j. log_find i k bl b = Ok j \<and> i \<le> j \<and> j \<le> i + k \<and> (j < i + k \<longrightarrow> bl ! j = b) \<and> (\<forall>t\<in>{i..<j}. bl ! t \<noteq> b)"
  using assms
proof (induction k arbitrary: i)
  case (Suc k)
  show ?case
  proof (cases "bl ! i = b")
    case True
    then show ?thesis using Suc.prems by (intro exI[of _ i]) simp
  next
    case False
    obtain j where j: "log_find (Suc i) k bl b = Ok j" "Suc i \<le> j" "j \<le> Suc i + k" "j < Suc i + k \<longrightarrow> bl ! j = b"
        "\<forall>t\<in>{Suc i..<j}. bl ! t \<noteq> b" using Suc.IH[of "Suc i"] Suc.prems by auto
    have "\<forall>t\<in>{i..<j}. bl ! t \<noteq> b"
    proof
      fix t assume "t \<in> {i..<j}"
      then show "bl ! t \<noteq> b" using False j(5) by (cases "t = i") auto
    qed
    then show ?thesis using j False Suc.prems by (intro exI[of _ j]) simp
  qed
qed auto

text \<open>\<open>log_write\<close> of a held home block adds it to the transaction, once.\<close>

lemma log_write_ok:
  assumes s: "lg_n s = int n" "n \<le> 28" "lg_size s = 30" "1 \<le> lg_outstanding s" "length (lg_block s) = LOGSIZE" "distinct (take n (lg_block s))"
    and ok: "cache_ok (lg_bc s) (set (take n (lg_block s))) {b}"
  shows "\<exists>c bl m. log_write s (handle (lg_bc s) b) = Ok (s\<lparr>lg_bc := c, lg_n := int m, lg_block := bl\<rparr>) \<and> m \<le> n + 1 \<and>
    length bl = LOGSIZE \<and> distinct (take m bl) \<and> set (take m bl) = insert b (set (take n (lg_block s))) \<and>
    cache_ok c (set (take m bl)) {b} \<and> view c = view (lg_bc s) \<and> bc_disk c = bc_disk (lg_bc s) \<and> bc_writes c = bc_writes (lg_bc s) \<and>
    handle c = handle (lg_bc s)"
proof -
  let ?bl = "lg_block s" and ?P = "set (take n (lg_block s))" and ?h = "handle (lg_bc s) b"
  have no: "b_blockno (bc_buf (lg_bc s) ! ?h) = b" using bc.blockno_handle[OF ok, of b] by simp
  have len: "n < length ?bl" using s(2,5) by (simp add: LOGSIZE_def)
  obtain j where j: "log_find 0 n ?bl b = Ok j" "j \<le> n" "j < n \<longrightarrow> ?bl ! j = b" "\<forall>t\<in>{0..<j}. ?bl ! t \<noteq> b"
    using log_find_ok[of 0 n ?bl b] len by auto
  have guards: "\<not> (lg_n s \<ge> int LOGSIZE \<or> lg_n s \<ge> lg_size s - 1)" "\<not> lg_outstanding s < 1" using s(1-4) by (simp_all add: LOGSIZE_def)
  show ?thesis
  proof (cases "j = n")
    case True
    let ?bl' = "?bl[n := b]"
    have tk: "take (n + 1) ?bl' = take n ?bl @ [b]" using len by (simp add: take_Suc_conv_app_nth)
    have nb: "b \<notin> ?P" using j(4) True len by (auto simp: in_set_conv_nth)
    have "log_write s ?h = Ok (s\<lparr>lg_bc := bpin (lg_bc s) ?h, lg_n := int (n + 1), lg_block := ?bl'\<rparr>)"
      using guards j(1) True s(1) no len by (simp add: log_write_def Let_def del: bnd_Ok_iff)
    moreover have "distinct (take (n + 1) ?bl')" "set (take (n + 1) ?bl') = insert b ?P" using s(6) nb by (simp_all only: tk) simp_all
    ultimately show ?thesis using bc.pin_ok[OF ok _ nb] s(5)
      by (intro exI[of _ "bpin (lg_bc s) ?h"] exI[of _ ?bl'] exI[of _ "n + 1"]) simp
  next
    case False
    then have b: "?bl ! j = b" "j < n" using j(2,3) by simp_all
    then have same: "?bl[j := b] = ?bl" by (metis list_update_id)
    have "log_write s ?h = Ok (s\<lparr>lg_block := ?bl\<rparr>)"
      using guards j(1) False s(1) no len b(2) same by (simp add: log_write_def Let_def del: bnd_Ok_iff)
    moreover have "s\<lparr>lg_block := ?bl\<rparr> = s\<lparr>lg_bc := lg_bc s, lg_n := int n, lg_block := ?bl\<rparr>" using s(1) by simp
    moreover have "b \<in> ?P" using b len nth_mem[of j "take n ?bl"] by simp
    ultimately show ?thesis using s(5,6) ok by (intro exI[of _ "lg_bc s"] exI[of _ ?bl] exI[of _ n]) (simp add: insert_absorb)
  qed
qed

text \<open>The way the file system changes a block: \<open>bread\<close>, change the data, \<open>log_write\<close>, \<open>brelse\<close>.\<close>

definition logged_update :: "klog \<Rightarrow> uint \<Rightarrow> (byte list \<Rightarrow> byte list) \<Rightarrow> klog outcome" where
  "logged_update s b g =
     bnd (bread (lg_bc s) ROOTDEV b) (\<lambda>(i, c).
     bnd (log_write (s\<lparr>lg_bc := set_data c i (g (b_data (bc_buf c ! i)))\<rparr>) i) (\<lambda>s.
     bnd (brelse (lg_bc s) i) (\<lambda>c. Ok (s\<lparr>lg_bc := c\<rparr>))))"

lemma logged_update_ok:
  assumes "log_ok s n" "n \<le> 28" "lg_size s = 30" "1 \<le> lg_outstanding s" "b \<notin> log_area (lg_start s)" "length (g (view (lg_bc s) b)) = BSIZE"
  shows "\<exists>c bl m. logged_update s b g = Ok (s\<lparr>lg_bc := c, lg_n := int m, lg_block := bl\<rparr>) \<and> m \<le> n + 1 \<and>
    log_ok (s\<lparr>lg_bc := c, lg_n := int m, lg_block := bl\<rparr>) m \<and> set (take m bl) = insert b (set (take n (lg_block s))) \<and>
    view c = (view (lg_bc s))(b := g (view (lg_bc s) b)) \<and> bc_disk c = bc_disk (lg_bc s) \<and> bc_writes c = bc_writes (lg_bc s)"
proof -
  let ?P = "set (take n (lg_block s))"
  have s: "lg_n s = int n" "length (lg_block s) = LOGSIZE" "distinct (take n (lg_block s))" "?P \<inter> log_area (lg_start s) = {}"
      "cache_ok (lg_bc s) ?P {}" "lh_n (bc_disk (lg_bc s) (lg_start s)) = 0" "lg_dev s = ROOTDEV"
    using assms(1) by (simp_all add: log_ok_def)
  have "card ?P < NBUF" using card_length[of "take n (lg_block s)"] assms(2) by (simp add: NBUF_def)
  then obtain c1 where c1: "bread (lg_bc s) ROOTDEV b = Ok (handle c1 b, c1)" "cache_ok c1 ?P {b}" "view c1 = view (lg_bc s)"
      "bc_disk c1 = bc_disk (lg_bc s)" "bc_writes c1 = bc_writes (lg_bc s)" using bc.fetch_ok[OF s(5), of b] by auto
  let ?d = "g (view (lg_bc s) b)"
  have d: "b_data (bc_buf c1 ! handle c1 b) = view (lg_bc s) b" using bc.data_view[OF c1(2), of b] c1(3) by simp
  let ?c2 = "set_data c1 (handle c1 b) ?d"
  have c2: "cache_ok ?c2 ?P {b}" "view ?c2 = (view (lg_bc s))(b := ?d)" "bc_disk ?c2 = bc_disk (lg_bc s)"
      "bc_writes ?c2 = bc_writes (lg_bc s)" "handle ?c2 = handle c1"
    using bc.set_data_ok[OF c1(2) _ assms(6)] c1 by simp_all
  obtain c3 bl m where c3: "log_write (s\<lparr>lg_bc := ?c2\<rparr>) (handle c1 b) = Ok (s\<lparr>lg_bc := c3, lg_n := int m, lg_block := bl\<rparr>)"
      "m \<le> n + 1" "length bl = LOGSIZE" "distinct (take m bl)" "set (take m bl) = insert b ?P" "cache_ok c3 (set (take m bl)) {b}"
      "view c3 = view ?c2" "bc_disk c3 = bc_disk ?c2" "bc_writes c3 = bc_writes ?c2" "handle c3 = handle c1"
    using log_write_ok[of "s\<lparr>lg_bc := ?c2\<rparr>" n b] s(1-3) assms(2-4) c2(1,5) by auto
  obtain c4 where c4: "brelse c3 (handle c1 b) = Ok c4" "cache_ok c4 (set (take m bl)) {}" "view c4 = view c3" "bc_disk c4 = bc_disk c3"
      "bc_writes c4 = bc_writes c3"
    using bc.release_ok[OF c3(6), of b] c3(5,10) by auto
  have "logged_update s b g = Ok (s\<lparr>lg_bc := c4, lg_n := int m, lg_block := bl\<rparr>)"
    using c1(1) d c3(1) c4(1) by (simp add: logged_update_def del: bnd_Ok_iff)
  moreover have "log_ok (s\<lparr>lg_bc := c4, lg_n := int m, lg_block := bl\<rparr>) m"
    using c4 c3 c2(3) s assms(2,5) by (auto simp: log_ok_def)
  ultimately show ?thesis using c4 c3 c2 by (intro exI[of _ c4] exI[of _ bl] exI[of _ m]) simp
qed

lemma commit_installs:
  assumes "log_ok s n" "0 < n"
  shows "\<exists>c. commit s = Ok (s\<lparr>lg_n := 0, lg_bc := c\<rparr>) \<and> log_ok (s\<lparr>lg_n := 0, lg_bc := c\<rparr>) 0 \<and>
    (\<forall>b. b \<notin> log_area (lg_start s) \<longrightarrow> view c b = view (lg_bc s) b \<and> bc_disk c b = view (lg_bc s) b)"
proof -
  let ?bl = "lg_block s" and ?st = "lg_start s"
  obtain c h h0 where c: "commit s = Ok (s\<lparr>lg_n := 0, lg_bc := c\<rparr>)" "cache_ok c {} {}" "header h n ?bl" "header h0 0 ?bl"
      "through (lg_bc s) c (commit_writes s n h h0)" using commit_ok[OF assms] by blast
  let ?W = "commit_writes s n h h0"
  have W: "?W = butlast ?W @ [(?st, h0)]" by (simp add: commit_writes_def butlast_append)
  have "bc_disk c ?st = h0" using throughD(2)[OF c(5)] by (subst (asm) W) simp
  then have "log_ok (s\<lparr>lg_n := 0, lg_bc := c\<rparr>) 0" using assms(1) c(2,4) by (simp add: log_ok_def header_def)
  moreover have "bc_disk c b = view (lg_bc s) b" if b: "b \<notin> log_area ?st" for b
  proof -
    have "\<not> length ?W \<le> n" by (simp add: commit_writes_def)
    then obtain m where m: "header (bc_disk c ?st) m ?bl" "recovered ?st m ?bl (bc_disk c) b = view (lg_bc s) b"
      using crash_recovered[OF assms(1) c(3,4) order_refl] throughD(2)[OF c(5)] b by auto
    then have "m = 0" using \<open>bc_disk c ?st = h0\<close> c(4) by (simp add: header_def)
    then show ?thesis using m(2) by (simp add: recovered_def)
  qed
  moreover have "view c = bc_disk c" using bc.clean[OF c(2)] by auto
  ultimately show ?thesis using c(1) by (intro exI[of _ c]) simp
qed

text \<open>C3: Inside a transaction with room in the log, the update sequence \<open>bread\<close>, change, \<open>log_write\<close>, \<open>brelse\<close> of a home block
  succeeds, changes exactly this block in the view of the file system, and writes nothing to the disk. The
  block takes one entry of the log, and none if it was logged before.\<close>

theorem logged_update_changes_view_only:
  assumes "log_ok s n" "n \<le> 28" "lg_size s = 30" "1 \<le> lg_outstanding s" "b \<notin> log_area (lg_start s)" "length (g (view (lg_bc s) b)) = BSIZE"
  shows "\<exists>s' m. logged_update s b g = Ok s' \<and> log_ok s' m \<and>
    m = (if b \<in> set (take n (lg_block s)) then n else n + 1) \<and>
    view (lg_bc s') = (view (lg_bc s))(b := g (view (lg_bc s) b)) \<and> bc_disk (lg_bc s') = bc_disk (lg_bc s) \<and>
    bc_writes (lg_bc s') = bc_writes (lg_bc s)"
proof -
  obtain c bl m where c: "logged_update s b g = Ok (s\<lparr>lg_bc := c, lg_n := int m, lg_block := bl\<rparr>)" "m \<le> n + 1"
      "log_ok (s\<lparr>lg_bc := c, lg_n := int m, lg_block := bl\<rparr>) m" "set (take m bl) = insert b (set (take n (lg_block s)))"
      "view c = (view (lg_bc s))(b := g (view (lg_bc s) b))" "bc_disk c = bc_disk (lg_bc s)" "bc_writes c = bc_writes (lg_bc s)"
    using logged_update_ok[where g = g, OF assms] by blast
  have "card (set (take m bl)) = m" using c(3) by (auto simp: log_ok_def LOGSIZE_def distinct_card)
  moreover have "card (set (take n (lg_block s))) = n" using assms(1,2) by (auto simp: log_ok_def LOGSIZE_def distinct_card)
  ultimately have "m = (if b \<in> set (take n (lg_block s)) then n else n + 1)" using c(4) by (simp add: card_insert_if split: if_splits)
  then show ?thesis using c by (intro exI[of _ "s\<lparr>lg_bc := c, lg_n := int m, lg_block := bl\<rparr>"] exI[of _ m]) simp
qed

text \<open>C2: The last \<open>end_op\<close> of a transaction commits it: it succeeds, every block outside the log is on the disk as the
  file system saw it, the view is unchanged, and the log is empty and ready for the next transaction.\<close>

theorem end_op_installs_transaction:
  assumes "log_ok s n" "lg_outstanding s = 1" "\<not> lg_committing s"
  shows "\<exists>s'. end_op s = Ok s' \<and> log_ok s' 0 \<and> lg_outstanding s' = 0 \<and> \<not> lg_committing s' \<and>
    (\<forall>b. b \<notin> log_area (lg_start s) \<longrightarrow> view (lg_bc s') b = view (lg_bc s) b \<and> bc_disk (lg_bc s') b = view (lg_bc s) b)"
proof -
  let ?s = "s\<lparr>lg_outstanding := 0, lg_committing := True\<rparr>"
  have ok: "log_ok ?s n" using assms(1) by (simp add: log_ok_def)
  show ?thesis
  proof (cases "n = 0")
    case True
    have "view (lg_bc s) b = bc_disk (lg_bc s) b" for b using assms(1) True bc.clean[of "lg_bc s" "{}" "{}" b] by (simp add: log_ok_def)
    moreover have "end_op s = Ok (?s\<lparr>lg_committing := False\<rparr>)"
      using assms True by (simp add: end_op_def Let_def commit_def log_ok_def)
    ultimately show ?thesis using assms(1) True by (simp add: log_ok_def)
  next
    case False
    then obtain c where c: "commit ?s = Ok (?s\<lparr>lg_n := 0, lg_bc := c\<rparr>)" "log_ok (?s\<lparr>lg_n := 0, lg_bc := c\<rparr>) 0"
        "\<forall>b. b \<notin> log_area (lg_start s) \<longrightarrow> view c b = view (lg_bc s) b \<and> bc_disk c b = view (lg_bc s) b"
      using commit_installs[OF ok] by auto
    have "end_op s = Ok (?s\<lparr>lg_n := 0, lg_bc := c\<rparr>\<lparr>lg_committing := False\<rparr>)"
      using assms(2,3) c(1) by (simp add: end_op_def Let_def del: bnd_Ok_iff)
    then show ?thesis using c(2,3) by (simp add: log_ok_def)
  qed
qed

section \<open>Witnesses\<close>

definition ex_log :: klog where
  "ex_log = \<lparr>lg_bc = binit ex_cache, lg_start = 2, lg_size = 30, lg_outstanding = 1, lg_committing = False, lg_dev = ROOTDEV,
     lg_n = 0, lg_block = replicate LOGSIZE 0\<rparr>"

lemma ex_log_ok: "log_ok ex_log 0"
proof -
  have "lh_n (replicate BSIZE 0) = 0" by (simp add: lh_n_def get_le_zero BSIZE_def)
  then show ?thesis using binit_ok[OF boot_ex_cache] by (simp add: log_ok_def ex_log_def) (simp add: ex_cache_def)
qed

lemma ex_log_home: "700 \<notin> log_area (lg_start ex_log)"
proof
  assume "700 \<in> log_area (lg_start ex_log)"
  then obtain t where "t < 29" "(700 :: uint) = laddr 2 t" by (auto simp: log_area_def ex_log_def)
  then have "(of_nat 697 :: uint) = of_nat t" by (simp add: laddr_def algebra_simps)
  then show False using of_nat_uint_eq[of 697 t] \<open>t < 29\<close> by simp
qed

lemma ex_log_update:
  "\<exists>s. logged_update ex_log 700 (\<lambda>_. replicate BSIZE 1) = Ok s \<and> log_ok s 1 \<and> view (lg_bc s) 700 = replicate BSIZE 1 \<and>
     lg_start s = 2 \<and> lg_outstanding s = 1 \<and> \<not> lg_committing s \<and> bc_disk (lg_bc s) = bc_disk ex_cache"
proof -
  obtain c bl m where c: "logged_update ex_log 700 (\<lambda>_. replicate BSIZE 1) = Ok (ex_log\<lparr>lg_bc := c, lg_n := int m, lg_block := bl\<rparr>)"
      "m \<le> 1" "log_ok (ex_log\<lparr>lg_bc := c, lg_n := int m, lg_block := bl\<rparr>) m" "set (take m bl) = {700}"
      "view c 700 = replicate BSIZE 1" "bc_disk c = bc_disk (lg_bc ex_log)"
    using logged_update_ok[OF ex_log_ok _ _ _ ex_log_home, of "\<lambda>_. replicate BSIZE 1"] by (auto simp: ex_log_def)
  have "m \<noteq> 0" using c(4) by (cases m) auto
  then show ?thesis using c binit_ok(3)[OF boot_ex_cache] by (auto simp: le_Suc_eq ex_log_def)
qed

theorem commit_is_crash_atomic_witness:
  "\<exists>s s' r'. logged_update ex_log 700 (\<lambda>_. replicate BSIZE 1) = Ok s \<and> commit s = Ok s' \<and>
     initlog ROOTDEV 2 30 (ex_log\<lparr>lg_bc := binit (ex_cache\<lparr>bc_disk :=
       apply_writes (take 2 (drop (length (bc_writes (lg_bc s))) (bc_writes (lg_bc s')))) (bc_disk (lg_bc s))\<rparr>)\<rparr>) = Ok r' \<and>
     bc_disk (lg_bc r') 700 = replicate BSIZE 1"
proof -
  obtain s where s: "logged_update ex_log 700 (\<lambda>_. replicate BSIZE 1) = Ok s" "log_ok s 1" "view (lg_bc s) 700 = replicate BSIZE 1"
      "lg_start s = 2" using ex_log_update by blast
  obtain c h h0 where c: "commit s = Ok (s\<lparr>lg_n := 0, lg_bc := c\<rparr>)" "header h 1 (lg_block s)"
      "through (lg_bc s) c (commit_writes s 1 h h0)" using commit_ok[OF s(2)] by auto
  have k: "cache_ok (lg_bc s) (set (take 1 (lg_block s))) {}" using s(2) by (simp add: log_ok_def)
  have len: "length (view (lg_bc s) b) = BSIZE" "length (bc_disk (lg_bc s) b) = BSIZE" "length h = BSIZE" for b
    using c(2) by (simp_all add: bc.view_length[OF k] cache_okD(3)[OF k] header_def)
  let ?ws = "drop (length (bc_writes (lg_bc s))) (bc_writes (lg_bc (s\<lparr>lg_n := 0, lg_bc := c\<rparr>)))"
  let ?b = "ex_cache\<lparr>bc_disk := apply_writes (take 2 ?ws) (bc_disk (lg_bc s))\<rparr>"
  have ws: "?ws = commit_writes s 1 h h0" using c(3) by (simp add: through_def)
  have "boot_cache ?b" unfolding ws using boot_ex_cache len by (simp add: boot_cache_def commit_writes_def)
  moreover have "2 \<le> length ?ws" unfolding ws by (simp add: commit_writes_def)
  ultimately obtain r' where "initlog ROOTDEV 2 30 (ex_log\<lparr>lg_bc := binit ?b\<rparr>) = Ok r'" "bc_disk (lg_bc r') 700 = view (lg_bc s) 700"
    using commit_is_crash_atomic[OF s(2) c(1), of 2 ?b "ex_log\<lparr>lg_bc := binit ?b\<rparr>" 30] s(4) ex_log_home
    by (auto simp: ex_log_def)
  then show ?thesis using s(1,3) c(1) by auto
qed

theorem logged_update_changes_view_only_witness:
  "\<exists>s'. logged_update ex_log 700 (\<lambda>_. replicate BSIZE 1) = Ok s' \<and> view (lg_bc s') 700 = replicate BSIZE 1"
  using logged_update_changes_view_only[OF ex_log_ok _ _ _ ex_log_home, of "\<lambda>_. replicate BSIZE 1"]
  by (auto simp: ex_log_def)

theorem end_op_installs_transaction_witness:
  "\<exists>s s'. logged_update ex_log 700 (\<lambda>_. replicate BSIZE 1) = Ok s \<and> end_op s = Ok s' \<and> bc_disk (lg_bc s') 700 = replicate BSIZE 1"
proof -
  obtain s where s: "logged_update ex_log 700 (\<lambda>_. replicate BSIZE 1) = Ok s" "log_ok s 1" "view (lg_bc s) 700 = replicate BSIZE 1"
      "lg_start s = 2" "lg_outstanding s = 1" "\<not> lg_committing s" using ex_log_update by blast
  then show ?thesis using end_op_installs_transaction[OF s(2,5,6)] ex_log_home by (auto simp: ex_log_def)
qed

end
