(* ===== verification/Fs_Block.thy ===== *)
theory Fs_Block
  imports Log_Recovery Vm_Copy
begin

text \<open>
  The lowest layer of \<open>kernel/fs.c\<close>: the superblock, zeroing of blocks and the free bitmap. \<open>kfs\<close> is the state the
  file system works on: the log with the buffer cache, the superblock, the inode table, physical memory
  and, for the running process, its page table and the inode of its current directory.
\<close>

unbundle bit_operations_syntax

section \<open>State\<close>

record superblock =
  sb_magic :: uint
  sb_size :: uint
  sb_nblocks :: uint
  sb_ninodes :: uint
  sb_nlog :: uint
  sb_logstart :: uint
  sb_inodestart :: uint
  sb_bmapstart :: uint

definition NDIRECT :: nat where "NDIRECT = 12"
definition NINDIRECT :: nat where "NINDIRECT = 256"
definition MAXFILE :: nat where "MAXFILE = NDIRECT + NINDIRECT"
definition NINODE :: nat where "NINODE = 50"

text \<open>\<open>i_addrs\<close> has \<open>NDIRECT + 1\<close> entries.\<close>

record inode =
  i_dev :: uint
  i_inum :: uint
  i_ref :: int
  i_lock :: sleeplock
  i_valid :: bool
  i_type :: uint16
  i_major :: uint16
  i_minor :: uint16
  i_nlink :: uint16
  i_size :: uint
  i_addrs :: "uint list"

record kfs =
  fs_log :: klog
  fs_sb :: superblock
  fs_inode :: "inode list"
  fs_mem :: kmem
  fs_pt :: uint64
  fs_cwd :: nat

definition fs_bc :: "kfs \<Rightarrow> bcache" where
  "fs_bc s = lg_bc (fs_log s)"

definition with_bc :: "kfs \<Rightarrow> bcache \<Rightarrow> kfs" where
  "with_bc s c = s\<lparr>fs_log := (fs_log s)\<lparr>lg_bc := c\<rparr>\<rparr>"

definition fs_pid :: "kfs \<Rightarrow> int" where
  "fs_pid s = bc_pid (fs_bc s)"

text \<open>The operations of the buffer cache and the log on this state.\<close>

definition fs_bread :: "kfs \<Rightarrow> uint \<Rightarrow> uint \<Rightarrow> (nat \<times> kfs) outcome" where
  "fs_bread s dev b = bnd (bread (fs_bc s) dev b) (\<lambda>(i, c). Ok (i, with_bc s c))"

definition fs_brelse :: "kfs \<Rightarrow> nat \<Rightarrow> kfs outcome" where
  "fs_brelse s i = bnd (brelse (fs_bc s) i) (\<lambda>c. Ok (with_bc s c))"

definition fs_log_write :: "kfs \<Rightarrow> nat \<Rightarrow> kfs outcome" where
  "fs_log_write s i = bnd (log_write (fs_log s) i) (\<lambda>l. Ok (s\<lparr>fs_log := l\<rparr>))"

definition fs_data :: "kfs \<Rightarrow> nat \<Rightarrow> byte list" where
  "fs_data s i = b_data (bc_buf (fs_bc s) ! i)"

definition fs_set_data :: "kfs \<Rightarrow> nat \<Rightarrow> byte list \<Rightarrow> kfs" where
  "fs_set_data s i d = with_bc s (set_data (fs_bc s) i d)"

definition fs_begin_op :: "kfs \<Rightarrow> kfs outcome" where
  "fs_begin_op s = bnd (begin_op (fs_log s)) (\<lambda>l. Ok (s\<lparr>fs_log := l\<rparr>))"

definition fs_end_op :: "kfs \<Rightarrow> kfs outcome" where
  "fs_end_op s = bnd (end_op (fs_log s)) (\<lambda>l. Ok (s\<lparr>fs_log := l\<rparr>))"

section \<open>The superblock\<close>

definition FSMAGIC :: uint where "FSMAGIC = 0x10203040"

definition sb_of_data :: "byte list \<Rightarrow> superblock" where
  "sb_of_data d = \<lparr>sb_magic = get32 d 0, sb_size = get32 d 4, sb_nblocks = get32 d 8, sb_ninodes = get32 d 12,
     sb_nlog = get32 d 16, sb_logstart = get32 d 20, sb_inodestart = get32 d 24, sb_bmapstart = get32 d 28\<rparr>"

definition readsb :: "kfs \<Rightarrow> uint \<Rightarrow> kfs outcome" where
  "readsb s dev =
     bnd (fs_bread s dev 1) (\<lambda>(bp, s).
     let sb = sb_of_data (fs_data s bp) in
     bnd (fs_brelse s bp) (\<lambda>s. Ok (s\<lparr>fs_sb := sb\<rparr>)))"

definition fsinit :: "kfs \<Rightarrow> uint \<Rightarrow> kfs outcome" where
  "fsinit s dev =
     bnd (readsb s dev) (\<lambda>s.
     if sb_magic (fs_sb s) \<noteq> FSMAGIC then Panic ''invalid file system''
     else bnd (initlog dev (sb_logstart (fs_sb s)) (sb_nlog (fs_sb s)) (fs_log s)) (\<lambda>l. Ok (s\<lparr>fs_log := l\<rparr>)))"

section \<open>Blocks\<close>

definition bzero :: "kfs \<Rightarrow> uint \<Rightarrow> uint \<Rightarrow> kfs outcome" where
  "bzero s dev bno =
     bnd (fs_bread s dev bno) (\<lambda>(bp, s).
     let s = fs_set_data s bp (replicate BSIZE 0) in
     bnd (fs_log_write s bp) (\<lambda>s. fs_brelse s bp))"

definition BPB :: nat where "BPB = 8192"

definition BBLOCK :: "nat \<Rightarrow> superblock \<Rightarrow> uint" where
  "BBLOCK b sb = of_nat (b div BPB) + sb_bmapstart sb"

text \<open>Bit \<open>bi\<close> of a bitmap block.\<close>

definition bm_mask :: "nat \<Rightarrow> byte" where
  "bm_mask bi = push_bit (bi mod 8) 1"

definition bm_clear :: "byte list \<Rightarrow> nat \<Rightarrow> bool" where
  "bm_clear d bi \<longleftrightarrow> (d ! (bi div 8)) AND bm_mask bi = 0"

definition bm_mark :: "byte list \<Rightarrow> nat \<Rightarrow> byte list" where
  "bm_mark d bi = d[bi div 8 := (d ! (bi div 8)) OR bm_mask bi]"

definition bm_unmark :: "byte list \<Rightarrow> nat \<Rightarrow> byte list" where
  "bm_unmark d bi = d[bi div 8 := (d ! (bi div 8)) AND NOT (bm_mask bi)]"

text \<open>The inner loop of \<open>balloc\<close>, with \<open>n\<close> rounds left: the first clear bit from \<open>bi\<close> on below the size of the file system.\<close>

fun balloc_bit :: "byte list \<Rightarrow> nat \<Rightarrow> nat \<Rightarrow> nat \<Rightarrow> nat \<Rightarrow> nat option" where
  "balloc_bit d b sz bi 0 = None"
| "balloc_bit d b sz bi (Suc n) =
     (if b + bi < sz then if bm_clear d bi then Some bi else balloc_bit d b sz (Suc bi) n else None)"

function balloc_from :: "kfs \<Rightarrow> uint \<Rightarrow> nat \<Rightarrow> nat \<Rightarrow> (uint \<times> kfs) outcome" where
  "balloc_from s dev b sz =
     (if b < sz then
        bnd (fs_bread s dev (BBLOCK b (fs_sb s))) (\<lambda>(bp, s).
        case balloc_bit (fs_data s bp) b sz 0 BPB of
          Some bi \<Rightarrow>
            let s = fs_set_data s bp (bm_mark (fs_data s bp) bi) in
            bnd (fs_log_write s bp) (\<lambda>s.
            bnd (fs_brelse s bp) (\<lambda>s.
            bnd (bzero s dev (of_nat (b + bi))) (\<lambda>s. Ok (of_nat (b + bi), s))))
        | None \<Rightarrow> bnd (fs_brelse s bp) (\<lambda>s. balloc_from s dev (b + BPB) sz))
      else Panic ''balloc: out of blocks'')"
  by pat_completeness auto
termination
  by (relation "measure (\<lambda>(s, dev, b, sz). sz - b)") (auto simp: BPB_def)

declare balloc_from.simps [simp del]

definition balloc :: "kfs \<Rightarrow> uint \<Rightarrow> (uint \<times> kfs) outcome" where
  "balloc s dev = balloc_from s dev 0 (unat (sb_size (fs_sb s)))"

definition bfree :: "kfs \<Rightarrow> uint \<Rightarrow> uint \<Rightarrow> kfs outcome" where
  "bfree s dev b =
     bnd (fs_bread s dev (BBLOCK (unat b) (fs_sb s))) (\<lambda>(bp, s).
     let bi = unat b mod BPB in
     if bm_clear (fs_data s bp) bi then Panic ''freeing free block''
     else
       let s = fs_set_data s bp (bm_unmark (fs_data s bp) bi) in
       bnd (fs_log_write s bp) (\<lambda>s. fs_brelse s bp))"

end
