(* ===== verification/Fs_Inode.thy ===== *)
theory Fs_Inode
  imports Fs_Block
begin

text \<open>
  Inodes, \<open>kernel/fs.c\<close>: the inode table, reading and writing of inodes, the mapping from file blocks to disk
  blocks, and reading and writing of file contents. A pointer to an in-memory inode is its index in
  \<open>itable.inode\<close>; \<open>itable.lock\<close> makes the operations on the table atomic.
\<close>

unbundle bit_operations_syntax

section \<open>On-disk inodes\<close>

definition IPB :: nat where "IPB = 16"

definition IBLOCK :: "uint \<Rightarrow> superblock \<Rightarrow> uint" where
  "IBLOCK i sb = of_nat (unat i div IPB) + sb_inodestart sb"

text \<open>Byte offset of inode \<open>inum\<close> in its block.\<close>

definition dinode_off :: "uint \<Rightarrow> nat" where
  "dinode_off inum = 64 * (unat inum mod IPB)"

definition get_addrs :: "byte list \<Rightarrow> nat \<Rightarrow> uint list" where
  "get_addrs d off = map (\<lambda>k. get32 d (off + 12 + 4 * k)) [0..<NDIRECT + 1]"

definition put_addrs :: "byte list \<Rightarrow> nat \<Rightarrow> uint list \<Rightarrow> byte list" where
  "put_addrs d off as = fold (\<lambda>k d. put32 d (off + 12 + 4 * k) (as ! k)) [0..<NDIRECT + 1] d"

definition get_dinode :: "byte list \<Rightarrow> nat \<Rightarrow> inode \<Rightarrow> inode" where
  "get_dinode d off ip = ip\<lparr>i_type := get16 d off, i_major := get16 d (off + 2), i_minor := get16 d (off + 4),
     i_nlink := get16 d (off + 6), i_size := get32 d (off + 8), i_addrs := get_addrs d off\<rparr>"

definition put_dinode :: "byte list \<Rightarrow> nat \<Rightarrow> inode \<Rightarrow> byte list" where
  "put_dinode d off ip =
     (let d = put16 d off (i_type ip); d = put16 d (off + 2) (i_major ip); d = put16 d (off + 4) (i_minor ip);
          d = put16 d (off + 6) (i_nlink ip); d = put32 d (off + 8) (i_size ip)
      in put_addrs d off (i_addrs ip))"

section \<open>The inode table\<close>

definition inode_at :: "kfs \<Rightarrow> nat \<Rightarrow> inode" where
  "inode_at s ip = fs_inode s ! ip"

definition upd_inode :: "kfs \<Rightarrow> nat \<Rightarrow> (inode \<Rightarrow> inode) \<Rightarrow> kfs" where
  "upd_inode s ip f = s\<lparr>fs_inode := (fs_inode s)[ip := f (fs_inode s ! ip)]\<rparr>"

definition iinit :: "kfs \<Rightarrow> kfs" where
  "iinit s = s\<lparr>fs_inode := map (\<lambda>ip. ip\<lparr>i_lock := initsleeplock\<rparr>) (fs_inode s)\<rparr>"

text \<open>The loop of \<open>iget\<close> from index \<open>i\<close>: \<open>Inl\<close> is the entry of the inode, \<open>Inr\<close> the first free entry, if any.\<close>

fun iget_scan :: "inode list \<Rightarrow> nat \<Rightarrow> nat option \<Rightarrow> uint \<Rightarrow> uint \<Rightarrow> nat + nat option" where
  "iget_scan [] i emp dev inum = Inr emp"
| "iget_scan (ip # ips) i emp dev inum =
     (if i_ref ip > 0 \<and> i_dev ip = dev \<and> i_inum ip = inum then Inl i
      else iget_scan ips (Suc i) (if emp = None \<and> i_ref ip = 0 then Some i else emp) dev inum)"

definition iget :: "kfs \<Rightarrow> uint \<Rightarrow> uint \<Rightarrow> (nat \<times> kfs) outcome" where
  "iget s dev inum =
     (case iget_scan (fs_inode s) 0 None dev inum of
        Inl ip \<Rightarrow> Ok (ip, upd_inode s ip (\<lambda>i. i\<lparr>i_ref := i_ref i + 1\<rparr>))
      | Inr None \<Rightarrow> Panic ''iget: no inodes''
      | Inr (Some ip) \<Rightarrow> Ok (ip, upd_inode s ip (\<lambda>i. i\<lparr>i_dev := dev, i_inum := inum, i_ref := 1, i_valid := False\<rparr>)))"

text \<open>The loop of \<open>ialloc\<close> from inode number \<open>inum\<close>, with \<open>n\<close> numbers left.\<close>

fun ialloc_from :: "kfs \<Rightarrow> uint \<Rightarrow> uint16 \<Rightarrow> nat \<Rightarrow> nat \<Rightarrow> (nat \<times> kfs) outcome" where
  "ialloc_from s dev type inum 0 = Panic ''ialloc: no inodes''"
| "ialloc_from s dev type inum (Suc n) =
     bnd (fs_bread s dev (IBLOCK (of_nat inum) (fs_sb s))) (\<lambda>(bp, s).
     let off = dinode_off (of_nat inum); d = fs_data s bp in
     if get16 d off = 0 then
       let s = fs_set_data s bp (put16 (patch d off (replicate 64 0)) off type) in
       bnd (fs_log_write s bp) (\<lambda>s.
       bnd (fs_brelse s bp) (\<lambda>s. iget s dev (of_nat inum)))
     else bnd (fs_brelse s bp) (\<lambda>s. ialloc_from s dev type (Suc inum) n))"

definition ialloc :: "kfs \<Rightarrow> uint \<Rightarrow> uint16 \<Rightarrow> (nat \<times> kfs) outcome" where
  "ialloc s dev type = ialloc_from s dev type 1 (unat (sb_ninodes (fs_sb s)) - 1)"

definition iupdate :: "kfs \<Rightarrow> nat \<Rightarrow> kfs outcome" where
  "iupdate s ip =
     (let i = inode_at s ip in
      bnd (fs_bread s (i_dev i) (IBLOCK (i_inum i) (fs_sb s))) (\<lambda>(bp, s).
      let s = fs_set_data s bp (put_dinode (fs_data s bp) (dinode_off (i_inum i)) i) in
      bnd (fs_log_write s bp) (\<lambda>s. fs_brelse s bp)))"

definition idup :: "kfs \<Rightarrow> nat \<Rightarrow> kfs" where
  "idup s ip = upd_inode s ip (\<lambda>i. i\<lparr>i_ref := i_ref i + 1\<rparr>)"

definition lock_inode :: "kfs \<Rightarrow> nat \<Rightarrow> kfs outcome" where
  "lock_inode s ip =
     bnd (acquiresleep (Chan_lock ''inode'' ip) (fs_pid s) (i_lock (inode_at s ip))) (\<lambda>lk.
     Ok (upd_inode s ip (\<lambda>i. i\<lparr>i_lock := lk\<rparr>)))"

definition unlock_inode :: "kfs \<Rightarrow> nat \<Rightarrow> kfs" where
  "unlock_inode s ip = upd_inode s ip (\<lambda>i. i\<lparr>i_lock := releasesleep (i_lock i)\<rparr>)"

definition ilock :: "kfs \<Rightarrow> nat \<Rightarrow> kfs outcome" where
  "ilock s ip =
     (if i_ref (inode_at s ip) < 1 then Panic ''ilock''
      else
        bnd (lock_inode s ip) (\<lambda>s.
        if i_valid (inode_at s ip) then Ok s
        else
          let i = inode_at s ip in
          bnd (fs_bread s (i_dev i) (IBLOCK (i_inum i) (fs_sb s))) (\<lambda>(bp, s).
          let s = upd_inode s ip (get_dinode (fs_data s bp) (dinode_off (i_inum i))) in
          bnd (fs_brelse s bp) (\<lambda>s.
          let s = upd_inode s ip (\<lambda>i. i\<lparr>i_valid := True\<rparr>) in
          if i_type (inode_at s ip) = 0 then Panic ''ilock: no type'' else Ok s))))"

definition iunlock :: "kfs \<Rightarrow> nat \<Rightarrow> kfs outcome" where
  "iunlock s ip =
     (if \<not> holdingsleep (fs_pid s) (i_lock (inode_at s ip)) \<or> i_ref (inode_at s ip) < 1 then Panic ''iunlock''
      else Ok (unlock_inode s ip))"

section \<open>File blocks\<close>

definition bmap :: "kfs \<Rightarrow> nat \<Rightarrow> nat \<Rightarrow> (uint \<times> kfs) outcome" where
  "bmap s ip bn =
     (let i = inode_at s ip in
      if bn < NDIRECT then
        if i_addrs i ! bn = 0 then
          bnd (balloc s (i_dev i)) (\<lambda>(addr, s).
          Ok (addr, upd_inode s ip (\<lambda>i. i\<lparr>i_addrs := (i_addrs i)[bn := addr]\<rparr>)))
        else Ok (i_addrs i ! bn, s)
      else if bn - NDIRECT < NINDIRECT then
        bnd (if i_addrs i ! NDIRECT = 0 then
               bnd (balloc s (i_dev i)) (\<lambda>(addr, s).
               Ok (addr, upd_inode s ip (\<lambda>i. i\<lparr>i_addrs := (i_addrs i)[NDIRECT := addr]\<rparr>)))
             else Ok (i_addrs i ! NDIRECT, s)) (\<lambda>(addr, s).
        bnd (fs_bread s (i_dev i) addr) (\<lambda>(bp, s).
        let a = get32 (fs_data s bp) (4 * (bn - NDIRECT)) in
        if a = 0 then
          bnd (balloc s (i_dev i)) (\<lambda>(addr, s).
          let s = fs_set_data s bp (put32 (fs_data s bp) (4 * (bn - NDIRECT)) addr) in
          bnd (fs_log_write s bp) (\<lambda>s.
          bnd (fs_brelse s bp) (\<lambda>s. Ok (addr, s))))
        else bnd (fs_brelse s bp) (\<lambda>s. Ok (a, s))))
      else Panic ''bmap: out of range'')"

fun itrunc_direct :: "kfs \<Rightarrow> nat \<Rightarrow> nat \<Rightarrow> nat \<Rightarrow> kfs outcome" where
  "itrunc_direct s ip i 0 = Ok s"
| "itrunc_direct s ip i (Suc n) =
     (let a = i_addrs (inode_at s ip) ! i in
      if a \<noteq> 0 then
        bnd (bfree s (i_dev (inode_at s ip)) a) (\<lambda>s.
        itrunc_direct (upd_inode s ip (\<lambda>ino. ino\<lparr>i_addrs := (i_addrs ino)[i := 0]\<rparr>)) ip (Suc i) n)
      else itrunc_direct s ip (Suc i) n)"

fun itrunc_indirect :: "kfs \<Rightarrow> uint \<Rightarrow> nat \<Rightarrow> nat \<Rightarrow> nat \<Rightarrow> kfs outcome" where
  "itrunc_indirect s dev bp j 0 = Ok s"
| "itrunc_indirect s dev bp j (Suc n) =
     (let a = get32 (fs_data s bp) (4 * j) in
      bnd (if a \<noteq> 0 then bfree s dev a else Ok s) (\<lambda>s. itrunc_indirect s dev bp (Suc j) n))"

definition itrunc :: "kfs \<Rightarrow> nat \<Rightarrow> kfs outcome" where
  "itrunc s ip =
     bnd (itrunc_direct s ip 0 NDIRECT) (\<lambda>s.
     let i = inode_at s ip; a = i_addrs i ! NDIRECT in
     bnd (if a \<noteq> 0 then
            bnd (fs_bread s (i_dev i) a) (\<lambda>(bp, s).
            bnd (itrunc_indirect s (i_dev i) bp 0 NINDIRECT) (\<lambda>s.
            bnd (fs_brelse s bp) (\<lambda>s.
            bnd (bfree s (i_dev i) a) (\<lambda>s.
            Ok (upd_inode s ip (\<lambda>i. i\<lparr>i_addrs := (i_addrs i)[NDIRECT := 0]\<rparr>))))))
          else Ok s) (\<lambda>s.
     iupdate (upd_inode s ip (\<lambda>i. i\<lparr>i_size := 0\<rparr>)) ip))"

definition iput :: "kfs \<Rightarrow> nat \<Rightarrow> kfs outcome" where
  "iput s ip =
     bnd (if i_ref (inode_at s ip) = 1 \<and> i_valid (inode_at s ip) \<and> i_nlink (inode_at s ip) = 0 then
            bnd (lock_inode s ip) (\<lambda>s.
            bnd (itrunc s ip) (\<lambda>s.
            bnd (iupdate (upd_inode s ip (\<lambda>i. i\<lparr>i_type := 0\<rparr>)) ip) (\<lambda>s.
            Ok (unlock_inode (upd_inode s ip (\<lambda>i. i\<lparr>i_valid := False\<rparr>)) ip))))
          else Ok s) (\<lambda>s.
     Ok (upd_inode s ip (\<lambda>i. i\<lparr>i_ref := i_ref i - 1\<rparr>)))"

definition iunlockput :: "kfs \<Rightarrow> nat \<Rightarrow> kfs outcome" where
  "iunlockput s ip = bnd (iunlock s ip) (\<lambda>s. iput s ip)"

section \<open>File contents\<close>

record stat =
  st_dev :: uint
  st_ino :: uint
  st_type :: uint16
  st_nlink :: uint16
  st_size :: uint64

definition stati :: "kfs \<Rightarrow> nat \<Rightarrow> stat" where
  "stati s ip =
     (let i = inode_at s ip in
      \<lparr>st_dev = i_dev i, st_ino = i_inum i, st_type = i_type i, st_nlink = i_nlink i, st_size = ucast (i_size i)\<rparr>)"

text \<open>
  A destination or source is a user address or a kernel buffer. For a kernel destination the bytes read are
  part of the result; a kernel source is the list of its bytes.
\<close>

datatype dest = User_dst uint64 | Kernel_dst
datatype source = User_src uint64 | Kernel_src "byte list"

fun dest_add :: "dest \<Rightarrow> nat \<Rightarrow> dest" where
  "dest_add (User_dst a) m = User_dst (a + of_nat m)"
| "dest_add Kernel_dst m = Kernel_dst"

fun source_add :: "source \<Rightarrow> nat \<Rightarrow> source" where
  "source_add (User_src a) m = User_src (a + of_nat m)"
| "source_add (Kernel_src xs) m = Kernel_src (drop m xs)"

definition either_copyout :: "kfs \<Rightarrow> dest \<Rightarrow> byte list \<Rightarrow> (int \<times> kfs) outcome" where
  "either_copyout s dst src =
     (case dst of User_dst a \<Rightarrow> bnd (copyout (fs_mem s) (fs_pt s) a src) (\<lambda>(r, m). Ok (r, s\<lparr>fs_mem := m\<rparr>))
      | Kernel_dst \<Rightarrow> Ok (0, s))"

text \<open>The bytes that \<open>copyin\<close> stores before it returns, also when it fails.\<close>

function copyin_stores :: "kmem \<Rightarrow> uint64 \<Rightarrow> uint64 \<Rightarrow> nat \<Rightarrow> byte list outcome" where
  "copyin_stores s pt srcva len =
     (if len > 0 then
        let va0 = PGROUNDDOWN srcva in
        bnd (walkaddr s pt va0) (\<lambda>pa0.
        if pa0 = 0 then Ok []
        else
          let off = unat (srcva - va0); n = min (4096 - off) len
          in bnd (copyin_stores s pt (va0 + PGSIZE) (len - n)) (\<lambda>rest. Ok (page_read s pa0 off n @ rest)))
      else Ok [])"
  by pat_completeness auto
termination
  by (relation "measure (\<lambda>(s, pt, srcva, len). len)") (auto simp: offset_less)

declare copyin_stores.simps [simp del]

text \<open>The result of \<open>either_copyin\<close> is the return value and the bytes stored at the destination.\<close>

definition either_copyin :: "kfs \<Rightarrow> source \<Rightarrow> nat \<Rightarrow> (int \<times> byte list) outcome" where
  "either_copyin s src len =
     (case src of
        User_src a \<Rightarrow>
          bnd (copyin (fs_mem s) (fs_pt s) a len) (\<lambda>r.
          bnd (copyin_stores (fs_mem s) (fs_pt s) a len) (\<lambda>xs. Ok (if r = None then -1 else 0, xs)))
      | Kernel_src xs \<Rightarrow> if len \<le> length xs then Ok (0, take len xs) else Fault ''read outside buffer'')"

text \<open>
  The loop of \<open>readi\<close> with \<open>n - tot = left\<close> bytes to go: the result is the bytes read, or \<open>None\<close> when a copy failed.
  The chunk \<open>m\<close> is positive, so the loop ends.
\<close>

function readi_loop :: "kfs \<Rightarrow> nat \<Rightarrow> dest \<Rightarrow> nat \<Rightarrow> nat \<Rightarrow> (byte list option \<times> kfs) outcome" where
  "readi_loop s ip dst off left =
     (if left > 0 then
        bnd (bmap s ip (off div BSIZE)) (\<lambda>(addr, s).
        bnd (fs_bread s (i_dev (inode_at s ip)) addr) (\<lambda>(bp, s).
        let m = min left (BSIZE - off mod BSIZE); xs = take m (drop (off mod BSIZE) (fs_data s bp)) in
        bnd (either_copyout s dst xs) (\<lambda>(r, s).
        bnd (fs_brelse s bp) (\<lambda>s.
        if r = -1 then Ok (None, s)
        else bnd (readi_loop s ip (dest_add dst m) (off + m) (left - m)) (\<lambda>(ys, s).
             Ok (map_option (\<lambda>ys. xs @ ys) ys, s))))))
      else Ok (Some [], s))"
  by pat_completeness auto
termination
  by (relation "measure (\<lambda>(s, ip, dst, off, left). left)") (auto simp: BSIZE_def)

declare readi_loop.simps [simp del]

text \<open>The result of \<open>readi\<close> is its return value and the bytes read, for a kernel destination.\<close>

definition readi :: "kfs \<Rightarrow> nat \<Rightarrow> dest \<Rightarrow> uint \<Rightarrow> uint \<Rightarrow> (int \<times> byte list \<times> kfs) outcome" where
  "readi s ip dst off n =
     (let sz = i_size (inode_at s ip) in
      if off > sz \<or> off + n < off then Ok (0, [], s)
      else
        let n = (if off + n > sz then sz - off else n) in
        bnd (readi_loop s ip dst (unat off) (unat n)) (\<lambda>(r, s).
        case r of None \<Rightarrow> Ok (-1, [], s) | Some xs \<Rightarrow> Ok (sint n, xs, s)))"

text \<open>The loop of \<open>writei\<close>; the result is \<open>off\<close> after it.\<close>

function writei_loop :: "kfs \<Rightarrow> nat \<Rightarrow> source \<Rightarrow> nat \<Rightarrow> nat \<Rightarrow> (nat \<times> kfs) outcome" where
  "writei_loop s ip src off left =
     (if left > 0 then
        bnd (bmap s ip (off div BSIZE)) (\<lambda>(addr, s).
        bnd (fs_bread s (i_dev (inode_at s ip)) addr) (\<lambda>(bp, s).
        let m = min left (BSIZE - off mod BSIZE) in
        bnd (either_copyin s src m) (\<lambda>(r, xs).
        let s = fs_set_data s bp (patch (fs_data s bp) (off mod BSIZE) xs) in
        if r = -1 then bnd (fs_brelse s bp) (\<lambda>s. Ok (off, s))
        else
          bnd (fs_log_write s bp) (\<lambda>s.
          bnd (fs_brelse s bp) (\<lambda>s. writei_loop s ip (source_add src m) (off + m) (left - m))))))
      else Ok (off, s))"
  by pat_completeness auto
termination
  by (relation "measure (\<lambda>(s, ip, src, off, left). left)") (auto simp: BSIZE_def)

declare writei_loop.simps [simp del]

definition writei :: "kfs \<Rightarrow> nat \<Rightarrow> source \<Rightarrow> uint \<Rightarrow> uint \<Rightarrow> (int \<times> kfs) outcome" where
  "writei s ip src off n =
     (if off > i_size (inode_at s ip) \<or> off + n < off then Ok (-1, s)
      else if off + n > of_nat (MAXFILE * BSIZE) then Ok (-1, s)
      else
        bnd (writei_loop s ip src (unat off) (unat n)) (\<lambda>(off', s).
        let s = (if of_nat off' > i_size (inode_at s ip) then upd_inode s ip (\<lambda>i. i\<lparr>i_size := of_nat off'\<rparr>) else s) in
        bnd (iupdate s ip) (\<lambda>s. Ok (int (off' - unat off), s))))"

end
