(* ===== verification/Fs_Dir.thy ===== *)
theory Fs_Dir
  imports Fs_Inode
begin

text \<open>
  Directories and path names, \<open>kernel/fs.c\<close>. A directory entry is sixteen bytes, a 16-bit inode number and a name
  of fourteen bytes that is terminated only if it is shorter. A path is a C string: the bytes from the
  pointer to the terminating zero. An element name is an array of fourteen bytes.
\<close>

section \<open>Directories\<close>

definition DIRSIZ :: nat where "DIRSIZ = 14"
definition T_DIR :: uint16 where "T_DIR = 1"
definition T_FILE :: uint16 where "T_FILE = 2"
definition T_DEVICE :: uint16 where "T_DEVICE = 3"
definition ROOTINO :: uint where "ROOTINO = 1"

definition namecmp :: "byte list \<Rightarrow> byte list \<Rightarrow> int outcome" where
  "namecmp s t = strncmp s t (of_nat DIRSIZ)"

definition de_inum :: "byte list \<Rightarrow> uint16" where
  "de_inum de = get16 de 0"

definition de_name :: "byte list \<Rightarrow> byte list" where
  "de_name de = take DIRSIZ (drop 2 de)"

definition dirent :: "uint16 \<Rightarrow> byte list \<Rightarrow> byte list" where
  "dirent inum name = bytes_of_word 2 inum @ name"

text \<open>Reading the entry at \<open>off\<close>; a short read panics with the message of the caller.\<close>

definition read_dirent :: "string \<Rightarrow> kfs \<Rightarrow> nat \<Rightarrow> nat \<Rightarrow> (byte list \<times> kfs) outcome" where
  "read_dirent msg s dp off =
     bnd (readi s dp Kernel_dst (of_nat off) 16) (\<lambda>(r, de, s). if r \<noteq> 16 then Panic msg else Ok (de, s))"

text \<open>The loop of \<open>dirlookup\<close>, with \<open>n\<close> entries left: the offset and the inode number of the entry.\<close>

fun dirlookup_loop :: "kfs \<Rightarrow> nat \<Rightarrow> byte list \<Rightarrow> nat \<Rightarrow> nat \<Rightarrow> ((nat \<times> uint16) option \<times> kfs) outcome" where
  "dirlookup_loop s dp name off 0 = Ok (None, s)"
| "dirlookup_loop s dp name off (Suc n) =
     bnd (read_dirent ''dirlookup read'' s dp off) (\<lambda>(de, s).
     if de_inum de = 0 then dirlookup_loop s dp name (off + 16) n
     else
       bnd (namecmp name (de_name de)) (\<lambda>c.
       if c = 0 then Ok (Some (off, de_inum de), s) else dirlookup_loop s dp name (off + 16) n))"

text \<open>The number of rounds of a loop \<open>for(off = 0; off < dp->size; off += sizeof(de))\<close>.\<close>

definition dirents :: "uint \<Rightarrow> nat" where
  "dirents sz = (unat sz + 15) div 16"

definition dirlookup :: "kfs \<Rightarrow> nat \<Rightarrow> byte list \<Rightarrow> ((nat \<times> nat) option \<times> kfs) outcome" where
  "dirlookup s dp name =
     (if i_type (inode_at s dp) \<noteq> T_DIR then Panic ''dirlookup not DIR''
      else
        bnd (dirlookup_loop s dp name 0 (dirents (i_size (inode_at s dp)))) (\<lambda>(r, s).
        case r of None \<Rightarrow> Ok (None, s)
        | Some (off, inum) \<Rightarrow> bnd (iget s (i_dev (inode_at s dp)) (ucast inum)) (\<lambda>(ip, s). Ok (Some (ip, off), s))))"

fun dirlink_loop :: "kfs \<Rightarrow> nat \<Rightarrow> nat \<Rightarrow> nat \<Rightarrow> (nat \<times> kfs) outcome" where
  "dirlink_loop s dp off 0 = Ok (off, s)"
| "dirlink_loop s dp off (Suc n) =
     bnd (read_dirent ''dirlink read'' s dp off) (\<lambda>(de, s).
     if de_inum de = 0 then Ok (off, s) else dirlink_loop s dp (off + 16) n)"

definition dirlink :: "kfs \<Rightarrow> nat \<Rightarrow> byte list \<Rightarrow> uint \<Rightarrow> (int \<times> kfs) outcome" where
  "dirlink s dp name inum =
     bnd (dirlookup s dp name) (\<lambda>(r, s).
     case r of Some (ip, _) \<Rightarrow> bnd (iput s ip) (\<lambda>s. Ok (-1, s))
     | None \<Rightarrow>
         bnd (dirlink_loop s dp 0 (dirents (i_size (inode_at s dp)))) (\<lambda>(off, s).
         bnd (strncpy (replicate DIRSIZ 0) name (int DIRSIZ)) (\<lambda>nm.
         bnd (writei s dp (Kernel_src (dirent (ucast inum) nm)) (of_nat off) 16) (\<lambda>(r, s).
         if r \<noteq> 16 then Panic ''dirlink'' else Ok (0, s)))))"

section \<open>Paths\<close>

definition slash :: byte where "slash = 0x2F"

fun skip_slashes :: "byte list \<Rightarrow> byte list outcome" where
  "skip_slashes [] = Fault ''read outside string''"
| "skip_slashes (c # path) = (if c = slash then skip_slashes path else Ok (c # path))"

text \<open>The element up to the next slash or the end, and the path from there on.\<close>

fun span_elem :: "byte list \<Rightarrow> (byte list \<times> byte list) outcome" where
  "span_elem [] = Fault ''read outside string''"
| "span_elem (c # path) =
     (if c \<noteq> slash \<and> c \<noteq> 0 then bnd (span_elem path) (\<lambda>(e, rest). Ok (c # e, rest)) else Ok ([], c # path))"

text \<open>\<open>skipelem\<close> returns null (\<open>None\<close>) or the rest of the path, and \<open>name\<close>.\<close>

definition skipelem :: "byte list \<Rightarrow> byte list \<Rightarrow> (byte list option \<times> byte list) outcome" where
  "skipelem path name =
     bnd (skip_slashes path) (\<lambda>path.
     if hd path = 0 then Ok (None, name)
     else
       bnd (span_elem path) (\<lambda>(e, path).
       let name = (if length e \<ge> DIRSIZ then take DIRSIZ e else (patch name 0 e)[length e := 0]) in
       bnd (skip_slashes path) (\<lambda>path. Ok (Some path, name))))"

lemma skip_slashes_shorter: "skip_slashes path = Ok path' \<Longrightarrow> length path' \<le> length path \<and> path' \<noteq> [] \<and> hd path' \<noteq> slash"
  by (induction path rule: skip_slashes.induct) (auto split: if_splits)

lemma span_elem_shorter: "span_elem path = Ok (e, rest) \<Longrightarrow> path = e @ rest \<and> rest \<noteq> []"
  by (induction path arbitrary: e rule: span_elem.induct) (auto split: if_splits)

lemma span_elem_nonempty: "span_elem (c # path) = Ok (e, rest) \<Longrightarrow> c \<noteq> slash \<Longrightarrow> c \<noteq> 0 \<Longrightarrow> e \<noteq> []"
  by auto

lemma skipelem_shorter:
  assumes "skipelem path name = Ok (Some path', name')"
  shows "length path' < length path"
proof -
  obtain p1 e p2 where p: "skip_slashes path = Ok p1" "hd p1 \<noteq> 0" "span_elem p1 = Ok (e, p2)" "skip_slashes p2 = Ok path'"
    using assms by (auto simp: skipelem_def Let_def split: if_splits)
  obtain c q where c: "p1 = c # q" "c \<noteq> slash" using skip_slashes_shorter[OF p(1)] by (cases p1) auto
  have "e \<noteq> []" using p(2,3) c by (auto dest: span_elem_nonempty)
  then have "length p2 < length p1" using span_elem_shorter[OF p(3)] by (cases e) auto
  then show ?thesis using skip_slashes_shorter[OF p(1)] skip_slashes_shorter[OF p(4)] by simp
qed

text \<open>
  The loop of \<open>namex\<close>; \<open>None\<close> is a null result. Each round consumes an element of the path.
\<close>

function namex_loop :: "kfs \<Rightarrow> nat \<Rightarrow> byte list \<Rightarrow> bool \<Rightarrow> byte list \<Rightarrow> (nat option \<times> byte list \<times> kfs) outcome" where
  "namex_loop s ip path nameiparent name =
     bnd (skipelem path name) (\<lambda>(p, name).
     case p of
       None \<Rightarrow> if nameiparent then bnd (iput s ip) (\<lambda>s. Ok (None, name, s)) else Ok (Some ip, name, s)
     | Some path \<Rightarrow>
         bnd (ilock s ip) (\<lambda>s.
         if i_type (inode_at s ip) \<noteq> T_DIR then bnd (iunlockput s ip) (\<lambda>s. Ok (None, name, s))
         else if nameiparent \<and> hd path = 0 then bnd (iunlock s ip) (\<lambda>s. Ok (Some ip, name, s))
         else
           bnd (dirlookup s ip name) (\<lambda>(r, s).
           case r of
             None \<Rightarrow> bnd (iunlockput s ip) (\<lambda>s. Ok (None, name, s))
           | Some (nxt, _) \<Rightarrow> bnd (iunlockput s ip) (\<lambda>s. namex_loop s nxt path nameiparent name))))"
  by pat_completeness auto
termination
  by (relation "measure (\<lambda>(s, ip, path, np, name). length path)") (auto dest: skipelem_shorter)

declare namex_loop.simps [simp del]

definition namex :: "kfs \<Rightarrow> byte list \<Rightarrow> bool \<Rightarrow> byte list \<Rightarrow> (nat option \<times> byte list \<times> kfs) outcome" where
  "namex s path nameiparent name =
     (case path of [] \<Rightarrow> Fault ''read outside string''
      | c # _ \<Rightarrow>
          bnd (if c = slash then iget s ROOTDEV ROOTINO else Ok (fs_cwd s, idup s (fs_cwd s))) (\<lambda>(ip, s).
          namex_loop s ip path nameiparent name))"

definition namei :: "kfs \<Rightarrow> byte list \<Rightarrow> (nat option \<times> kfs) outcome" where
  "namei s path = bnd (namex s path False (replicate DIRSIZ 0)) (\<lambda>(r, _, s). Ok (r, s))"

definition nameiparent :: "kfs \<Rightarrow> byte list \<Rightarrow> byte list \<Rightarrow> (nat option \<times> byte list \<times> kfs) outcome" where
  "nameiparent s path name = namex s path True name"

end
