(* ===== verification/File.thy ===== *)
theory File
  imports Pipe Fs_Dir
begin

text \<open>
  Open files, \<open>kernel/file.c\<close>, and \<open>pipealloc\<close> of \<open>kernel/pipe.c\<close>. A \<open>struct file *\<close> is an index into \<open>ftable.file\<close>,
  a \<open>struct pipe *\<close> the address of its page. The state adds to the file system
  the file table, the pipes, and of the running process its open files, its size, the page of its
  trapframe, its name and whether it has been killed. The device switch \<open>devsw\<close> is an argument, as it holds function pointers.
\<close>

section \<open>State\<close>

datatype ftype = FD_NONE | FD_PIPE | FD_INODE | FD_DEVICE

record struct_file =
  f_type :: ftype
  f_ref :: int
  f_readable :: bool
  f_writable :: bool
  f_pipe :: uint64
  f_ip :: nat
  f_off :: uint
  f_major :: uint16

record kfile =
  kf_fs :: kfs
  kf_file :: "struct_file list"
  kf_pipe :: "uint64 \<Rightarrow> pipe option"
  kf_ofile :: "nat option list"
  kf_sz :: uint64
  kf_tf :: uint64
  kf_name :: "byte list"
  kf_killed :: bool

type_synonym devfn = "uint64 \<Rightarrow> int \<Rightarrow> kfile \<Rightarrow> (wait \<times> kfile) outcome"

record devsw =
  dv_read :: "devfn option"
  dv_write :: "devfn option"

definition NFILE :: nat where "NFILE = 100"
definition NDEV :: nat where "NDEV = 10"
definition NOFILE :: nat where "NOFILE = 16"

definition file_at :: "kfile \<Rightarrow> nat \<Rightarrow> struct_file" where
  "file_at s f = kf_file s ! f"

definition upd_file :: "kfile \<Rightarrow> nat \<Rightarrow> (struct_file \<Rightarrow> struct_file) \<Rightarrow> kfile" where
  "upd_file s f g = s\<lparr>kf_file := (kf_file s)[f := g (kf_file s ! f)]\<rparr>"

definition kf_mem :: "kfile \<Rightarrow> kmem" where
  "kf_mem s = fs_mem (kf_fs s)"

definition kf_pt :: "kfile \<Rightarrow> uint64" where
  "kf_pt s = fs_pt (kf_fs s)"

definition with_mem :: "kfile \<Rightarrow> kmem \<Rightarrow> kfile" where
  "with_mem s m = s\<lparr>kf_fs := (kf_fs s)\<lparr>fs_mem := m\<rparr>\<rparr>"

text \<open>An operation of the file system on this state.\<close>

definition on_fs :: "kfile \<Rightarrow> (kfs \<Rightarrow> kfs outcome) \<Rightarrow> kfile outcome" where
  "on_fs s op = bnd (op (kf_fs s)) (\<lambda>t. Ok (s\<lparr>kf_fs := t\<rparr>))"

definition on_fs' :: "kfile \<Rightarrow> (kfs \<Rightarrow> ('a \<times> kfs) outcome) \<Rightarrow> ('a \<times> kfile) outcome" where
  "on_fs' s op = bnd (op (kf_fs s)) (\<lambda>(x, t). Ok (x, s\<lparr>kf_fs := t\<rparr>))"

section \<open>The file table\<close>

fun first_free :: "struct_file list \<Rightarrow> nat option" where
  "first_free [] = None"
| "first_free (f # fs) = (if f_ref f = 0 then Some 0 else map_option Suc (first_free fs))"

definition filealloc :: "kfile \<Rightarrow> nat option \<times> kfile" where
  "filealloc s =
     (case first_free (kf_file s) of
        None \<Rightarrow> (None, s)
      | Some f \<Rightarrow> (Some f, upd_file s f (\<lambda>x. x\<lparr>f_ref := 1\<rparr>)))"

definition filedup :: "kfile \<Rightarrow> nat \<Rightarrow> kfile outcome" where
  "filedup s f =
     (if f_ref (file_at s f) < 1 then Panic ''filedup''
      else Ok (upd_file s f (\<lambda>x. x\<lparr>f_ref := f_ref x + 1\<rparr>)))"

text \<open>\<open>pipeclose\<close> on the pipe in the page at \<open>pi\<close>.\<close>

definition close_pipe :: "uint64 \<Rightarrow> kfile \<Rightarrow> uint64 \<Rightarrow> bool \<Rightarrow> kfile outcome" where
  "close_pipe kend s pi writable =
     (case kf_pipe s pi of
        None \<Rightarrow> Fault ''no pipe''
      | Some p \<Rightarrow>
          (case pipeclose p writable of
             Some p \<Rightarrow> Ok (s\<lparr>kf_pipe := (kf_pipe s)(pi \<mapsto> p)\<rparr>)
           | None \<Rightarrow> bnd (kfree kend pi (kf_mem s)) (\<lambda>m. Ok (with_mem (s\<lparr>kf_pipe := (kf_pipe s)(pi := None)\<rparr>) m))))"

definition fileclose :: "uint64 \<Rightarrow> kfile \<Rightarrow> nat \<Rightarrow> kfile outcome" where
  "fileclose kend s f =
     (let ff = file_at s f in
      if f_ref ff < 1 then Panic ''fileclose''
      else if f_ref ff - 1 > 0 then Ok (upd_file s f (\<lambda>x. x\<lparr>f_ref := f_ref x - 1\<rparr>))
      else
        let s = upd_file s f (\<lambda>x. x\<lparr>f_ref := 0, f_type := FD_NONE\<rparr>) in
        if f_type ff = FD_PIPE then close_pipe kend s (f_pipe ff) (f_writable ff)
        else if f_type ff = FD_INODE \<or> f_type ff = FD_DEVICE then
          bnd (on_fs s fs_begin_op) (\<lambda>s.
          bnd (on_fs s (\<lambda>t. iput t (f_ip ff))) (\<lambda>s.
          on_fs s fs_end_op))
        else Ok s)"

definition pipealloc_bad :: "uint64 \<Rightarrow> kfile \<Rightarrow> nat option \<Rightarrow> nat option \<Rightarrow> kfile outcome" where
  "pipealloc_bad kend s f0 f1 =
     bnd (case f0 of Some f \<Rightarrow> fileclose kend s f | None \<Rightarrow> Ok s) (\<lambda>s.
     case f1 of Some f \<Rightarrow> fileclose kend s f | None \<Rightarrow> Ok s)"

definition pipealloc :: "uint64 \<Rightarrow> kfile \<Rightarrow> ((nat \<times> nat) option \<times> kfile) outcome" where
  "pipealloc kend s =
     (case filealloc s of
        (None, s) \<Rightarrow> bnd (pipealloc_bad kend s None None) (\<lambda>s. Ok (None, s))
      | (Some f0, s) \<Rightarrow>
     (case filealloc s of
        (None, s) \<Rightarrow> bnd (pipealloc_bad kend s (Some f0) None) (\<lambda>s. Ok (None, s))
      | (Some f1, s) \<Rightarrow>
     (case kalloc (kf_mem s) of (pi, m) \<Rightarrow>
      let s = with_mem s m in
      if pi = 0 then bnd (pipealloc_bad kend s (Some f0) (Some f1)) (\<lambda>s. Ok (None, s))
      else
        let s = s\<lparr>kf_pipe := (kf_pipe s)(pi \<mapsto> new_pipe)\<rparr>;
            s = upd_file s f0 (\<lambda>x. x\<lparr>f_type := FD_PIPE, f_readable := True, f_writable := False, f_pipe := pi\<rparr>);
            s = upd_file s f1 (\<lambda>x. x\<lparr>f_type := FD_PIPE, f_readable := False, f_writable := True, f_pipe := pi\<rparr>)
        in Ok (Some (f0, f1), s))))"

section \<open>Metadata, reading and writing\<close>

text \<open>
  The bytes of a \<open>struct stat\<close>; \<open>pad\<close> is the four bytes between \<open>nlink\<close> and \<open>size\<close>, which nobody writes.
\<close>

definition stat_bytes :: "byte list \<Rightarrow> stat \<Rightarrow> byte list" where
  "stat_bytes pad st =
     put64 (put16 (put16 (put32 (put32 (replicate 12 0 @ pad @ replicate 8 0) 0 (st_dev st)) 4 (st_ino st)) 8 (st_type st)) 10 (st_nlink st))
       16 (st_size st)"

definition filestat :: "byte list \<Rightarrow> kfile \<Rightarrow> nat \<Rightarrow> uint64 \<Rightarrow> (int \<times> kfile) outcome" where
  "filestat pad s f addr =
     (let ff = file_at s f in
      if f_type ff = FD_INODE \<or> f_type ff = FD_DEVICE then
        bnd (on_fs s (\<lambda>t. ilock t (f_ip ff))) (\<lambda>s.
        let st = stati (kf_fs s) (f_ip ff) in
        bnd (on_fs s (\<lambda>t. iunlock t (f_ip ff))) (\<lambda>s.
        bnd (copyout (kf_mem s) (kf_pt s) addr (stat_bytes pad st)) (\<lambda>(r, m).
        Ok (if r < 0 then -1 else 0, with_mem s m))))
      else Ok (-1, s))"

definition device :: "devsw list \<Rightarrow> uint16 \<Rightarrow> (devsw \<Rightarrow> devfn option) \<Rightarrow> devfn option" where
  "device devsw major sel =
     (if sint major < 0 \<or> sint major \<ge> int NDEV then None else sel (devsw ! nat (sint major)))"

definition fileread :: "devsw list \<Rightarrow> kfile \<Rightarrow> nat \<Rightarrow> uint64 \<Rightarrow> int \<Rightarrow> (wait \<times> kfile) outcome" where
  "fileread devsw s f addr n =
     (let ff = file_at s f in
      if \<not> f_readable ff then Ok (Ret (-1), s)
      else case f_type ff of
        FD_PIPE \<Rightarrow>
          (case kf_pipe s (f_pipe ff) of
             None \<Rightarrow> Fault ''no pipe''
           | Some p \<Rightarrow>
               bnd (piperead (kf_mem s) (kf_pt s) (kf_killed s) (unat (f_pipe ff)) addr n p) (\<lambda>(r, p, m).
               Ok (r, with_mem (s\<lparr>kf_pipe := (kf_pipe s)(f_pipe ff \<mapsto> p)\<rparr>) m)))
      | FD_DEVICE \<Rightarrow> (case device devsw (f_major ff) dv_read of None \<Rightarrow> Ok (Ret (-1), s) | Some rd \<Rightarrow> rd addr n s)
      | FD_INODE \<Rightarrow>
          bnd (on_fs s (\<lambda>t. ilock t (f_ip ff))) (\<lambda>s.
          bnd (on_fs' s (\<lambda>t. bnd (readi t (f_ip ff) (User_dst addr) (f_off ff) (of_int n)) (\<lambda>(r, xs, t). Ok (r, t)))) (\<lambda>(r, s).
          let s = (if r > 0 then upd_file s f (\<lambda>x. x\<lparr>f_off := f_off x + of_int r\<rparr>) else s) in
          bnd (on_fs s (\<lambda>t. iunlock t (f_ip ff))) (\<lambda>s. Ok (Ret r, s))))
      | FD_NONE \<Rightarrow> Panic ''fileread'')"

text \<open>One transaction of \<open>filewrite\<close>: \<open>n1\<close> bytes at the file's offset.\<close>

definition write_chunk :: "kfile \<Rightarrow> nat \<Rightarrow> uint64 \<Rightarrow> int \<Rightarrow> (int \<times> kfile) outcome" where
  "write_chunk s f addr n1 =
     (let ip = f_ip (file_at s f) in
      bnd (on_fs s fs_begin_op) (\<lambda>s.
      bnd (on_fs s (\<lambda>t. ilock t ip)) (\<lambda>s.
      bnd (on_fs' s (\<lambda>t. writei t ip (User_src addr) (f_off (file_at s f)) (of_int n1))) (\<lambda>(r, s).
      let s = (if r > 0 then upd_file s f (\<lambda>x. x\<lparr>f_off := f_off x + of_int r\<rparr>) else s) in
      bnd (on_fs s (\<lambda>t. iunlock t ip)) (\<lambda>s.
      bnd (on_fs s fs_end_op) (\<lambda>s. Ok (r, s)))))))"

text \<open>The largest write of one transaction, \<open>((MAXOPBLOCKS - 1 - 1 - 2) / 2) * BSIZE\<close>.\<close>

definition write_max :: int where
  "write_max = ((MAXOPBLOCKS - 1 - 1 - 2) div 2) * int BSIZE"

function filewrite_loop :: "kfile \<Rightarrow> nat \<Rightarrow> uint64 \<Rightarrow> int \<Rightarrow> int \<Rightarrow> (int \<times> kfile) outcome" where
  "filewrite_loop s f addr n i =
     (if i < n then
        let n1 = min (n - i) write_max in
        bnd (write_chunk s f (addr + of_int i) n1) (\<lambda>(r, s).
        if r \<noteq> n1 then Ok (i, s) else filewrite_loop s f addr n (i + r))
      else Ok (i, s))"
  by pat_completeness auto
termination
  by (relation "measure (\<lambda>(s, f, addr, n, i). nat (n - i))") (auto simp: write_max_def MAXOPBLOCKS_def BSIZE_def)

declare filewrite_loop.simps [simp del]

definition filewrite :: "devsw list \<Rightarrow> kfile \<Rightarrow> nat \<Rightarrow> uint64 \<Rightarrow> int \<Rightarrow> (wait \<times> kfile) outcome" where
  "filewrite devsw s f addr n =
     (let ff = file_at s f in
      if \<not> f_writable ff then Ok (Ret (-1), s)
      else case f_type ff of
        FD_PIPE \<Rightarrow>
          (case kf_pipe s (f_pipe ff) of
             None \<Rightarrow> Fault ''no pipe''
           | Some p \<Rightarrow>
               bnd (pipewrite (kf_mem s) (kf_pt s) (kf_killed s) (unat (f_pipe ff)) addr n p) (\<lambda>(r, p).
               Ok (r, s\<lparr>kf_pipe := (kf_pipe s)(f_pipe ff \<mapsto> p)\<rparr>)))
      | FD_DEVICE \<Rightarrow> (case device devsw (f_major ff) dv_write of None \<Rightarrow> Ok (Ret (-1), s) | Some wr \<Rightarrow> wr addr n s)
      | FD_INODE \<Rightarrow> bnd (filewrite_loop s f addr n 0) (\<lambda>(i, s). Ok (Ret (if i = n then n else -1), s))
      | FD_NONE \<Rightarrow> Panic ''filewrite'')"

end
