(* ===== verification/Sysfile.thy ===== *)
theory Sysfile
  imports File
begin

text \<open>
  The arguments of system calls (\<open>kernel/syscall.c\<close>) and the file-system calls (\<open>kernel/sysfile.c\<close>). The trapframe of the
  running process is a page of physical memory, read and written at the offsets of \<open>struct trapframe\<close>.
  A path argument is the string with its terminating null byte.
\<close>

unbundle bit_operations_syntax

section \<open>Arguments\<close>

definition MAXPATH :: nat where "MAXPATH = 128"

definition tf_epc :: nat where "tf_epc = 24"
definition tf_sp :: nat where "tf_sp = 48"
definition tf_a0 :: nat where "tf_a0 = 112"
definition tf_a1 :: nat where "tf_a1 = 120"
definition tf_a7 :: nat where "tf_a7 = 168"

definition tf_get :: "kfile \<Rightarrow> nat \<Rightarrow> uint64" where
  "tf_get s off = get64 (km_mem (kf_mem s) (kf_tf s)) off"

definition tf_set :: "kfile \<Rightarrow> nat \<Rightarrow> uint64 \<Rightarrow> kfile" where
  "tf_set s off v =
     (let m = kf_mem s; pg = kf_tf s in with_mem s (m\<lparr>km_mem := (km_mem m)(pg := put64 (km_mem m pg) off v)\<rparr>))"

definition fetchaddr :: "kfile \<Rightarrow> uint64 \<Rightarrow> uint64 option outcome" where
  "fetchaddr s addr =
     (if addr \<ge> kf_sz s \<or> addr + 8 > kf_sz s then Ok None
      else bnd (copyin (kf_mem s) (kf_pt s) addr 8) (\<lambda>r. Ok (map_option (\<lambda>xs. get64 xs 0) r)))"

definition fetchstr :: "kfile \<Rightarrow> uint64 \<Rightarrow> nat \<Rightarrow> byte list option outcome" where
  "fetchstr s addr mx = bnd (copyinstr (kf_mem s) (kf_pt s) addr mx) (\<lambda>r. Ok (map_option (\<lambda>xs. xs @ [0]) r))"

definition argraw :: "kfile \<Rightarrow> nat \<Rightarrow> uint64 outcome" where
  "argraw s n = (if n < 6 then Ok (tf_get s (tf_a0 + 8 * n)) else Panic ''argraw'')"

definition argint :: "kfile \<Rightarrow> nat \<Rightarrow> int outcome" where
  "argint s n = bnd (argraw s n) (\<lambda>x. Ok (sint (ucast x :: uint)))"

definition argaddr :: "kfile \<Rightarrow> nat \<Rightarrow> uint64 outcome" where
  "argaddr s n = argraw s n"

definition argstr :: "kfile \<Rightarrow> nat \<Rightarrow> nat \<Rightarrow> byte list option outcome" where
  "argstr s n mx = bnd (argaddr s n) (\<lambda>addr. fetchstr s addr mx)"

section \<open>File descriptors\<close>

definition argfd :: "kfile \<Rightarrow> nat \<Rightarrow> (nat \<times> nat) option outcome" where
  "argfd s n =
     bnd (argint s n) (\<lambda>fd.
     if fd < 0 \<or> fd \<ge> int NOFILE then Ok None
     else Ok (map_option (\<lambda>f. (nat fd, f)) (kf_ofile s ! nat fd)))"

fun first_none :: "'a option list \<Rightarrow> nat option" where
  "first_none [] = None"
| "first_none (x # xs) = (if x = None then Some 0 else map_option Suc (first_none xs))"

definition fdalloc :: "kfile \<Rightarrow> nat \<Rightarrow> nat option \<times> kfile" where
  "fdalloc s f =
     (case first_none (kf_ofile s) of
        None \<Rightarrow> (None, s)
      | Some fd \<Rightarrow> (Some fd, s\<lparr>kf_ofile := (kf_ofile s)[fd := Some f]\<rparr>))"

definition sys_dup :: "kfile \<Rightarrow> (int \<times> kfile) outcome" where
  "sys_dup s =
     bnd (argfd s 0) (\<lambda>r.
     case r of None \<Rightarrow> Ok (-1, s)
     | Some (_, f) \<Rightarrow>
         (case fdalloc s f of
            (None, s) \<Rightarrow> Ok (-1, s)
          | (Some fd, s) \<Rightarrow> bnd (filedup s f) (\<lambda>s. Ok (int fd, s))))"

definition sys_read :: "devsw list \<Rightarrow> kfile \<Rightarrow> (wait \<times> kfile) outcome" where
  "sys_read devsw s =
     bnd (argfd s 0) (\<lambda>r.
     case r of None \<Rightarrow> Ok (Ret (-1), s)
     | Some (_, f) \<Rightarrow> bnd (argint s 2) (\<lambda>n. bnd (argaddr s 1) (\<lambda>p. fileread devsw s f p n)))"

definition sys_write :: "devsw list \<Rightarrow> kfile \<Rightarrow> (wait \<times> kfile) outcome" where
  "sys_write devsw s =
     bnd (argfd s 0) (\<lambda>r.
     case r of None \<Rightarrow> Ok (Ret (-1), s)
     | Some (_, f) \<Rightarrow> bnd (argint s 2) (\<lambda>n. bnd (argaddr s 1) (\<lambda>p. filewrite devsw s f p n)))"

definition sys_close :: "uint64 \<Rightarrow> kfile \<Rightarrow> (int \<times> kfile) outcome" where
  "sys_close kend s =
     bnd (argfd s 0) (\<lambda>r.
     case r of None \<Rightarrow> Ok (-1, s)
     | Some (fd, f) \<Rightarrow> bnd (fileclose kend (s\<lparr>kf_ofile := (kf_ofile s)[fd := None]\<rparr>) f) (\<lambda>s. Ok (0, s)))"

definition sys_fstat :: "byte list \<Rightarrow> kfile \<Rightarrow> (int \<times> kfile) outcome" where
  "sys_fstat pad s =
     bnd (argfd s 0) (\<lambda>r.
     case r of None \<Rightarrow> Ok (-1, s)
     | Some (_, f) \<Rightarrow> bnd (argaddr s 1) (\<lambda>st. filestat pad s f st))"

section \<open>Directories\<close>

text \<open>Return \<open>x\<close> after \<open>end_op\<close>, and after \<open>iunlockput(ip)\<close> and \<open>end_op\<close>.\<close>

definition ended :: "'a \<Rightarrow> kfs \<Rightarrow> ('a \<times> kfs) outcome" where
  "ended x t = bnd (fs_end_op t) (\<lambda>t. Ok (x, t))"

definition put_ended :: "nat \<Rightarrow> 'a \<Rightarrow> kfs \<Rightarrow> ('a \<times> kfs) outcome" where
  "put_ended ip x t = bnd (iunlockput t ip) (ended x)"

definition add_nlink :: "int \<Rightarrow> kfs \<Rightarrow> nat \<Rightarrow> kfs" where
  "add_nlink d t ip = upd_inode t ip (\<lambda>i. i\<lparr>i_nlink := i_nlink i + of_int d\<rparr>)"

text \<open>The contents of a local \<open>name[DIRSIZ]\<close> before \<open>nameiparent\<close> writes it, never read.\<close>

definition fresh_name :: "byte list" where
  "fresh_name = replicate DIRSIZ 0"

definition link_bad :: "nat \<Rightarrow> kfs \<Rightarrow> (int \<times> kfs) outcome" where
  "link_bad ip t =
     bnd (ilock t ip) (\<lambda>t.
     bnd (iupdate (add_nlink (-1) t ip) ip) (put_ended ip (-1)))"

definition link_paths :: "byte list \<Rightarrow> byte list \<Rightarrow> kfs \<Rightarrow> (int \<times> kfs) outcome" where
  "link_paths old new t =
     bnd (fs_begin_op t) (\<lambda>t.
     bnd (namei t old) (\<lambda>(r, t).
     case r of None \<Rightarrow> ended (-1) t
     | Some ip \<Rightarrow>
         bnd (ilock t ip) (\<lambda>t.
         if i_type (inode_at t ip) = T_DIR then put_ended ip (-1) t
         else
           bnd (iupdate (add_nlink 1 t ip) ip) (\<lambda>t.
           bnd (iunlock t ip) (\<lambda>t.
           bnd (nameiparent t new fresh_name) (\<lambda>(r, name, t).
           case r of None \<Rightarrow> link_bad ip t
           | Some dp \<Rightarrow>
               bnd (ilock t dp) (\<lambda>t.
               if i_dev (inode_at t dp) \<noteq> i_dev (inode_at t ip) then bnd (iunlockput t dp) (link_bad ip)
               else
                 bnd (dirlink t dp name (i_inum (inode_at t ip))) (\<lambda>(r, t).
                 if r < 0 then bnd (iunlockput t dp) (link_bad ip)
                 else bnd (iunlockput t dp) (\<lambda>t. bnd (iput t ip) (ended 0))))))))))"

definition sys_link :: "kfile \<Rightarrow> (int \<times> kfile) outcome" where
  "sys_link s =
     bnd (argstr s 0 MAXPATH) (\<lambda>old.
     case old of None \<Rightarrow> Ok (-1, s)
     | Some old \<Rightarrow>
         bnd (argstr s 1 MAXPATH) (\<lambda>new.
         case new of None \<Rightarrow> Ok (-1, s)
         | Some new \<Rightarrow> on_fs' s (link_paths old new)))"

text \<open>The loop of \<open>isdirempty\<close> over the \<open>k\<close> entries from offset \<open>off\<close>.\<close>

fun isdirempty_loop :: "kfs \<Rightarrow> nat \<Rightarrow> nat \<Rightarrow> nat \<Rightarrow> (bool \<times> kfs) outcome" where
  "isdirempty_loop t dp off 0 = Ok (True, t)"
| "isdirempty_loop t dp off (Suc k) =
     bnd (read_dirent ''isdirempty: readi'' t dp off) (\<lambda>(de, t).
     if de_inum de \<noteq> 0 then Ok (False, t) else isdirempty_loop t dp (off + 16) k)"

definition isdirempty :: "kfs \<Rightarrow> nat \<Rightarrow> (bool \<times> kfs) outcome" where
  "isdirempty t dp = isdirempty_loop t dp 32 (dirents (i_size (inode_at t dp)) - 2)"

definition dot :: "byte list" where "dot = [0x2E, 0]"
definition dotdot :: "byte list" where "dotdot = [0x2E, 0x2E, 0]"

definition unlink_path :: "byte list \<Rightarrow> kfs \<Rightarrow> (int \<times> kfs) outcome" where
  "unlink_path path t =
     bnd (fs_begin_op t) (\<lambda>t.
     bnd (nameiparent t path fresh_name) (\<lambda>(r, name, t).
     case r of None \<Rightarrow> ended (-1) t
     | Some dp \<Rightarrow>
         bnd (ilock t dp) (\<lambda>t.
         bnd (namecmp name dot) (\<lambda>c1.
         bnd (if c1 = 0 then Ok 0 else namecmp name dotdot) (\<lambda>c.
         if c = 0 then put_ended dp (-1) t
         else
           bnd (dirlookup t dp name) (\<lambda>(r, t).
           case r of None \<Rightarrow> put_ended dp (-1) t
           | Some (ip, off) \<Rightarrow>
               bnd (ilock t ip) (\<lambda>t.
               if sint (i_nlink (inode_at t ip)) < 1 then Panic ''unlink: nlink < 1''
               else
                 bnd (if i_type (inode_at t ip) = T_DIR then isdirempty t ip else Ok (True, t)) (\<lambda>(e, t).
                 if \<not> e then bnd (iunlockput t ip) (put_ended dp (-1))
                 else
                   bnd (writei t dp (Kernel_src (replicate 16 0)) (of_nat off) 16) (\<lambda>(r, t).
                   if r \<noteq> 16 then Panic ''unlink: writei''
                   else
                     bnd (if i_type (inode_at t ip) = T_DIR then iupdate (add_nlink (-1) t dp) dp else Ok t) (\<lambda>t.
                     bnd (iunlockput t dp) (\<lambda>t.
                     bnd (iupdate (add_nlink (-1) t ip) ip) (put_ended ip 0))))))))))))"

definition sys_unlink :: "kfile \<Rightarrow> (int \<times> kfile) outcome" where
  "sys_unlink s =
     bnd (argstr s 0 MAXPATH) (\<lambda>path.
     case path of None \<Rightarrow> Ok (-1, s) | Some path \<Rightarrow> on_fs' s (unlink_path path))"

section \<open>Creating and opening\<close>

definition O_RDONLY :: uint where "O_RDONLY = 0x000"
definition O_WRONLY :: uint where "O_WRONLY = 0x001"
definition O_RDWR :: uint where "O_RDWR = 0x002"
definition O_CREATE :: uint where "O_CREATE = 0x200"
definition O_TRUNC :: uint where "O_TRUNC = 0x400"

text \<open>The inode \<open>create\<close> returns is locked.\<close>

definition create :: "kfs \<Rightarrow> byte list \<Rightarrow> uint16 \<Rightarrow> uint16 \<Rightarrow> uint16 \<Rightarrow> (nat option \<times> kfs) outcome" where
  "create t path type major minor =
     bnd (nameiparent t path fresh_name) (\<lambda>(r, name, t).
     case r of None \<Rightarrow> Ok (None, t)
     | Some dp \<Rightarrow>
         bnd (ilock t dp) (\<lambda>t.
         bnd (dirlookup t dp name) (\<lambda>(r, t).
         case r of
           Some (ip, _) \<Rightarrow>
             bnd (iunlockput t dp) (\<lambda>t.
             bnd (ilock t ip) (\<lambda>t.
             let ty = i_type (inode_at t ip) in
             if type = T_FILE \<and> (ty = T_FILE \<or> ty = T_DEVICE) then Ok (Some ip, t)
             else bnd (iunlockput t ip) (\<lambda>t. Ok (None, t))))
         | None \<Rightarrow>
             bnd (ialloc t (i_dev (inode_at t dp)) type) (\<lambda>(ip, t).
             bnd (ilock t ip) (\<lambda>t.
             bnd (iupdate (upd_inode t ip (\<lambda>i. i\<lparr>i_major := major, i_minor := minor, i_nlink := 1\<rparr>)) ip) (\<lambda>t.
             bnd (if type = T_DIR then
                    bnd (iupdate (add_nlink 1 t dp) dp) (\<lambda>t.
                    bnd (dirlink t ip dot (i_inum (inode_at t ip))) (\<lambda>(r, t).
                    if r < 0 then Panic ''create dots''
                    else
                      bnd (dirlink t ip dotdot (i_inum (inode_at t dp))) (\<lambda>(r, t).
                      if r < 0 then Panic ''create dots'' else Ok t)))
                  else Ok t) (\<lambda>t.
             bnd (dirlink t dp name (i_inum (inode_at t ip))) (\<lambda>(r, t).
             if r < 0 then Panic ''create: dirlink''
             else bnd (iunlockput t dp) (\<lambda>t. Ok (Some ip, t))))))))))"

text \<open>The first half of \<open>sys_open\<close>: the locked inode, or \<open>None\<close> after \<open>end_op\<close>.\<close>

definition open_inode :: "byte list \<Rightarrow> uint \<Rightarrow> kfs \<Rightarrow> (nat option \<times> kfs) outcome" where
  "open_inode path omode t =
     bnd (fs_begin_op t) (\<lambda>t.
     bnd (if omode AND O_CREATE \<noteq> 0 then
            bnd (create t path T_FILE 0 0) (\<lambda>(r, t). case r of None \<Rightarrow> ended None t | Some ip \<Rightarrow> Ok (Some ip, t))
          else
            bnd (namei t path) (\<lambda>(r, t).
            case r of None \<Rightarrow> ended None t
            | Some ip \<Rightarrow>
                bnd (ilock t ip) (\<lambda>t.
                if i_type (inode_at t ip) = T_DIR \<and> omode \<noteq> O_RDONLY then put_ended ip None t else Ok (Some ip, t)))) (\<lambda>(r, t).
     case r of None \<Rightarrow> Ok (None, t)
     | Some ip \<Rightarrow>
         let i = inode_at t ip in
         if i_type i = T_DEVICE \<and> (sint (i_major i) < 0 \<or> sint (i_major i) \<ge> int NDEV) then put_ended ip None t
         else Ok (Some ip, t)))"

text \<open>The fields \<open>sys_open\<close> sets in the file structure.\<close>

definition open_file :: "nat \<Rightarrow> inode \<Rightarrow> uint \<Rightarrow> struct_file \<Rightarrow> struct_file" where
  "open_file ip i omode f =
     (let f = (if i_type i = T_DEVICE then f\<lparr>f_type := FD_DEVICE, f_major := i_major i\<rparr> else f\<lparr>f_type := FD_INODE, f_off := 0\<rparr>)
      in f\<lparr>f_ip := ip, f_readable := omode AND O_WRONLY = 0,
           f_writable := omode AND O_WRONLY \<noteq> 0 \<or> omode AND O_RDWR \<noteq> 0\<rparr>)"

definition sys_open :: "uint64 \<Rightarrow> kfile \<Rightarrow> (int \<times> kfile) outcome" where
  "sys_open kend s =
     bnd (argstr s 0 MAXPATH) (\<lambda>path.
     case path of None \<Rightarrow> Ok (-1, s)
     | Some path \<Rightarrow>
         bnd (argint s 1) (\<lambda>om.
         let omode = of_int om in
         bnd (on_fs' s (open_inode path omode)) (\<lambda>(r, s).
         case r of None \<Rightarrow> Ok (-1, s)
         | Some ip \<Rightarrow>
             (case filealloc s of
                (None, s) \<Rightarrow> on_fs' s (put_ended ip (-1))
              | (Some f, s) \<Rightarrow>
                  (case fdalloc s f of
                     (None, s) \<Rightarrow> bnd (fileclose kend s f) (\<lambda>s. on_fs' s (put_ended ip (-1)))
                   | (Some fd, s) \<Rightarrow>
                       let s = upd_file s f (open_file ip (inode_at (kf_fs s) ip) omode) in
                       bnd (if omode AND O_TRUNC \<noteq> 0 \<and> i_type (inode_at (kf_fs s) ip) = T_FILE
                            then on_fs s (\<lambda>t. itrunc t ip) else Ok s) (\<lambda>s.
                       bnd (on_fs s (\<lambda>t. iunlock t ip)) (\<lambda>s. on_fs' s (ended (int fd)))))))))"

definition sys_mkdir :: "kfile \<Rightarrow> (int \<times> kfile) outcome" where
  "sys_mkdir s =
     bnd (on_fs s fs_begin_op) (\<lambda>s.
     bnd (argstr s 0 MAXPATH) (\<lambda>path.
     case path of None \<Rightarrow> on_fs' s (ended (-1))
     | Some path \<Rightarrow>
         bnd (on_fs' s (\<lambda>t. create t path T_DIR 0 0)) (\<lambda>(r, s).
         case r of None \<Rightarrow> on_fs' s (ended (-1)) | Some ip \<Rightarrow> on_fs' s (put_ended ip 0))))"

definition sys_mknod :: "kfile \<Rightarrow> (int \<times> kfile) outcome" where
  "sys_mknod s =
     bnd (on_fs s fs_begin_op) (\<lambda>s.
     bnd (argstr s 0 MAXPATH) (\<lambda>path.
     case path of None \<Rightarrow> on_fs' s (ended (-1))
     | Some path \<Rightarrow>
         bnd (argint s 1) (\<lambda>major.
         bnd (argint s 2) (\<lambda>minor.
         bnd (on_fs' s (\<lambda>t. create t path T_DEVICE (of_int major) (of_int minor))) (\<lambda>(r, s).
         case r of None \<Rightarrow> on_fs' s (ended (-1)) | Some ip \<Rightarrow> on_fs' s (put_ended ip 0))))))"

definition sys_chdir :: "kfile \<Rightarrow> (int \<times> kfile) outcome" where
  "sys_chdir s =
     bnd (on_fs s fs_begin_op) (\<lambda>s.
     bnd (argstr s 0 MAXPATH) (\<lambda>path.
     case path of None \<Rightarrow> on_fs' s (ended (-1))
     | Some path \<Rightarrow>
         on_fs' s (\<lambda>t.
           bnd (namei t path) (\<lambda>(r, t).
           case r of None \<Rightarrow> ended (-1) t
           | Some ip \<Rightarrow>
               bnd (ilock t ip) (\<lambda>t.
               if i_type (inode_at t ip) \<noteq> T_DIR then put_ended ip (-1) t
               else
                 bnd (iunlock t ip) (\<lambda>t.
                 bnd (iput t (fs_cwd t)) (\<lambda>t.
                 bnd (fs_end_op t) (\<lambda>t. Ok (0, t\<lparr>fs_cwd := ip\<rparr>)))))))))"

text \<open>Closing both ends again when \<open>sys_pipe\<close> fails.\<close>

definition close_both :: "uint64 \<Rightarrow> kfile \<Rightarrow> nat \<Rightarrow> nat \<Rightarrow> (int \<times> kfile) outcome" where
  "close_both kend s rfile wfile =
     bnd (fileclose kend s rfile) (\<lambda>s. bnd (fileclose kend s wfile) (\<lambda>s. Ok (-1, s)))"

definition sys_pipe :: "uint64 \<Rightarrow> kfile \<Rightarrow> (int \<times> kfile) outcome" where
  "sys_pipe kend s =
     bnd (argaddr s 0) (\<lambda>fdarray.
     bnd (pipealloc kend s) (\<lambda>(r, s).
     case r of None \<Rightarrow> Ok (-1, s)
     | Some (rfile, wfile) \<Rightarrow>
         (case fdalloc s rfile of
            (None, s) \<Rightarrow> close_both kend s rfile wfile
          | (Some fd0, s) \<Rightarrow>
              (case fdalloc s wfile of
                 (None, s) \<Rightarrow> close_both kend (s\<lparr>kf_ofile := (kf_ofile s)[fd0 := None]\<rparr>) rfile wfile
               | (Some fd1, s) \<Rightarrow>
                   bnd (copyout (kf_mem s) (kf_pt s) fdarray (bytes_of_word 4 (of_nat fd0 :: uint))) (\<lambda>(r0, m).
                   bnd (if r0 < 0 then Ok (r0, m) else copyout m (kf_pt s) (fdarray + 4) (bytes_of_word 4 (of_nat fd1 :: uint))) (\<lambda>(r, m).
                   let s = with_mem s m in
                   if r < 0 then close_both kend (s\<lparr>kf_ofile := (kf_ofile s)[fd0 := None, fd1 := None]\<rparr>) rfile wfile
                   else Ok (0, s)))))))"

end
