(* ===== verification/Spinlock.thy ===== *)
theory Spinlock
  imports Kernel_Prelude
begin

text \<open>
  Spin locks, \<open>kernel/spinlock.c\<close>. The functions are given first as they run on one CPU. The second part is a step relation for any
  number of CPUs that use one lock: each shared access of \<open>acquire\<close> and \<open>release\<close> is one step, and the steps of the
  CPUs interleave arbitrarily. CPUs are numbered by \<open>cpuid()\<close>.
\<close>

section \<open>Definitions\<close>

text \<open>Per-CPU state of \<open>struct cpu\<close>, with the interrupt-enable bit of \<open>sstatus\<close>.\<close>

record cpu =
  c_noff :: int
  c_intena :: bool
  c_intr :: bool

record spinlock =
  lk_locked :: uint
  lk_cpu :: "nat option"

definition initlock :: spinlock where
  "initlock = \<lparr>lk_locked = 0, lk_cpu = None\<rparr>"

definition holding :: "spinlock \<Rightarrow> nat \<Rightarrow> bool" where
  "holding lk c \<longleftrightarrow> lk_locked lk \<noteq> 0 \<and> lk_cpu lk = Some c"

definition push_off :: "cpu \<Rightarrow> cpu" where
  "push_off c =
     (let old = c_intr c; c = c\<lparr>c_intr := False\<rparr>;
          c = (if c_noff c = 0 then c\<lparr>c_intena := old\<rparr> else c)
      in c\<lparr>c_noff := c_noff c + 1\<rparr>)"

definition pop_off :: "cpu \<Rightarrow> cpu outcome" where
  "pop_off c =
     (if c_intr c then Panic ''pop_off - interruptible''
      else if c_noff c < 1 then Panic ''pop_off''
      else
        let c = c\<lparr>c_noff := c_noff c - 1\<rparr>
        in Ok (if c_noff c = 0 \<and> c_intena c then c\<lparr>c_intr := True\<rparr> else c))"

text \<open>The atomic swap of \<open>__sync_lock_test_and_set\<close>: the old value and the new lock.\<close>

definition test_and_set :: "spinlock \<Rightarrow> uint \<times> spinlock" where
  "test_and_set lk = (lk_locked lk, lk\<lparr>lk_locked := 1\<rparr>)"

text \<open>\<open>acquire\<close> and \<open>release\<close> on CPU \<open>i\<close> when no other CPU interferes; spinning on a taken lock never ends.\<close>

definition acquire :: "nat \<Rightarrow> cpu \<Rightarrow> spinlock \<Rightarrow> (cpu \<times> spinlock) outcome" where
  "acquire i c lk =
     (let c = push_off c in
      if holding lk i then Panic ''acquire''
      else case test_and_set lk of (old, lk) \<Rightarrow>
        if old \<noteq> 0 then Diverge else Ok (c, lk\<lparr>lk_cpu := Some i\<rparr>))"

definition release :: "nat \<Rightarrow> cpu \<Rightarrow> spinlock \<Rightarrow> (cpu \<times> spinlock) outcome" where
  "release i c lk =
     (if \<not> holding lk i then Panic ''release''
      else bnd (pop_off c) (\<lambda>c. Ok (c, lk\<lparr>lk_cpu := None, lk_locked := 0\<rparr>)))"

section \<open>Interleaving\<close>

text \<open>
  Where a CPU is: outside, in the loop of \<open>acquire\<close>, behind the successful swap, in the critical section, behind
  \<open>lk->cpu = 0\<close> in \<open>release\<close>, behind the release of the lock word and before \<open>pop_off\<close>, or stopped in \<open>panic\<close>.
\<close>

datatype pc = Outside | Spinning | Won | Inside | Leaving | Left | Panicked

record mach =
  mc_cpu :: "nat \<Rightarrow> cpu"
  mc_pc :: "nat \<Rightarrow> pc"
  mc_lock :: spinlock

definition at_pc :: "mach \<Rightarrow> nat \<Rightarrow> pc \<Rightarrow> mach" where
  "at_pc s i p = s\<lparr>mc_pc := (mc_pc s)(i := p)\<rparr>"

inductive lk_step :: "nat \<Rightarrow> mach \<Rightarrow> mach \<Rightarrow> bool" where
  call_acquire: "mc_pc s i = Outside \<Longrightarrow>
    lk_step i s (at_pc (s\<lparr>mc_cpu := (mc_cpu s)(i := push_off (mc_cpu s i))\<rparr>) i (if holding (mc_lock s) i then Panicked else Spinning))"
| swap: "mc_pc s i = Spinning \<Longrightarrow> test_and_set (mc_lock s) = (old, lk) \<Longrightarrow>
    lk_step i s (at_pc (s\<lparr>mc_lock := lk\<rparr>) i (if old \<noteq> 0 then Spinning else Won))"
| set_cpu: "mc_pc s i = Won \<Longrightarrow> lk_step i s (at_pc (s\<lparr>mc_lock := (mc_lock s)\<lparr>lk_cpu := Some i\<rparr>\<rparr>) i Inside)"
| call_release: "mc_pc s i = Inside \<Longrightarrow>
    lk_step i s (if holding (mc_lock s) i then at_pc (s\<lparr>mc_lock := (mc_lock s)\<lparr>lk_cpu := None\<rparr>\<rparr>) i Leaving else at_pc s i Panicked)"
| unlock: "mc_pc s i = Leaving \<Longrightarrow> lk_step i s (at_pc (s\<lparr>mc_lock := (mc_lock s)\<lparr>lk_locked := 0\<rparr>\<rparr>) i Left)"
| pop: "mc_pc s i = Left \<Longrightarrow>
    lk_step i s (case pop_off (mc_cpu s i) of Ok c \<Rightarrow> at_pc (s\<lparr>mc_cpu := (mc_cpu s)(i := c)\<rparr>) i Outside | _ \<Rightarrow> at_pc s i Panicked)"

inductive_cases step_E: "lk_step i s t"

inductive lk_reach :: "mach \<Rightarrow> bool" where
  start: "mc_lock s = initlock \<Longrightarrow> (\<And>i. mc_pc s i = Outside) \<Longrightarrow> (\<And>i. c_noff (mc_cpu s i) = 0) \<Longrightarrow> lk_reach s"
| run: "lk_reach s \<Longrightarrow> lk_step i s t \<Longrightarrow> lk_reach t"

section \<open>Invariant\<close>

definition owns :: "pc \<Rightarrow> bool" where
  "owns p \<longleftrightarrow> p \<in> {Won, Inside, Leaving}"

definition lock_inv :: "mach \<Rightarrow> bool" where
  "lock_inv s \<longleftrightarrow>
     (\<exists>k. \<forall>i. owns (mc_pc s i) \<longleftrightarrow> lk_locked (mc_lock s) \<noteq> 0 \<and> i = k) \<and>
     (\<forall>i. lk_cpu (mc_lock s) = Some i \<longleftrightarrow> mc_pc s i = Inside) \<and>
     (\<forall>i. mc_pc s i \<noteq> Panicked) \<and>
     (\<forall>i. c_noff (mc_cpu s i) = (if mc_pc s i = Outside then 0 else 1)) \<and>
     (\<forall>i. mc_pc s i \<noteq> Outside \<longrightarrow> \<not> c_intr (mc_cpu s i))"

lemma lock_inv_start: "mc_lock s = initlock \<Longrightarrow> (\<And>i. mc_pc s i = Outside) \<Longrightarrow> (\<And>i. c_noff (mc_cpu s i) = 0) \<Longrightarrow> lock_inv s"
  by (simp add: lock_inv_def initlock_def owns_def)

lemma push_off_simps [simp]: "c_noff (push_off c) = c_noff c + 1" "\<not> c_intr (push_off c)"
  by (simp_all add: push_off_def Let_def)

lemma pop_off_Ok: "\<not> c_intr c \<Longrightarrow> c_noff c = 1 \<Longrightarrow> \<exists>c'. pop_off c = Ok c' \<and> c_noff c' = 0"
  by (simp add: pop_off_def Let_def)

lemma lock_inv_step:
  assumes "lk_step i s t" "lock_inv s"
  shows "lock_inv t"
proof -
  obtain k where k: "\<And>j. owns (mc_pc s j) \<longleftrightarrow> lk_locked (mc_lock s) \<noteq> 0 \<and> j = k" using assms(2) by (auto simp: lock_inv_def)
  note ki = k[of i, unfolded owns_def]
  from assms(1) show ?thesis
  proof cases
    case call_acquire
    then have "\<not> holding (mc_lock s) i" using assms(2) by (simp add: lock_inv_def holding_def)
    moreover have "\<exists>k. \<forall>j. owns (((mc_pc s)(i := Spinning)) j) \<longleftrightarrow> lk_locked (mc_lock s) \<noteq> 0 \<and> j = k"
      using k ki call_acquire(2) by (auto simp: owns_def)
    ultimately show ?thesis using assms(2) call_acquire by (simp add: lock_inv_def at_pc_def)
  next
    case (swap old lk)
    have "\<exists>k. \<forall>j. owns (((mc_pc s)(i := (if old \<noteq> 0 then Spinning else Won))) j) \<longleftrightarrow> j = k"
    proof (cases "old = 0")
      case True
      then show ?thesis using k swap(3) by (intro exI[of _ i]) (auto simp: owns_def test_and_set_def)
    next
      case False
      then show ?thesis using k ki swap(2,3) by (intro exI[of _ k]) (auto simp: owns_def test_and_set_def)
    qed
    then have ex: "\<exists>k. \<forall>j. owns (mc_pc t j) \<longleftrightarrow> lk_locked (mc_lock t) \<noteq> 0 \<and> j = k"
    proof -
      have "mc_pc t = (mc_pc s)(i := (if old \<noteq> 0 then Spinning else Won))" "lk_locked (mc_lock t) \<noteq> 0"
        using swap by (auto simp: at_pc_def test_and_set_def)
      with \<open>\<exists>k. _ k\<close> show ?thesis by metis
    qed
    show ?thesis unfolding lock_inv_def
      by (intro conjI, rule ex) (use assms(2) swap in \<open>auto simp: lock_inv_def at_pc_def test_and_set_def\<close>)
  next
    case set_cpu
    have "\<exists>k. \<forall>j. owns (((mc_pc s)(i := Inside)) j) \<longleftrightarrow> lk_locked (mc_lock s) \<noteq> 0 \<and> j = k"
      using k ki set_cpu(2) by (intro exI[of _ k]) (auto simp: owns_def)
    moreover have "i = k" using ki set_cpu(2) by simp
    moreover have "mc_pc s j \<noteq> Inside" if "j \<noteq> k" for j using k[of j] that by (auto simp: owns_def)
    ultimately show ?thesis using assms(2) set_cpu by (auto simp: lock_inv_def at_pc_def)
  next
    case call_release
    then have "holding (mc_lock s) i" using assms(2) ki by (simp add: lock_inv_def holding_def)
    moreover have "\<exists>k. \<forall>j. owns (((mc_pc s)(i := Leaving)) j) \<longleftrightarrow> lk_locked (mc_lock s) \<noteq> 0 \<and> j = k"
      using k ki call_release(2) by (intro exI[of _ k]) (auto simp: owns_def)
    moreover have "mc_pc s j \<noteq> Inside" if "j \<noteq> i" for j using k[of j] that ki call_release(2) by (auto simp: owns_def)
    ultimately show ?thesis using assms(2) call_release by (auto simp: lock_inv_def at_pc_def)
  next
    case unlock
    have "\<not> owns (((mc_pc s)(i := Left)) j)" for j using k[of j] ki unlock(2) by (auto simp: owns_def)
    then show ?thesis using assms(2) unlock by (auto simp: lock_inv_def at_pc_def)
  next
    case pop
    then obtain c where "pop_off (mc_cpu s i) = Ok c" "c_noff c = 0"
      using pop_off_Ok[of "mc_cpu s i"] assms(2) by (auto simp: lock_inv_def)
    moreover have "\<exists>k. \<forall>j. owns (((mc_pc s)(i := Outside)) j) \<longleftrightarrow> lk_locked (mc_lock s) \<noteq> 0 \<and> j = k"
      using k ki pop(2) by (intro exI[of _ k]) (auto simp: owns_def)
    ultimately show ?thesis using assms(2) pop by (auto simp: lock_inv_def at_pc_def)
  qed
qed

lemma reach_inv: "lk_reach s \<Longrightarrow> lock_inv s"
  by (induction rule: lk_reach.induct) (auto intro: lock_inv_start lock_inv_step)

section \<open>Progress\<close>

text \<open>A run in which only the given CPUs take steps.\<close>

inductive lk_run :: "nat set \<Rightarrow> mach \<Rightarrow> mach \<Rightarrow> bool" for I where
  stop: "lk_run I s s"
| more: "i \<in> I \<Longrightarrow> lk_step i s t \<Longrightarrow> lk_run I t u \<Longrightarrow> lk_run I s u"

lemma run_trans: "lk_run I s t \<Longrightarrow> lk_run I t u \<Longrightarrow> lk_run I s u"
  by (induction rule: lk_run.induct) (auto intro: lk_run.more)

lemma run_step: "i \<in> I \<Longrightarrow> lk_step i s t \<Longrightarrow> lk_run I s t"
  by (rule lk_run.more[OF _ _ lk_run.stop])

lemma owner_unlocks:
  assumes "lock_inv s" "owns (mc_pc s k)" "k \<in> I"
  shows "\<exists>t. lk_run I s t \<and> lk_locked (mc_lock t) = 0 \<and> (\<forall>j. j \<noteq> k \<longrightarrow> mc_pc t j = mc_pc s j)"
proof -
  have leaving: "\<exists>u. lk_run I t u \<and> lk_locked (mc_lock u) = 0 \<and> (\<forall>j. j \<noteq> k \<longrightarrow> mc_pc u j = mc_pc t j)"
    if "mc_pc t k = Leaving" for t
    using run_step[OF assms(3) lk_step.unlock[OF that]] by (intro exI conjI) (auto simp: at_pc_def)
  have inside: "\<exists>u. lk_run I t u \<and> lk_locked (mc_lock u) = 0 \<and> (\<forall>j. j \<noteq> k \<longrightarrow> mc_pc u j = mc_pc t j)"
    if t: "lock_inv t" "mc_pc t k = Inside" for t
  proof -
    have "holding (mc_lock t) k" using t by (auto simp: lock_inv_def holding_def owns_def)
    then have s: "lk_run I t (at_pc (t\<lparr>mc_lock := (mc_lock t)\<lparr>lk_cpu := None\<rparr>\<rparr>) k Leaving)"
      using run_step[OF assms(3) lk_step.call_release[OF t(2)]] by simp
    show ?thesis using leaving[of "at_pc (t\<lparr>mc_lock := (mc_lock t)\<lparr>lk_cpu := None\<rparr>\<rparr>) k Leaving"] run_trans[OF s] 
      by (fastforce simp: at_pc_def)
  qed
  consider "mc_pc s k = Won" | "mc_pc s k = Inside" | "mc_pc s k = Leaving" using assms(2) by (auto simp: owns_def)
  then show ?thesis
  proof cases
    case 1
    note st = lk_step.set_cpu[OF 1]
    show ?thesis using inside[OF lock_inv_step[OF st assms(1)]] run_trans[OF run_step[OF assms(3) st]] by (fastforce simp: at_pc_def)
  qed (use inside leaving assms(1) in auto)
qed

lemma spinner_enters:
  assumes "mc_pc s i = Spinning" "lk_locked (mc_lock s) = 0" "i \<in> I"
  shows "\<exists>t. lk_run I s t \<and> mc_pc t i = Inside"
proof -
  let ?t = "at_pc (s\<lparr>mc_lock := (mc_lock s)\<lparr>lk_locked := 1\<rparr>\<rparr>) i Won"
  have "lk_step i s ?t" using lk_step.swap[OF assms(1), of "lk_locked (mc_lock s)" "(mc_lock s)\<lparr>lk_locked := 1\<rparr>"] assms(2)
    by (simp add: test_and_set_def)
  moreover have "lk_step i ?t (at_pc (?t\<lparr>mc_lock := (mc_lock ?t)\<lparr>lk_cpu := Some i\<rparr>\<rparr>) i Inside)"
    by (rule lk_step.set_cpu) (simp add: at_pc_def)
  ultimately have "lk_run I s (at_pc (?t\<lparr>mc_lock := (mc_lock ?t)\<lparr>lk_cpu := Some i\<rparr>\<rparr>) i Inside)"
    using assms(3) by (blast intro: lk_run.more lk_run.stop)
  then show ?thesis by (intro exI[of _ "at_pc (?t\<lparr>mc_lock := (mc_lock ?t)\<lparr>lk_cpu := Some i\<rparr>\<rparr>) i Inside"]) (simp add: at_pc_def)
qed

section \<open>Properties\<close>

text \<open>
  C18: Mutual exclusion. In every state that any interleaving of CPUs can reach, at most one CPU is between a successful swap in
  \<open>acquire\<close> and the release of the lock word, \<open>holding\<close> answers true exactly for the CPU in the critical section,
  no CPU has panicked in \<open>acquire\<close>, \<open>release\<close> or \<open>pop_off\<close>, and every CPU in the critical section runs with interrupts off.
\<close>

theorem spinlock_excludes:
  assumes "lk_reach s"
  shows "(\<forall>i j. owns (mc_pc s i) \<longrightarrow> owns (mc_pc s j) \<longrightarrow> i = j) \<and>
    (\<forall>i. holding (mc_lock s) i \<longleftrightarrow> mc_pc s i = Inside) \<and>
    (\<forall>i. mc_pc s i \<noteq> Panicked) \<and> (\<forall>i. mc_pc s i = Inside \<longrightarrow> \<not> c_intr (mc_cpu s i))"
proof -
  have inv: "lock_inv s" using assms by (rule reach_inv)
  then obtain k where k: "\<And>j. owns (mc_pc s j) \<longleftrightarrow> lk_locked (mc_lock s) \<noteq> 0 \<and> j = k" by (auto simp: lock_inv_def)
  then have "mc_pc s i = Inside \<Longrightarrow> lk_locked (mc_lock s) \<noteq> 0" for i by (metis insertCI owns_def)
  then show ?thesis using inv k by (auto simp: lock_inv_def holding_def)
qed

text \<open>
  C19: No deadlock. From every reachable state in which a CPU spins in \<open>acquire\<close>, that CPU enters its critical section
  within steps of its own and of the CPU that has the lock, whatever the other CPUs do not do.
\<close>

theorem spinlock_progress:
  assumes "lk_reach s" "mc_pc s i = Spinning"
  shows "\<exists>k t. lk_run {i, k} s t \<and> mc_pc t i = Inside"
proof -
  have inv: "lock_inv s" using assms(1) by (rule reach_inv)
  then obtain k where k: "\<And>j. owns (mc_pc s j) \<longleftrightarrow> lk_locked (mc_lock s) \<noteq> 0 \<and> j = k" by (auto simp: lock_inv_def)
  show ?thesis
  proof (cases "lk_locked (mc_lock s) = 0")
    case True
    then show ?thesis using spinner_enters[OF assms(2) True, of "{i, k}"] by blast
  next
    case False
    then obtain t where t: "lk_run {i, k} s t" "lk_locked (mc_lock t) = 0" "\<forall>j. j \<noteq> k \<longrightarrow> mc_pc t j = mc_pc s j"
      using owner_unlocks[OF inv, of k "{i, k}"] k[of k] by auto
    moreover have "i \<noteq> k" using k[of k] False assms(2) by (auto simp: owns_def)
    ultimately obtain u where "lk_run {i, k} t u" "mc_pc u i = Inside" using spinner_enters[of t i "{i, k}"] assms(2) by auto
    then show ?thesis using run_trans[OF t(1)] by blast
  qed
qed

text \<open>
  On one CPU, \<open>acquire\<close> of a free lock followed by \<open>release\<close> restores the lock and the interrupt state, at any nesting depth
  of \<open>push_off\<close>; acquiring a lock the CPU already holds panics, and so does releasing a lock it does not hold.
\<close>

theorem acquire_release_restores:
  assumes "lk = initlock" "0 \<le> c_noff c" "0 < c_noff c \<longrightarrow> \<not> c_intr c"
  shows "\<exists>c1 lk1 c2. acquire i c lk = Ok (c1, lk1) \<and> holding lk1 i \<and> \<not> c_intr c1 \<and> acquire i c1 lk1 = Panic ''acquire'' \<and>
    release i c1 lk1 = Ok (c2, lk) \<and> c_intr c2 = c_intr c \<and> c_noff c2 = c_noff c \<and> release i c2 lk = Panic ''release''"
  using assms
  by (auto simp: acquire_def release_def initlock_def test_and_set_def holding_def push_off_def pop_off_def Let_def)

text \<open>Two CPUs that both call \<open>acquire\<close>, the first of which gets the lock.\<close>

definition ex_start :: mach where
  "ex_start = \<lparr>mc_cpu = \<lambda>_. \<lparr>c_noff = 0, c_intena = False, c_intr = True\<rparr>, mc_pc = \<lambda>_. Outside, mc_lock = initlock\<rparr>"

lemma ex_two: "\<exists>s. lk_reach s \<and> mc_pc s 0 = Won \<and> mc_pc s 1 = Spinning"
proof -
  have h: "\<not> holding initlock i" for i by (simp add: holding_def initlock_def)
  have r: "lk_reach ex_start" by (rule lk_reach.start) (simp_all add: ex_start_def)
  define s1 where "s1 = at_pc (ex_start\<lparr>mc_cpu := (mc_cpu ex_start)(0 := push_off (mc_cpu ex_start 0))\<rparr>) 0 Spinning"
  have "lk_step 0 ex_start s1" using lk_step.call_acquire[of ex_start 0] h[of 0] by (simp add: ex_start_def s1_def)
  with r have r1: "lk_reach s1" by (rule lk_reach.run)
  have s1: "mc_pc s1 = (\<lambda>_. Outside)(0 := Spinning)" "mc_lock s1 = initlock" by (simp_all add: s1_def ex_start_def at_pc_def)
  define s2 where "s2 = at_pc (s1\<lparr>mc_cpu := (mc_cpu s1)(1 := push_off (mc_cpu s1 1))\<rparr>) 1 Spinning"
  have "lk_step 1 s1 s2" using lk_step.call_acquire[of s1 1] h[of 1] s1 by (simp add: s2_def)
  with r1 have r2: "lk_reach s2" by (rule lk_reach.run)
  have s2: "mc_pc s2 = (\<lambda>_. Outside)(0 := Spinning, 1 := Spinning)" "mc_lock s2 = initlock" by (simp_all add: s1 s2_def at_pc_def)
  define s3 where "s3 = at_pc (s2\<lparr>mc_lock := initlock\<lparr>lk_locked := 1\<rparr>\<rparr>) 0 Won"
  have "lk_step 0 s2 s3" using lk_step.swap[of s2 0 0 "initlock\<lparr>lk_locked := 1\<rparr>"] s2 by (simp add: s3_def test_and_set_def initlock_def)
  with r2 have "lk_reach s3" by (rule lk_reach.run)
  moreover have "mc_pc s3 0 = Won" "mc_pc s3 1 = Spinning" by (simp_all add: s3_def s2 at_pc_def)
  ultimately show ?thesis by blast
qed

theorem spinlock_excludes_witness: "\<exists>s. lk_reach s \<and> owns (mc_pc s 0) \<and> \<not> owns (mc_pc s 1)"
proof -
  obtain s where s: "lk_reach s" "mc_pc s 0 = Won" "mc_pc s 1 = Spinning" using ex_two by blast
  then have "owns (mc_pc s 0)" by (simp add: owns_def)
  moreover have "\<not> owns (mc_pc s 1)" using spinlock_excludes[OF s(1)] calculation by (metis zero_neq_one)
  ultimately show ?thesis using s(1) by blast
qed

theorem spinlock_progress_witness: "\<exists>s k t. lk_reach s \<and> mc_pc s 0 = Won \<and> lk_run {1, k} s t \<and> mc_pc t 1 = Inside"
proof -
  obtain s where s: "lk_reach s" "mc_pc s 0 = Won" "mc_pc s 1 = Spinning" using ex_two by blast
  then show ?thesis using spinlock_progress[OF s(1,3)] by blast
qed

theorem acquire_release_restores_witness:
  "\<exists>c1 lk1 c2. acquire 0 \<lparr>c_noff = 0, c_intena = False, c_intr = True\<rparr> initlock = Ok (c1, lk1) \<and>
     release 0 c1 lk1 = Ok (c2, initlock) \<and> c_intr c2"
  using acquire_release_restores[of initlock "\<lparr>c_noff = 0, c_intena = False, c_intr = True\<rparr>" 0] by auto

end
