(* ===== verification/Proc.thy ===== *)
theory Proc
  imports Sysfile Spinlock
begin

text \<open>
  Processes, \<open>kernel/proc.c\<close>. A \<open>struct proc *\<close> is an index into the process table. The state \<open>kern\<close> is the process table
  and, in \<open>k_kf\<close>, the rest of the kernel. The file operations work on the fields of the running process: \<open>enter\<close> loads them from the
  table and \<open>leave\<close> stores them back. The functions hold \<open>p->lock\<close> or \<open>wait_lock\<close> around their accesses to the table, so
  each is one step; \<open>swtch\<close> is where other processes run. The physical addresses of the end of the kernel, of the trampoline code
  and of \<open>forkret\<close> are fixed by the linker, and are arguments.
\<close>

unbundle bit_operations_syntax

section \<open>State\<close>

datatype procstate = UNUSED | USED | SLEEPING | RUNNABLE | RUNNING | ZOMBIE

record proc_context =
  x_ra :: uint64
  x_sp :: uint64
  x_s :: "uint64 list"

record proc =
  pr_state :: procstate
  pr_chan :: "chan option"
  pr_killed :: bool
  pr_xstate :: int
  pr_pid :: int
  pr_parent :: "nat option"
  pr_kstack :: uint64
  pr_sz :: uint64
  pr_pagetable :: uint64
  pr_trapframe :: uint64
  pr_context :: proc_context
  pr_ofile :: "nat option list"
  pr_cwd :: "nat option"
  pr_name :: "byte list"

record kern =
  k_proc :: "proc list"
  k_nextpid :: int
  k_initproc :: "nat option"
  k_first :: bool
  k_ticks :: uint
  k_kf :: kfile

definition NPROC :: nat where "NPROC = 64"

definition proc_at :: "kern \<Rightarrow> nat \<Rightarrow> proc" where
  "proc_at s p = k_proc s ! p"

definition upd_proc :: "kern \<Rightarrow> nat \<Rightarrow> (proc \<Rightarrow> proc) \<Rightarrow> kern" where
  "upd_proc s p f = s\<lparr>k_proc := (k_proc s)[p := f (k_proc s ! p)]\<rparr>"

definition k_mem :: "kern \<Rightarrow> kmem" where
  "k_mem s = kf_mem (k_kf s)"

definition with_kmem :: "kern \<Rightarrow> kmem \<Rightarrow> kern" where
  "with_kmem s m = s\<lparr>k_kf := with_mem (k_kf s) m\<rparr>"

text \<open>The kernel as process \<open>p\<close> sees it, and back.\<close>

definition enter :: "kern \<Rightarrow> nat \<Rightarrow> kfile" where
  "enter s p =
     (let pr = proc_at s p; k = k_kf s;
          t = with_bc (kf_fs k) ((fs_bc (kf_fs k))\<lparr>bc_pid := pr_pid pr\<rparr>)
      in k\<lparr>kf_fs := t\<lparr>fs_pt := pr_pagetable pr, fs_cwd := (case pr_cwd pr of Some c \<Rightarrow> c | None \<Rightarrow> fs_cwd t)\<rparr>,
           kf_ofile := pr_ofile pr, kf_sz := pr_sz pr, kf_tf := pr_trapframe pr, kf_name := pr_name pr, kf_killed := pr_killed pr\<rparr>)"

definition leave :: "kern \<Rightarrow> nat \<Rightarrow> kfile \<Rightarrow> kern" where
  "leave s p k =
     upd_proc (s\<lparr>k_kf := k\<rparr>) p (\<lambda>pr. pr\<lparr>pr_pagetable := kf_pt k, pr_cwd := Some (fs_cwd (kf_fs k)), pr_ofile := kf_ofile k,
       pr_sz := kf_sz k, pr_trapframe := kf_tf k, pr_name := kf_name k\<rparr>)"

section \<open>Allocation\<close>

fun procinit_from :: "nat \<Rightarrow> proc list \<Rightarrow> proc list" where
  "procinit_from i [] = []"
| "procinit_from i (pr # prs) = pr\<lparr>pr_kstack := KSTACK i\<rparr> # procinit_from (Suc i) prs"

definition procinit :: "kern \<Rightarrow> kern" where
  "procinit s = s\<lparr>k_proc := procinit_from 0 (k_proc s)\<rparr>"

text \<open>Signed overflow of \<open>nextpid\<close> is undefined.\<close>

definition allocpid :: "kern \<Rightarrow> (int \<times> kern) outcome" where
  "allocpid s =
     (if k_nextpid s \<ge> 2 ^ 31 - 1 then Fault ''signed overflow'' else Ok (k_nextpid s, s\<lparr>k_nextpid := k_nextpid s + 1\<rparr>))"

definition proc_pagetable :: "uint64 \<Rightarrow> uint64 \<Rightarrow> kmem \<Rightarrow> uint64 \<Rightarrow> (uint64 \<times> kmem) outcome" where
  "proc_pagetable kend trampoline m tf =
     (case uvmcreate m of (pt, m) \<Rightarrow>
      if pt = 0 then Ok (0, m)
      else
        bnd (mappages m pt TRAMPOLINE PGSIZE trampoline (PTE_R OR PTE_X)) (\<lambda>(r, m).
        if r < 0 then bnd (uvmfree kend m pt 0) (\<lambda>m. Ok (0, m))
        else
          bnd (mappages m pt TRAPFRAME PGSIZE tf (PTE_R OR PTE_W)) (\<lambda>(r, m).
          if r < 0 then
            bnd (uvmunmap kend m pt TRAMPOLINE 1 False) (\<lambda>m.
            bnd (uvmfree kend m pt 0) (\<lambda>m. Ok (0, m)))
          else Ok (pt, m))))"

definition proc_freepagetable :: "uint64 \<Rightarrow> kmem \<Rightarrow> uint64 \<Rightarrow> uint64 \<Rightarrow> kmem outcome" where
  "proc_freepagetable kend m pt sz =
     bnd (uvmunmap kend m pt TRAMPOLINE 1 False) (\<lambda>m.
     bnd (uvmunmap kend m pt TRAPFRAME 1 False) (\<lambda>m.
     uvmfree kend m pt sz))"

definition freeproc :: "uint64 \<Rightarrow> kern \<Rightarrow> nat \<Rightarrow> kern outcome" where
  "freeproc kend s p =
     (let pr = proc_at s p in
      bnd (if pr_trapframe pr \<noteq> 0 then kfree kend (pr_trapframe pr) (k_mem s) else Ok (k_mem s)) (\<lambda>m.
      bnd (if pr_pagetable pr \<noteq> 0 then proc_freepagetable kend m (pr_pagetable pr) (pr_sz pr) else Ok m) (\<lambda>m.
      Ok (upd_proc (with_kmem s m) p (\<lambda>pr. pr\<lparr>pr_trapframe := 0, pr_pagetable := 0, pr_sz := 0, pr_pid := 0, pr_parent := None,
        pr_name := (pr_name pr)[0 := 0], pr_chan := None, pr_killed := False, pr_xstate := 0, pr_state := UNUSED\<rparr>)))))"

fun first_unused :: "proc list \<Rightarrow> nat option" where
  "first_unused [] = None"
| "first_unused (pr # prs) = (if pr_state pr = UNUSED then Some 0 else map_option Suc (first_unused prs))"

definition allocproc :: "uint64 \<Rightarrow> uint64 \<Rightarrow> uint64 \<Rightarrow> kern \<Rightarrow> (nat option \<times> kern) outcome" where
  "allocproc kend trampoline forkret s =
     (case first_unused (k_proc s) of
        None \<Rightarrow> Ok (None, s)
      | Some p \<Rightarrow>
          bnd (allocpid s) (\<lambda>(pid, s).
          let s = upd_proc s p (\<lambda>pr. pr\<lparr>pr_pid := pid, pr_state := USED\<rparr>) in
          case kalloc (k_mem s) of (tf, m) \<Rightarrow>
          let s = upd_proc (with_kmem s m) p (\<lambda>pr. pr\<lparr>pr_trapframe := tf\<rparr>) in
          if tf = 0 then bnd (freeproc kend s p) (\<lambda>s. Ok (None, s))
          else
            bnd (proc_pagetable kend trampoline (k_mem s) tf) (\<lambda>(pt, m).
            let s = upd_proc (with_kmem s m) p (\<lambda>pr. pr\<lparr>pr_pagetable := pt\<rparr>) in
            if pt = 0 then bnd (freeproc kend s p) (\<lambda>s. Ok (None, s))
            else
              Ok (Some p, upd_proc s p (\<lambda>pr. pr\<lparr>pr_context :=
                \<lparr>x_ra = forkret, x_sp = pr_kstack pr + PGSIZE, x_s = replicate 12 0\<rparr>\<rparr>)))))"

definition initcode :: "byte list" where
  "initcode = [
     0x17, 0x05, 0x00, 0x00, 0x13, 0x05, 0x45, 0x02,
     0x97, 0x05, 0x00, 0x00, 0x93, 0x85, 0x35, 0x02,
     0x93, 0x08, 0x70, 0x00, 0x73, 0x00, 0x00, 0x00,
     0x93, 0x08, 0x20, 0x00, 0x73, 0x00, 0x00, 0x00,
     0xef, 0xf0, 0x9f, 0xff, 0x2f, 0x69, 0x6e, 0x69,
     0x74, 0x00, 0x00, 0x24, 0x00, 0x00, 0x00, 0x00,
     0x00, 0x00, 0x00, 0x00]"

text \<open>The string \<open>initcode\<close>.\<close>

definition initname :: "byte list" where
  "initname = [0x69, 0x6E, 0x69, 0x74, 0x63, 0x6F, 0x64, 0x65, 0]"

definition set_tf :: "kern \<Rightarrow> nat \<Rightarrow> nat \<Rightarrow> uint64 \<Rightarrow> kern" where
  "set_tf s p off v =
     (let m = k_mem s; tf = pr_trapframe (proc_at s p)
      in with_kmem s (m\<lparr>km_mem := (km_mem m)(tf := put64 (km_mem m tf) off v)\<rparr>))"

definition userinit :: "uint64 \<Rightarrow> uint64 \<Rightarrow> uint64 \<Rightarrow> kern \<Rightarrow> kern outcome" where
  "userinit kend trampoline forkret s =
     bnd (allocproc kend trampoline forkret s) (\<lambda>(r, s).
     let s = s\<lparr>k_initproc := r\<rparr> in
     case r of None \<Rightarrow> Fault ''null process''
     | Some p \<Rightarrow>
         bnd (uvminit (k_mem s) (pr_pagetable (proc_at s p)) initcode) (\<lambda>m.
         let s = upd_proc (with_kmem s m) p (\<lambda>pr. pr\<lparr>pr_sz := PGSIZE\<rparr>);
             s = set_tf (set_tf s p tf_epc 0) p tf_sp PGSIZE
         in
         bnd (safestrcpy (pr_name (proc_at s p)) initname 16) (\<lambda>nm.
         bnd (on_fs' (k_kf s) (\<lambda>t. namei t [slash, 0])) (\<lambda>(cwd, k).
         Ok (upd_proc (s\<lparr>k_kf := k\<rparr>) p (\<lambda>pr. pr\<lparr>pr_name := nm, pr_cwd := cwd, pr_state := RUNNABLE\<rparr>))))))"

section \<open>Memory, fork, exit and wait\<close>

text \<open>\<open>sz\<close> is a 32-bit variable in \<open>growproc\<close>.\<close>

definition growproc :: "uint64 \<Rightarrow> kern \<Rightarrow> nat \<Rightarrow> int \<Rightarrow> (int \<times> kern) outcome" where
  "growproc kend s p n =
     (let pr = proc_at s p; sz = ucast (pr_sz pr) :: uint in
      if n > 0 then
        bnd (uvmalloc kend (k_mem s) (pr_pagetable pr) (ucast sz) (ucast (sz + of_int n))) (\<lambda>(r, m).
        let s = with_kmem s m; sz = ucast r :: uint in
        if sz = 0 then Ok (-1, s) else Ok (0, upd_proc s p (\<lambda>pr. pr\<lparr>pr_sz := ucast sz\<rparr>)))
      else if n < 0 then
        bnd (uvmdealloc kend (k_mem s) (pr_pagetable pr) (ucast sz) (ucast (sz + of_int n))) (\<lambda>(r, m).
        Ok (0, upd_proc (with_kmem s m) p (\<lambda>pr. pr\<lparr>pr_sz := ucast (ucast r :: uint)\<rparr>)))
      else Ok (0, upd_proc s p (\<lambda>pr. pr\<lparr>pr_sz := ucast sz\<rparr>)))"

text \<open>The loop of \<open>fork\<close> over the open files, with the files of the child so far.\<close>

fun fork_files :: "kfile \<Rightarrow> nat option list \<Rightarrow> nat option list \<Rightarrow> (nat option list \<times> kfile) outcome" where
  "fork_files k (f # fs) (x # xs) =
     bnd (case f of None \<Rightarrow> Ok (x, k) | Some g \<Rightarrow> bnd (filedup k g) (\<lambda>k. Ok (Some g, k))) (\<lambda>(x, k).
     bnd (fork_files k fs xs) (\<lambda>(xs, k). Ok (x # xs, k)))"
| "fork_files k _ xs = Ok (xs, k)"

definition copy_tf :: "kern \<Rightarrow> nat \<Rightarrow> nat \<Rightarrow> kern" where
  "copy_tf s np p =
     (let m = k_mem s; from = pr_trapframe (proc_at s p); to = pr_trapframe (proc_at s np)
      in with_kmem s (m\<lparr>km_mem := (km_mem m)(to := take 288 (km_mem m from) @ drop 288 (km_mem m to))\<rparr>))"

definition fork :: "uint64 \<Rightarrow> uint64 \<Rightarrow> uint64 \<Rightarrow> kern \<Rightarrow> nat \<Rightarrow> (int \<times> kern) outcome" where
  "fork kend trampoline forkret s p =
     bnd (allocproc kend trampoline forkret s) (\<lambda>(r, s).
     case r of None \<Rightarrow> Ok (-1, s)
     | Some np \<Rightarrow>
         bnd (uvmcopy kend (k_mem s) (pr_pagetable (proc_at s p)) (pr_pagetable (proc_at s np)) (pr_sz (proc_at s p))) (\<lambda>(r, m).
         let s = with_kmem s m in
         if r < 0 then bnd (freeproc kend s np) (\<lambda>s. Ok (-1, s))
         else
           let s = upd_proc s np (\<lambda>pr. pr\<lparr>pr_sz := pr_sz (proc_at s p)\<rparr>);
               s = set_tf (copy_tf s np p) np tf_a0 0
           in
           bnd (fork_files (k_kf s) (pr_ofile (proc_at s p)) (pr_ofile (proc_at s np))) (\<lambda>(os, k).
           case pr_cwd (proc_at s p) of None \<Rightarrow> Fault ''null inode''
           | Some cwd \<Rightarrow>
               let k = k\<lparr>kf_fs := idup (kf_fs k) cwd\<rparr> in
               bnd (safestrcpy (pr_name (proc_at s np)) (pr_name (proc_at s p)) 16) (\<lambda>nm.
               Ok (pr_pid (proc_at s np),
                 upd_proc (s\<lparr>k_kf := k\<rparr>) np (\<lambda>pr. pr\<lparr>pr_ofile := os, pr_cwd := Some cwd, pr_name := nm, pr_parent := Some p,
                   pr_state := RUNNABLE\<rparr>))))))"

text \<open>\<open>wakeup\<close>, called by process \<open>p\<close>.\<close>

definition wakeup :: "kern \<Rightarrow> nat \<Rightarrow> chan option \<Rightarrow> kern" where
  "wakeup s p c =
     s\<lparr>k_proc := map (\<lambda>(i, pr). if i \<noteq> p \<and> pr_state pr = SLEEPING \<and> pr_chan pr = c then pr\<lparr>pr_state := RUNNABLE\<rparr> else pr)
       (enumerate 0 (k_proc s))\<rparr>"

fun reparent_from :: "kern \<Rightarrow> nat \<Rightarrow> nat \<Rightarrow> nat \<Rightarrow> kern" where
  "reparent_from s p i 0 = s"
| "reparent_from s p i (Suc n) =
     (let s = (if pr_parent (proc_at s i) = Some p
               then wakeup (upd_proc s i (\<lambda>pr. pr\<lparr>pr_parent := k_initproc s\<rparr>)) p (map_option Chan_proc (k_initproc s)) else s)
      in reparent_from s p (Suc i) n)"

definition reparent :: "kern \<Rightarrow> nat \<Rightarrow> kern" where
  "reparent s p = reparent_from s p 0 (length (k_proc s))"

fun close_files :: "uint64 \<Rightarrow> kfile \<Rightarrow> nat \<Rightarrow> nat \<Rightarrow> kfile outcome" where
  "close_files kend k fd 0 = Ok k"
| "close_files kend k fd (Suc n) =
     bnd (case kf_ofile k ! fd of None \<Rightarrow> Ok k
          | Some f \<Rightarrow> bnd (fileclose kend k f) (\<lambda>k. Ok (k\<lparr>kf_ofile := (kf_ofile k)[fd := None]\<rparr>))) (\<lambda>k.
     close_files kend k (Suc fd) n)"

text \<open>The state in which \<open>exit\<close> calls \<open>sched\<close>, never to return.\<close>

definition exit :: "uint64 \<Rightarrow> kern \<Rightarrow> nat \<Rightarrow> int \<Rightarrow> kern outcome" where
  "exit kend s p status =
     (if k_initproc s = Some p then Panic ''init exiting''
      else
        bnd (close_files kend (enter s p) 0 NOFILE) (\<lambda>k.
        bnd (on_fs k fs_begin_op) (\<lambda>k.
        bnd (on_fs k (\<lambda>t. iput t (fs_cwd t))) (\<lambda>k.
        bnd (on_fs k fs_end_op) (\<lambda>k.
        let s = upd_proc (leave s p k) p (\<lambda>pr. pr\<lparr>pr_cwd := None\<rparr>);
            s = reparent s p;
            s = wakeup s p (map_option Chan_proc (pr_parent (proc_at s p)))
        in Ok (upd_proc s p (\<lambda>pr. pr\<lparr>pr_xstate := status, pr_state := ZOMBIE\<rparr>)))))))"

text \<open>
  One round of \<open>wait\<close>: the first zombie child from entry \<open>i\<close> on, and whether there is a child at all.
\<close>

fun find_zombie :: "proc list \<Rightarrow> nat \<Rightarrow> nat \<Rightarrow> bool \<Rightarrow> nat option \<times> bool" where
  "find_zombie [] p i kids = (None, kids)"
| "find_zombie (np # nps) p i kids =
     (if pr_parent np = Some p then
        if pr_state np = ZOMBIE then (Some i, True) else find_zombie nps p (Suc i) True
      else find_zombie nps p (Suc i) kids)"

definition wait :: "uint64 \<Rightarrow> kern \<Rightarrow> nat \<Rightarrow> uint64 \<Rightarrow> (wait \<times> kern) outcome" where
  "wait kend s p addr =
     (case find_zombie (k_proc s) p 0 False of
        (Some c, _) \<Rightarrow>
          let np = proc_at s c in
          bnd (if addr \<noteq> 0 then copyout (k_mem s) (pr_pagetable (proc_at s p)) addr (bytes_of_word 4 (of_int (pr_xstate np) :: uint))
               else Ok (0, k_mem s)) (\<lambda>(r, m).
          let s = with_kmem s m in
          if r < 0 then Ok (Ret (-1), s)
          else bnd (freeproc kend s c) (\<lambda>s. Ok (Ret (pr_pid np), s)))
      | (None, kids) \<Rightarrow>
          if \<not> kids \<or> pr_killed (proc_at s p) then Ok (Ret (-1), s) else Ok (Wait (Chan_proc p) 0, s))"

section \<open>Scheduling\<close>

text \<open>
  One round of the inner loop of \<open>scheduler\<close>: whether it switches to \<open>p\<close>.
\<close>

definition scheduler :: "kern \<Rightarrow> nat \<Rightarrow> bool \<times> kern" where
  "scheduler s p =
     (if pr_state (proc_at s p) = RUNNABLE then (True, upd_proc s p (\<lambda>pr. pr\<lparr>pr_state := RUNNING\<rparr>)) else (False, s))"

text \<open>
  \<open>sched\<close> on a CPU in state \<open>c\<close>, where \<open>held\<close> says whether the CPU holds \<open>p->lock\<close>. The result maps the state of the CPU
  on which \<open>swtch\<close> returns later to the state after \<open>sched\<close>.
\<close>

definition sched :: "bool \<Rightarrow> cpu \<Rightarrow> kern \<Rightarrow> nat \<Rightarrow> (cpu \<Rightarrow> cpu) outcome" where
  "sched held c s p =
     (if \<not> held then Panic ''sched p->lock''
      else if c_noff c \<noteq> 1 then Panic ''sched locks''
      else if pr_state (proc_at s p) = RUNNING then Panic ''sched running''
      else if c_intr c then Panic ''sched interruptible''
      else Ok (\<lambda>c'. c'\<lparr>c_intena := c_intena c\<rparr>))"

definition yield :: "kern \<Rightarrow> nat \<Rightarrow> kern" where
  "yield s p = upd_proc s p (\<lambda>pr. pr\<lparr>pr_state := RUNNABLE\<rparr>)"

text \<open>\<open>sleep\<close> up to \<open>sched\<close>, and after it.\<close>

definition sleep :: "kern \<Rightarrow> nat \<Rightarrow> chan option \<Rightarrow> kern" where
  "sleep s p c = upd_proc s p (\<lambda>pr. pr\<lparr>pr_chan := c, pr_state := SLEEPING\<rparr>)"

definition sleep_return :: "kern \<Rightarrow> nat \<Rightarrow> kern" where
  "sleep_return s p = upd_proc s p (\<lambda>pr. pr\<lparr>pr_chan := None\<rparr>)"

definition forkret :: "kern \<Rightarrow> kern outcome" where
  "forkret s =
     (if k_first s
      then bnd (on_fs (k_kf s) (\<lambda>t. fsinit t ROOTDEV)) (\<lambda>k. Ok (s\<lparr>k_first := False, k_kf := k\<rparr>))
      else Ok s)"

fun find_pid :: "proc list \<Rightarrow> int \<Rightarrow> nat option" where
  "find_pid [] pid = None"
| "find_pid (pr # prs) pid = (if pr_pid pr = pid then Some 0 else map_option Suc (find_pid prs pid))"

definition kill :: "kern \<Rightarrow> int \<Rightarrow> int \<times> kern" where
  "kill s pid =
     (case find_pid (k_proc s) pid of
        None \<Rightarrow> (-1, s)
      | Some p \<Rightarrow>
          (0, upd_proc s p (\<lambda>pr. pr\<lparr>pr_killed := True, pr_state := (if pr_state pr = SLEEPING then RUNNABLE else pr_state pr)\<rparr>)))"

text \<open>The lines \<open>procdump\<close> prints: process number, state and name.\<close>

fun state_name :: "procstate \<Rightarrow> string" where
  "state_name UNUSED = ''unused''"
| "state_name USED = ''???''"
| "state_name SLEEPING = ''sleep ''"
| "state_name RUNNABLE = ''runble''"
| "state_name RUNNING = ''run   ''"
| "state_name ZOMBIE = ''zombie''"

definition procdump :: "kern \<Rightarrow> (int \<times> string \<times> byte list) list" where
  "procdump s =
     map (\<lambda>pr. (pr_pid pr, state_name (pr_state pr), takeWhile (\<lambda>c. c \<noteq> 0) (pr_name pr)))
       (filter (\<lambda>pr. pr_state pr \<noteq> UNUSED) (k_proc s))"

end
