(* ===== verification/Proc_Lifecycle.thy ===== *)
theory Proc_Lifecycle
  imports Proc
begin

text \<open>
  Properties of the process table: what \<open>allocproc\<close> sets up, the life of a process from \<open>exit\<close> to \<open>wait\<close>, \<open>wakeup\<close> and \<open>kill\<close>.
\<close>

unbundle bit_operations_syntax

section \<open>The address space of a new process\<close>

lemma fresh_table:
  assumes "kmem_inv kend m ps" "\<forall>p. length (km_mem m p) = 4096" "km_mem m pt = replicate 4096 0" "pt \<notin> set ps"
  shows "pt_inv kend m pt ps" "lookup m pt va = None"
proof -
  have z: "pte m pt j = 0" if "j < 512" for j using pte_zero_page[OF assms(3) that] .
  have node: "node m pt is = (if is = [] then Some pt else None)" if "index_path is" for "is"
    using that by (cases rule: index_path_cases) (simp_all add: z)
  then have "table_pages m pt = {pt}" unfolding table_pages_def by (auto split: if_splits intro: PX_index_path(3))
  then show "pt_inv kend m pt ps" using assms node by (auto simp: pt_inv_def split: if_splits)
  show "lookup m pt va = None" using z[OF PX_less] by (simp add: lookup_def leaf_table_def)
qed

lemma top_pages: "TRAMPOLINE < MAXVA" "TRAPFRAME < MAXVA" "TRAMPOLINE mod 4096 = 0" "TRAPFRAME mod 4096 = 0" "TRAMPOLINE \<noteq> TRAPFRAME"
  by (simp_all add: TRAMPOLINE_def TRAPFRAME_def MAXVA_val PGSIZE_def)

lemma proc_pagetable_maps:
  assumes "kmem_inv kend m (pt # ps)" "\<forall>p. length (km_mem m p) = 4096" "4 \<le> length ps"
  shows "\<exists>m' ps'. proc_pagetable kend tr m tf = Ok (pt, m') \<and> pt_inv kend m' pt ps' \<and>
    (\<forall>va<MAXVA. lookup m' pt va =
       (if PGROUNDDOWN va = TRAMPOLINE then Some (PA2PTE tr OR (PTE_R OR PTE_X) OR PTE_V)
        else if PGROUNDDOWN va = TRAPFRAME then Some (PA2PTE tf OR (PTE_R OR PTE_W) OR PTE_V) else None))"
proof -
  have pt: "pt \<noteq> 0" "pt \<notin> set ps" using assms(1) by (auto simp: kmem_inv_def)
  obtain k where k: "kalloc m = (pt, k)" "kmem_inv kend k ps" using kalloc_pops[OF assms(1)] by blast
  have klen: "\<forall>p. length (km_mem k p) = 4096"
    using k(1) assms(2) pt(1) by (auto simp: kalloc_def fill_page_def Let_def split: if_splits)
  let ?m = "fill_page 0 pt k"
  have m: "kmem_inv kend ?m ps" by (rule kmem_inv_fill[OF k(2) pt(2)])
  have "\<forall>p. length (km_mem ?m p) = 4096" "km_mem ?m pt = replicate 4096 0" using klen by (simp_all add: fill_page_def)
  note f = fresh_table[OF m this pt(2)]
  have u: "uvmcreate m = (pt, ?m)" using k(1) pt(1) by (simp add: uvmcreate_def)
  obtain m1 ps1 where m1: "mappages ?m pt TRAMPOLINE PGSIZE tr (PTE_R OR PTE_X) = Ok (0, m1)" "pt_inv kend m1 pt ps1" "2 \<le> length ps1"
      "\<forall>va<MAXVA. lookup m1 pt va = (if PGROUNDDOWN va = TRAMPOLINE then Some (PA2PTE tr OR (PTE_R OR PTE_X) OR PTE_V) else None)"
    using mappages_page[OF f(1) top_pages(1,3) f(2), of tr "PTE_R OR PTE_X"] assms(3) f(2) by auto
  have d: "PGROUNDDOWN TRAPFRAME = TRAPFRAME" by (rule PGROUNDDOWN_page(1)[OF top_pages(2,4)])
  have "lookup m1 pt TRAPFRAME = None" using m1(4)[rule_format, OF top_pages(2)] d top_pages(5) by simp
  then obtain m2 ps2 where m2: "mappages m1 pt TRAPFRAME PGSIZE tf (PTE_R OR PTE_W) = Ok (0, m2)" "pt_inv kend m2 pt ps2"
      "\<forall>va<MAXVA. lookup m2 pt va = (if PGROUNDDOWN va = TRAPFRAME then Some (PA2PTE tf OR (PTE_R OR PTE_W) OR PTE_V) else lookup m1 pt va)"
    using mappages_page[OF m1(2) top_pages(2,4), of tf "PTE_R OR PTE_W"] m1(3) by auto
  have "proc_pagetable kend tr m tf = Ok (pt, m2)" using u pt(1) m1(1) m2(1) by (simp add: proc_pagetable_def)
  moreover have "lookup m2 pt va =
       (if PGROUNDDOWN va = TRAMPOLINE then Some (PA2PTE tr OR (PTE_R OR PTE_X) OR PTE_V)
        else if PGROUNDDOWN va = TRAPFRAME then Some (PA2PTE tf OR (PTE_R OR PTE_W) OR PTE_V) else None)" if "va < MAXVA" for va
    using m1(4)[rule_format, OF that] m2(3)[rule_format, OF that] top_pages(5) by auto
  ultimately show ?thesis using m2(2) by blast
qed

section \<open>Sleeping and waking\<close>

lemma wakeup_at:
  "i < length (k_proc s) \<Longrightarrow> proc_at (wakeup s p c) i =
    (let pr = proc_at s i in if i \<noteq> p \<and> pr_state pr = SLEEPING \<and> pr_chan pr = c then pr\<lparr>pr_state := RUNNABLE\<rparr> else pr)"
  by (simp add: wakeup_def proc_at_def nth_enumerate_eq Let_def)

lemma wakeup_simps [simp]:
  "length (k_proc (wakeup s p c)) = length (k_proc s)" "k_initproc (wakeup s p c) = k_initproc s" "k_kf (wakeup s p c) = k_kf s"
  by (simp_all add: wakeup_def)

lemma upd_proc_simps [simp]:
  "length (k_proc (upd_proc s p f)) = length (k_proc s)" "k_initproc (upd_proc s p f) = k_initproc s" "k_kf (upd_proc s p f) = k_kf s"
  "i < length (k_proc s) \<Longrightarrow> proc_at (upd_proc s p f) i = (if i = p then f (proc_at s p) else proc_at s i)"
  by (simp_all add: upd_proc_def proc_at_def nth_list_update)

text \<open>Entry \<open>i\<close> after \<open>reparent\<close>, where \<open>kids\<close> says whether there is a child.\<close>

definition adopted :: "nat \<Rightarrow> nat \<Rightarrow> bool \<Rightarrow> bool \<Rightarrow> nat \<Rightarrow> proc \<Rightarrow> proc" where
  "adopted p q kids here i pr =
     (let pr = (if here \<and> pr_parent pr = Some p then pr\<lparr>pr_parent := Some q\<rparr> else pr)
      in if kids \<and> i \<noteq> p \<and> pr_state pr = SLEEPING \<and> pr_chan pr = Some (Chan_proc q) then pr\<lparr>pr_state := RUNNABLE\<rparr> else pr)"

lemma adopted_parent: "pr_parent (adopted p q kids here i pr) = (if here \<and> pr_parent pr = Some p then Some q else pr_parent pr)"
  by (auto simp: adopted_def Let_def)

definition has_child :: "kern \<Rightarrow> nat \<Rightarrow> nat \<Rightarrow> nat \<Rightarrow> bool" where
  "has_child s p j n \<longleftrightarrow> (\<exists>k\<in>{j..<j + n}. pr_parent (proc_at s k) = Some p)"

lemma has_child_Suc: "has_child s p j (Suc n) \<longleftrightarrow> pr_parent (proc_at s j) = Some p \<or> has_child s p (Suc j) n"
proof -
  have "{j..<j + Suc n} = insert j {Suc j..<Suc j + n}" by auto
  then show ?thesis by (simp add: has_child_def)
qed

lemma reparent_from_at:
  assumes "j + n \<le> length (k_proc s)" "k_initproc s = Some q" "i < length (k_proc s)"
  shows "proc_at (reparent_from s p j n) i = adopted p q (has_child s p j n) (j \<le> i \<and> i < j + n) i (proc_at s i)"
  using assms
proof (induction n arbitrary: s j)
  case 0
  then show ?case by (simp add: adopted_def has_child_def Let_def)
next
  case (Suc n)
  let ?s = "if pr_parent (proc_at s j) = Some p
    then wakeup (upd_proc s j (\<lambda>pr. pr\<lparr>pr_parent := k_initproc s\<rparr>)) p (map_option Chan_proc (k_initproc s)) else s"
  have at: "proc_at ?s k = adopted p q (pr_parent (proc_at s j) = Some p) (k = j) k (proc_at s k)" if "k < length (k_proc s)" for k
    using that Suc.prems(2) by (auto simp: wakeup_at Let_def adopted_def)
  have par: "pr_parent (proc_at ?s k) = pr_parent (proc_at s k)" if "k < length (k_proc s)" "k \<noteq> j" for k
    using at[OF that(1)] that(2) by (simp add: adopted_def Let_def)
  have kids: "has_child ?s p (Suc j) n = has_child s p (Suc j) n"
    unfolding has_child_def using par Suc.prems(1) by (intro bex_cong refl) auto
  have "proc_at (reparent_from s p j (Suc n)) i = adopted p q (has_child s p (Suc j) n) (Suc j \<le> i \<and> i < Suc j + n) i (proc_at ?s i)"
    using Suc.IH[of "Suc j" ?s] Suc.prems kids by (simp add: Let_def)
  also have "\<dots> = adopted p q (has_child s p j (Suc n)) (j \<le> i \<and> i < j + Suc n) i (proc_at s i)"
    unfolding at[OF Suc.prems(3)] has_child_Suc
    by (cases "pr_parent (proc_at s j) = Some p"; cases "has_child s p (Suc j) n"; cases "i = j") (auto simp: adopted_def Let_def)
  finally show ?case .
qed

lemma reparent_from_simps [simp]:
  "length (k_proc (reparent_from s p j n)) = length (k_proc s)" "k_initproc (reparent_from s p j n) = k_initproc s"
  "k_kf (reparent_from s p j n) = k_kf s"
  by (induction n arbitrary: s j) (simp_all add: Let_def)

lemma leave_at: "i < length (k_proc s) \<Longrightarrow> proc_at (leave s c k) i = (if i = c then (proc_at s c)\<lparr>pr_pagetable := kf_pt k,
    pr_cwd := Some (fs_cwd (kf_fs k)), pr_ofile := kf_ofile k, pr_sz := kf_sz k, pr_trapframe := kf_tf k, pr_name := kf_name k\<rparr> else proc_at s i)"
  by (simp add: leave_def upd_proc_def proc_at_def nth_list_update)

lemma leave_simps [simp]: "length (k_proc (leave s c k)) = length (k_proc s)" "k_initproc (leave s c k) = k_initproc s"
  by (simp_all add: leave_def upd_proc_def)

text \<open>The process table after \<open>exit\<close>.\<close>

lemma exit_table:
  assumes "exit kend s c status = Ok s'" "k_initproc s = Some q"
  obtains s1 where "s' = upd_proc (wakeup (reparent s1 c) c (map_option Chan_proc (pr_parent (proc_at (reparent s1 c) c)))) c
      (\<lambda>pr. pr\<lparr>pr_xstate := status, pr_state := ZOMBIE\<rparr>)"
    "length (k_proc s1) = length (k_proc s)" "k_initproc s1 = Some q" "q \<noteq> c"
    "\<And>i. i < length (k_proc s) \<Longrightarrow> i \<noteq> c \<Longrightarrow> proc_at s1 i = proc_at s i"
    "c < length (k_proc s) \<Longrightarrow> pr_parent (proc_at s1 c) = pr_parent (proc_at s c)"
proof -
  obtain k where k: "s' = (let s = upd_proc (leave s c k) c (\<lambda>pr. pr\<lparr>pr_cwd := None\<rparr>); s = reparent s c;
            s = wakeup s c (map_option Chan_proc (pr_parent (proc_at s c)))
        in upd_proc s c (\<lambda>pr. pr\<lparr>pr_xstate := status, pr_state := ZOMBIE\<rparr>))" "k_initproc s \<noteq> Some c"
    using assms(1) by (auto simp: exit_def Let_def split: if_splits)
  show thesis
    by (rule that[of "upd_proc (leave s c k) c (\<lambda>pr. pr\<lparr>pr_cwd := None\<rparr>)"]) (use k assms(2) in \<open>auto simp: Let_def leave_at\<close>)
qed

lemma find_zombie_finds:
  "j < length prs \<Longrightarrow> pr_parent (prs ! j) = Some p \<Longrightarrow> pr_state (prs ! j) = ZOMBIE \<Longrightarrow> fst (find_zombie prs p i kids) \<noteq> None"
proof (induction prs arbitrary: i j kids)
  case (Cons pr prs)
  then show ?case by (cases j) auto
qed simp

lemma wait_returns_with_zombie:
  assumes "fst (find_zombie (k_proc s) p 0 False) \<noteq> None"
  shows "wait kend s p addr \<noteq> Ok (Wait ch n, t)"
  using assms by (auto simp: wait_def Let_def split: prod.splits option.splits if_splits)

section \<open>Properties of exit, wait and wakeup\<close>

text \<open>
  C20: When a child \<open>c\<close> of \<open>p\<close> exits, it becomes a zombie with its exit status; its own children belong to init
  afterwards; its parent, if it slept in \<open>wait\<close>, is runnable again; and the parent's next round of \<open>wait\<close> does not sleep,
  so the exit is not missed.
\<close>

theorem exit_reaches_waiting_parent:
  assumes "exit kend s c status = Ok s'" "k_initproc s = Some q" "c < length (k_proc s)"
    and "pr_parent (proc_at s c) = Some p" "p < length (k_proc s)" "p \<noteq> c"
  shows "pr_state (proc_at s' c) = ZOMBIE \<and> pr_xstate (proc_at s' c) = status \<and> pr_parent (proc_at s' c) = Some p \<and>
    (\<forall>i<length (k_proc s). pr_parent (proc_at s' i) \<noteq> Some c \<and> (pr_parent (proc_at s i) = Some c \<longrightarrow> pr_parent (proc_at s' i) = Some q)) \<and>
    \<not> (pr_state (proc_at s' p) = SLEEPING \<and> pr_chan (proc_at s' p) = Some (Chan_proc p)) \<and>
    (\<forall>addr ch n t. wait kend s' p addr \<noteq> Ok (Wait ch n, t))"
proof -
  obtain s1 where s': "s' = upd_proc (wakeup (reparent s1 c) c (map_option Chan_proc (pr_parent (proc_at (reparent s1 c) c)))) c
      (\<lambda>pr. pr\<lparr>pr_xstate := status, pr_state := ZOMBIE\<rparr>)"
    and len: "length (k_proc s1) = length (k_proc s)" and q: "k_initproc s1 = Some q" "q \<noteq> c"
    and s1: "\<And>i. i < length (k_proc s) \<Longrightarrow> i \<noteq> c \<Longrightarrow> proc_at s1 i = proc_at s i" "pr_parent (proc_at s1 c) = Some p"
    using exit_table[OF assms(1,2)] assms(3,4) by metis
  have par1: "pr_parent (proc_at s1 i) = pr_parent (proc_at s i)" if "i < length (k_proc s)" for i
    using s1 that assms(4) by (cases "i = c") auto
  have r: "proc_at (reparent s1 c) i = adopted c q (has_child s1 c 0 (length (k_proc s))) True i (proc_at s1 i)"
    if "i < length (k_proc s)" for i
    unfolding reparent_def using reparent_from_at[of 0 "length (k_proc s1)" s1 q i c] len q(1) that by simp
  have len2: "length (k_proc (reparent s1 c)) = length (k_proc s)" using len by (simp add: reparent_def)
  have pc: "pr_parent (proc_at (reparent s1 c) c) = Some p" using r[OF assms(3)] s1(2) assms(6) by (simp add: adopted_parent)
  have at: "proc_at s' i = (let pr = proc_at (reparent s1 c) i in if i = c then pr\<lparr>pr_xstate := status, pr_state := ZOMBIE\<rparr>
      else if pr_state pr = SLEEPING \<and> pr_chan pr = Some (Chan_proc p) then pr\<lparr>pr_state := RUNNABLE\<rparr> else pr)"
    if "i < length (k_proc s)" for i
    using that assms(3) len2 pc unfolding s' by (simp add: wakeup_at Let_def)
  have par: "pr_parent (proc_at s' i) = (if pr_parent (proc_at s i) = Some c then Some q else pr_parent (proc_at s i))"
    if "i < length (k_proc s)" for i
  proof -
    have "pr_parent (proc_at s' i) = pr_parent (proc_at (reparent s1 c) i)" using at[OF that] by (simp add: Let_def)
    then show ?thesis using r[OF that] par1[OF that] by (simp add: adopted_parent)
  qed
  have c: "pr_state (proc_at s' c) = ZOMBIE" "pr_xstate (proc_at s' c) = status" using at[OF assms(3)] by (simp_all add: Let_def)
  have "length (k_proc s') = length (k_proc s)" unfolding s' using len2 by simp
  then have "fst (find_zombie (k_proc s') p 0 False) \<noteq> None"
    using find_zombie_finds[of c "k_proc s'" p 0 False] c(1) par[OF assms(3)] assms(3,4,6) by (simp add: proc_at_def)
  moreover have "\<not> (pr_state (proc_at s' p) = SLEEPING \<and> pr_chan (proc_at s' p) = Some (Chan_proc p))"
    using at[OF assms(5)] assms(6) by (auto simp: Let_def)
  ultimately show ?thesis using c par assms(3,4,6) q(2) wait_returns_with_zombie[of s' p] by auto
qed

text \<open>
  C23: \<open>growproc\<close> computes the new size in 32 bits. A request that shrinks below zero, or grows past the
  range, wraps around: the call reports success and changes neither the size nor the memory.
\<close>

theorem growproc_wraps_silently:
  assumes "unat (pr_sz (proc_at s p)) < 2 ^ 32" "pr_sz (proc_at s p) \<noteq> 0" "- (2 ^ 31) \<le> n" "n < 2 ^ 31"
    and "int (unat (pr_sz (proc_at s p))) + n < 0 \<or> int (unat (pr_sz (proc_at s p))) + n \<ge> 2 ^ 32"
  shows "growproc kend s p n = Ok (0, s)"
proof -
  let ?sz = "ucast (pr_sz (proc_at s p)) :: uint" and ?n = "unat (pr_sz (proc_at s p))"
  have sz: "ucast ?sz = pr_sz (proc_at s p)" "uint ?sz = int ?n"
  proof -
    have "int ?n < int (2 ^ 32)" using assms(1) by (simp only: of_nat_less_iff)
    then have "take_bit 32 (uint (pr_sz (proc_at s p))) = uint (pr_sz (proc_at s p))" by (simp add: take_bit_int_eq_self)
    then show "ucast ?sz = pr_sz (proc_at s p)" "uint ?sz = int ?n"
      by (simp_all add: word_uint_eq_iff unsigned_ucast_eq unsigned_take_bit_eq)
  qed
  have id: "upd_proc s p (\<lambda>pr. pr\<lparr>pr_sz := pr_sz (proc_at s p)\<rparr>) = s" by (simp add: upd_proc_def proc_at_def)
  have kf: "with_kmem s (k_mem s) = s" by (simp add: with_kmem_def k_mem_def with_mem_def kf_mem_def)
  have new: "uint (?sz + of_int n) = (int ?n + n) mod 2 ^ 32" by (simp add: uint_word_ariths(1) sz(2) uint_word_of_int mod_simps)
  have pw: "(2 :: int) ^ 32 = 4294967296" "(2 :: int) ^ 31 = 2147483648" by simp_all
  show ?thesis
  proof (cases "n < 0")
    case True
    have "int ?n < int (2 ^ 32)" using assms(1) by (simp only: of_nat_less_iff)
    then have r: "0 \<le> int ?n + n + 2 ^ 32" "int ?n + n + 2 ^ 32 < 2 ^ 32" using True assms(3,5) of_nat_0_le_iff[of ?n] by (simp_all only: pw of_nat_power of_nat_numeral) linarith+
    have "(int ?n + n) mod 2 ^ 32 = (int ?n + n + 2 ^ 32) mod 2 ^ 32" by simp
    also have "\<dots> = int ?n + n + 2 ^ 32" by (rule mod_pos_pos_trivial[OF r])
    finally have "\<not> uint (?sz + of_int n) < uint ?sz" using new sz(2) assms(3) by simp
    then have "(ucast ?sz :: uint64) \<le> ucast (?sz + of_int n)" by (simp add: word_le_def uint_up_ucast is_up)
    then have "uvmdealloc kend (k_mem s) (pr_pagetable (proc_at s p)) (ucast ?sz) (ucast (?sz + of_int n)) = Ok (ucast ?sz, k_mem s)"
      by (simp add: uvmdealloc_def)
    then show ?thesis using True sz(1) id kf by (simp add: growproc_def Let_def)
  next
    case False
    have lt: "int ?n < int (2 ^ 32)" using assms(1) by (simp only: of_nat_less_iff)
    then have n: "n > 0" using False assms(5) by (simp only: pw of_nat_power of_nat_numeral) linarith
    from lt have r: "0 \<le> int ?n + n - 2 ^ 32" "int ?n + n - 2 ^ 32 < 2 ^ 32" using n assms(4,5) by (simp_all only: pw of_nat_power of_nat_numeral) linarith+
    have "(int ?n + n) mod 2 ^ 32 = (int ?n + n - 2 ^ 32) mod 2 ^ 32" by simp
    also have "\<dots> = int ?n + n - 2 ^ 32" by (rule mod_pos_pos_trivial[OF r])
    finally have "uint (?sz + of_int n) < uint ?sz" using new sz(2) assms(4) by simp
    then have "(ucast (?sz + of_int n) :: uint64) < ucast ?sz" by (simp add: word_less_def uint_up_ucast is_up)
    then have "uvmalloc kend (k_mem s) (pr_pagetable (proc_at s p)) (ucast ?sz) (ucast (?sz + of_int n)) = Ok (ucast ?sz, k_mem s)"
      by (simp add: uvmalloc_def)
    moreover have "?sz \<noteq> 0" using assms(2) sz(1) by auto
    ultimately show ?thesis using n sz(1) id kf by (simp add: growproc_def Let_def)
  qed
qed

section \<open>Allocation and kill\<close>

lemma first_unused_spec:
  "first_unused prs = Some p \<Longrightarrow> p < length prs \<and> pr_state (prs ! p) = UNUSED"
  by (induction prs arbitrary: p) (auto split: if_splits)

lemma first_unused_update:
  "first_unused prs = Some p \<Longrightarrow> pr_state pr = UNUSED \<Longrightarrow> first_unused (prs[p := pr]) = Some p"
  by (induction prs arbitrary: p) (auto split: if_splits)

lemma find_pid_first:
  "p < length prs \<Longrightarrow> pr_pid (prs ! p) = pid \<Longrightarrow> (\<forall>i<p. pr_pid (prs ! i) \<noteq> pid) \<Longrightarrow> find_pid prs pid = Some p"
proof (induction prs arbitrary: p)
  case (Cons pr prs)
  show ?case
  proof (cases p)
    case (Suc q)
    have "\<forall>i<q. pr_pid (prs ! i) \<noteq> pid" using Cons.prems(3) Suc by (metis Suc_less_eq nth_Cons_Suc)
    then show ?thesis using Cons Suc by auto
  qed (use Cons.prems in simp)
qed simp

lemma with_kmem_simps [simp]: "k_mem (with_kmem s m) = m" "k_proc (with_kmem s m) = k_proc s" "k_initproc (with_kmem s m) = k_initproc s"
  "proc_at (with_kmem s m) i = proc_at s i" "proc_at (s\<lparr>k_nextpid := n\<rparr>) i = proc_at s i"
  by (simp_all add: k_mem_def with_kmem_def kf_mem_def with_mem_def proc_at_def)

lemma upd_proc_mem [simp]: "k_mem (upd_proc s p f) = k_mem s" "k_mem (s\<lparr>k_nextpid := n\<rparr>) = k_mem s"
  by (simp_all add: k_mem_def upd_proc_def)

lemma allocproc_succeeds:
  assumes "first_unused (k_proc s) = Some p" "kmem_inv kend (k_mem s) (tf # pt # ps)" "\<forall>a. length (km_mem (k_mem s) a) = 4096"
    and "4 \<le> length ps" "k_nextpid s < 2 ^ 31 - 1"
  shows "\<exists>s'. allocproc kend tr fr s = Ok (Some p, s') \<and> (\<forall>i<length (k_proc s). i \<noteq> p \<longrightarrow> proc_at s' i = proc_at s i) \<and>
    proc_at s' p = (proc_at s p)\<lparr>pr_pid := k_nextpid s, pr_state := USED, pr_trapframe := tf, pr_pagetable := pt,
      pr_context := \<lparr>x_ra = fr, x_sp = pr_kstack (proc_at s p) + PGSIZE, x_s = replicate 12 0\<rparr>\<rparr> \<and>
    (\<forall>va<MAXVA. lookup (k_mem s') pt va =
       (if PGROUNDDOWN va = TRAMPOLINE then Some (PA2PTE tr OR (PTE_R OR PTE_X) OR PTE_V)
        else if PGROUNDDOWN va = TRAPFRAME then Some (PA2PTE tf OR (PTE_R OR PTE_W) OR PTE_V) else None))"
proof -
  have p: "p < length (k_proc s)" using first_unused_spec[OF assms(1)] by simp
  have nz: "tf \<noteq> 0" "pt \<noteq> 0" using assms(2) by (auto simp: kmem_inv_def)
  obtain m where m: "kalloc (k_mem s) = (tf, m)" "kmem_inv kend m (pt # ps)" using kalloc_pops[OF assms(2)] by blast
  have "\<forall>a. length (km_mem m a) = 4096" using m(1) assms(3) nz(1) by (auto simp: kalloc_def fill_page_def Let_def split: if_splits)
  then obtain m' where m': "proc_pagetable kend tr m tf = Ok (pt, m')"
    "\<forall>va<MAXVA. lookup m' pt va =
       (if PGROUNDDOWN va = TRAMPOLINE then Some (PA2PTE tr OR (PTE_R OR PTE_X) OR PTE_V)
        else if PGROUNDDOWN va = TRAPFRAME then Some (PA2PTE tf OR (PTE_R OR PTE_W) OR PTE_V) else None)"
    using proc_pagetable_maps[OF m(2) _ assms(4)] by blast
  let ?s1 = "upd_proc (s\<lparr>k_nextpid := k_nextpid s + 1\<rparr>) p (\<lambda>pr. pr\<lparr>pr_pid := k_nextpid s, pr_state := USED\<rparr>)"
  let ?s2 = "upd_proc (with_kmem ?s1 m) p (\<lambda>pr. pr\<lparr>pr_trapframe := tf\<rparr>)"
  let ?s3 = "upd_proc (with_kmem ?s2 m') p (\<lambda>pr. pr\<lparr>pr_pagetable := pt\<rparr>)"
  let ?s4 = "upd_proc ?s3 p (\<lambda>pr. pr\<lparr>pr_context := \<lparr>x_ra = fr, x_sp = pr_kstack pr + PGSIZE, x_s = replicate 12 0\<rparr>\<rparr>)"
  have a: "allocproc kend tr fr s = Ok (Some p, ?s4)"
    using assms(1,5) m(1) m'(1) nz by (simp add: allocproc_def allocpid_def Let_def del: bnd_Ok_iff)
  have "k_mem ?s4 = m'" by simp
  then show ?thesis unfolding a using p m'(2) by (intro exI[of _ ?s4]) simp
qed

lemma PA2PTE_flags: "PA2PTE pa AND PTE_U = 0"
proof -
  have u: "PTE_U = push_bit 4 1" by (simp add: PTE_U_def)
  show ?thesis unfolding PA2PTE_def u by (intro bit_word_eqI) (simp only: bit_and_iff bit_push_bit_iff bit_1_iff bit_0_eq bot_apply, auto)
qed

text \<open>
  C21: With an unused entry and free memory, \<open>allocproc\<close> succeeds. It changes no other entry, gives the new process a fresh process
  number, and builds an address space that maps exactly the trampoline and the process's own trapframe, neither
  accessible from user mode.
\<close>

theorem allocproc_builds_isolated_process:
  assumes "first_unused (k_proc s) = Some p" "kmem_inv kend (k_mem s) (tf # pt # ps)" "\<forall>a. length (km_mem (k_mem s) a) = 4096"
    and "4 \<le> length ps" "k_nextpid s < 2 ^ 31 - 1"
  shows "\<exists>s'. allocproc kend tr fr s = Ok (Some p, s') \<and> (\<forall>i<length (k_proc s). i \<noteq> p \<longrightarrow> proc_at s' i = proc_at s i) \<and>
    pr_state (proc_at s' p) = USED \<and> pr_pid (proc_at s' p) = k_nextpid s \<and> pr_pagetable (proc_at s' p) = pt \<and>
    pr_trapframe (proc_at s' p) = tf \<and>
    (\<forall>va<MAXVA. lookup (k_mem s') pt va \<noteq> None \<longleftrightarrow> PGROUNDDOWN va \<in> {TRAMPOLINE, TRAPFRAME}) \<and>
    lookup (k_mem s') pt TRAPFRAME = Some (PA2PTE tf OR (PTE_R OR PTE_W) OR PTE_V) \<and>
    (\<forall>va. frame (k_mem s') pt va = 0)"
proof -
  obtain s' where s': "allocproc kend tr fr s = Ok (Some p, s')" "\<forall>i<length (k_proc s). i \<noteq> p \<longrightarrow> proc_at s' i = proc_at s i"
    "proc_at s' p = (proc_at s p)\<lparr>pr_pid := k_nextpid s, pr_state := USED, pr_trapframe := tf, pr_pagetable := pt,
      pr_context := \<lparr>x_ra = fr, x_sp = pr_kstack (proc_at s p) + PGSIZE, x_s = replicate 12 0\<rparr>\<rparr>" and
    l: "\<And>va. va < MAXVA \<Longrightarrow> lookup (k_mem s') pt va =
       (if PGROUNDDOWN va = TRAMPOLINE then Some (PA2PTE tr OR (PTE_R OR PTE_X) OR PTE_V)
        else if PGROUNDDOWN va = TRAPFRAME then Some (PA2PTE tf OR (PTE_R OR PTE_W) OR PTE_V) else None)"
    using allocproc_succeeds[OF assms] by blast
  have u: "(PA2PTE a OR (PTE_R OR PTE_X) OR PTE_V) AND PTE_U = 0" "(PA2PTE a OR (PTE_R OR PTE_W) OR PTE_V) AND PTE_U = 0" for a
    by (simp_all add: bit.conj_disj_distrib2 PA2PTE_flags) (simp_all add: PTE_R_def PTE_X_def PTE_W_def PTE_V_def PTE_U_def)
  have "frame (k_mem s') pt va = 0" for va using l[of va] u by (simp add: frame_def not_le)
  moreover have "PGROUNDDOWN TRAPFRAME = TRAPFRAME" by (rule PGROUNDDOWN_page(1)[OF top_pages(2,4)])
  then have "lookup (k_mem s') pt TRAPFRAME = Some (PA2PTE tf OR (PTE_R OR PTE_W) OR PTE_V)" using l[OF top_pages(2)] top_pages(5) by simp
  ultimately show ?thesis using s' l by auto
qed

text \<open>
  C22: \<open>kill(0)\<close> succeeds, because unused entries have process number 0: it marks the first unused entry as killed. \<open>allocproc\<close> does not
  clear the mark, so the next process to be created is killed from the start.
\<close>

theorem kill_zero_poisons_next_process:
  assumes "first_unused (k_proc s) = Some p" "pr_pid (proc_at s p) = 0" "\<forall>i<p. pr_pid (proc_at s i) \<noteq> 0"
    and "kmem_inv kend (k_mem s) (tf # pt # ps)" "\<forall>a. length (km_mem (k_mem s) a) = 4096" "4 \<le> length ps" "k_nextpid s < 2 ^ 31 - 1"
  shows "\<exists>s1 s2. kill s 0 = (0, s1) \<and> allocproc kend tr fr s1 = Ok (Some p, s2) \<and> pr_killed (proc_at s2 p)"
proof -
  let ?s = "upd_proc s p (\<lambda>pr. pr\<lparr>pr_killed := True, pr_state := (if pr_state pr = SLEEPING then RUNNABLE else pr_state pr)\<rparr>)"
  have p: "p < length (k_proc s)" "pr_state (k_proc s ! p) = UNUSED" using first_unused_spec[OF assms(1)] by simp_all
  have "kill s 0 = (0, ?s)" using find_pid_first[OF p(1), of 0] assms(2,3) by (simp add: kill_def proc_at_def)
  moreover have "first_unused (k_proc ?s) = Some p"
    using assms(1) p(2) by (simp add: upd_proc_def first_unused_update)
  moreover have "k_nextpid ?s = k_nextpid s" "proc_at ?s p = (proc_at s p)\<lparr>pr_killed := True\<rparr>"
    using p by (simp_all add: upd_proc_def proc_at_def)
  ultimately show ?thesis using allocproc_succeeds[of ?s p kend tf pt ps tr fr] assms(4-7) by auto
qed

section \<open>Witnesses\<close>

text \<open>
  A machine with init asleep in \<open>wait\<close>, its running child and an unused entry, an idle log, one inode and six free pages.
\<close>

definition ex_bcache :: bcache where
  "ex_bcache = \<lparr>bc_buf = [], bc_head_prev = Head, bc_head_next = Head, bc_disk = \<lambda>_. [], bc_writes = [], bc_pid = 0\<rparr>"

definition ex_inode :: inode where
  "ex_inode = \<lparr>i_dev = 1, i_inum = 1, i_ref = 2, i_lock = initsleeplock, i_valid = True, i_type = 1, i_major = 0, i_minor = 0,
     i_nlink = 1, i_size = 0, i_addrs = replicate 13 0\<rparr>"

definition ex_pages :: kmem where
  "ex_pages = \<lparr>km_mem = (\<lambda>_. replicate 4096 0)(
     0x87f00000 := put64 (replicate 4096 0) 0 0x87f01000, 0x87f01000 := put64 (replicate 4096 0) 0 0x87f02000,
     0x87f02000 := put64 (replicate 4096 0) 0 0x87f03000, 0x87f03000 := put64 (replicate 4096 0) 0 0x87f04000,
     0x87f04000 := put64 (replicate 4096 0) 0 0x87f05000), km_freelist = 0x87f00000\<rparr>"

definition ex_proc :: "procstate \<Rightarrow> int \<Rightarrow> nat option \<Rightarrow> proc" where
  "ex_proc st pid par = \<lparr>pr_state = st, pr_chan = Some (Chan_proc 0), pr_killed = False, pr_xstate = 0, pr_pid = pid, pr_parent = par,
     pr_kstack = 0, pr_sz = 4096, pr_pagetable = 0, pr_trapframe = 0, pr_context = \<lparr>x_ra = 0, x_sp = 0, x_s = []\<rparr>,
     pr_ofile = replicate 16 None, pr_cwd = Some 0, pr_name = []\<rparr>"

definition ex_kern :: kern where
  "ex_kern = \<lparr>k_proc = [ex_proc SLEEPING 1 None, ex_proc RUNNING 2 (Some 0), ex_proc UNUSED 0 None], k_nextpid = 3, k_initproc = Some 0,
     k_first = False, k_ticks = 0,
     k_kf = \<lparr>kf_fs = \<lparr>fs_log = \<lparr>lg_bc = ex_bcache, lg_start = 2, lg_size = 30, lg_outstanding = 0, lg_committing = False,
         lg_dev = 1, lg_n = 0, lg_block = replicate 30 0\<rparr>, fs_sb = \<lparr>sb_magic = 0, sb_size = 0, sb_nblocks = 0, sb_ninodes = 0,
         sb_nlog = 0, sb_logstart = 0, sb_inodestart = 0, sb_bmapstart = 0\<rparr>, fs_inode = [ex_inode], fs_mem = ex_pages, fs_pt = 0, fs_cwd = 0\<rparr>,
       kf_file = [], kf_pipe = \<lambda>_. None, kf_ofile = [], kf_sz = 0, kf_tf = 0, kf_name = [], kf_killed = False\<rparr>\<rparr>"

lemma ex_exit: "\<exists>s'. exit 0 ex_kern 1 7 = Ok s'"
  by (simp add: exit_def ex_kern_def ex_proc_def enter_def proc_at_def NOFILE_def numeral_eq_Suc Let_def on_fs_def fs_begin_op_def
      begin_op_def MAXOPBLOCKS_def LOGSIZE_def fs_end_op_def end_op_def commit_def iput_def inode_at_def upd_inode_def with_bc_def fs_bc_def
      ex_inode_def)

theorem exit_reaches_waiting_parent_witness:
  "\<exists>s'. exit 0 ex_kern 1 7 = Ok s' \<and> pr_state (proc_at s' 1) = ZOMBIE \<and> pr_xstate (proc_at s' 1) = 7 \<and>
     \<not> (pr_state (proc_at s' 0) = SLEEPING \<and> pr_chan (proc_at s' 0) = Some (Chan_proc 0))"
proof -
  obtain s' where s': "exit 0 ex_kern 1 7 = Ok s'" using ex_exit by blast
  have h: "k_initproc ex_kern = Some 0" "1 < length (k_proc ex_kern)" "pr_parent (proc_at ex_kern 1) = Some 0"
    "0 < length (k_proc ex_kern)" "(0 :: nat) \<noteq> 1" by (simp_all add: ex_kern_def ex_proc_def proc_at_def)
  show ?thesis using s' exit_reaches_waiting_parent[OF s' h] by blast
qed

lemma ex_kern_alloc: "first_unused (k_proc ex_kern) = Some 2" "kmem_inv 0x80020000 (k_mem ex_kern)
    (0x87f00000 # 0x87f01000 # [0x87f02000, 0x87f03000, 0x87f04000, 0x87f05000])"
  "\<forall>a. length (km_mem (k_mem ex_kern) a) = 4096" "4 \<le> length [0x87f02000, 0x87f03000, 0x87f04000, 0x87f05000 :: uint64]"
  "k_nextpid ex_kern < 2 ^ 31 - 1"
proof -
  have m: "k_mem ex_kern = ex_pages" by (simp add: k_mem_def kf_mem_def ex_kern_def)
  show "kmem_inv 0x80020000 (k_mem ex_kern) (0x87f00000 # 0x87f01000 # [0x87f02000, 0x87f03000, 0x87f04000, 0x87f05000])"
    unfolding m by (simp add: kmem_inv_def ex_pages_def page_ok_def PGSIZE_def PHYSTOP_val run_next_def get_le_zero)
  show "\<forall>a. length (km_mem (k_mem ex_kern) a) = 4096" unfolding m by (simp add: ex_pages_def)
qed (simp_all add: ex_kern_def ex_proc_def)

theorem allocproc_builds_isolated_process_witness:
  "\<exists>s'. allocproc 0x80020000 0x80007000 0 ex_kern = Ok (Some 2, s') \<and> pr_pid (proc_at s' 2) = 3 \<and> frame (k_mem s') 0x87f01000 0 = 0"
proof -
  have "k_nextpid ex_kern = 3" by (simp add: ex_kern_def)
  then show ?thesis using allocproc_builds_isolated_process[OF ex_kern_alloc, of "0x80007000" 0] by auto
qed

theorem kill_zero_poisons_next_process_witness:
  "\<exists>s1 s2. kill ex_kern 0 = (0, s1) \<and> allocproc 0x80020000 0x80007000 0 s1 = Ok (Some 2, s2) \<and> pr_killed (proc_at s2 2)"
proof -
  have "pr_pid (proc_at ex_kern 2) = 0" "\<forall>i<2. pr_pid (proc_at ex_kern i) \<noteq> 0"
    by (auto simp: ex_kern_def ex_proc_def proc_at_def less_2_cases_iff)
  then show ?thesis using kill_zero_poisons_next_process[OF ex_kern_alloc(1) _ _ ex_kern_alloc(2-5)] by blast
qed

theorem growproc_wraps_silently_witness: "growproc 0 ex_kern 1 (-5000) = Ok (0, ex_kern)"
  by (rule growproc_wraps_silently) (simp_all add: ex_kern_def ex_proc_def proc_at_def)

end
