(* ===== verification/Sleep_Wakeup.thy ===== *)
theory Sleep_Wakeup
  imports Proc_Lifecycle
begin

text \<open>
  \<open>sleep\<close> and \<open>wakeup\<close> of \<open>kernel/proc.c\<close> as an interleaving of lock operations. One process waits in a loop
  \<open>while(!cond) sleep(c, &lk)\<close>, another one, or an interrupt handler, sets the condition and calls \<open>wakeup(c)\<close>, both holding \<open>lk\<close>. A step is a lock operation
  or the code between two of them; the changes to the process table are those of \<open>Proc\<close>. \<open>p->lock\<close> is handed to the
  scheduler and back by \<open>swtch\<close>, so on the sleeper's side it is held by whoever of the two runs.
\<close>

section \<open>Steps\<close>

datatype who = Sleeper | Waker

datatype spc = S_out | S_test | S_plock | S_unlock | S_mark | S_sched | S_off | S_back | S_relock | S_go

datatype wpc = W_out | W_set | W_plock | W_mark | W_punlock | W_unlock

record sw =
  sw_k :: kern
  sw_lk :: "who option"
  sw_pl :: "who option"
  sw_cond :: bool
  sw_s :: spc
  sw_w :: wpc

inductive sw_step :: "nat \<Rightarrow> nat \<Rightarrow> chan \<Rightarrow> who \<Rightarrow> sw \<Rightarrow> sw \<Rightarrow> bool" for p q c where
  s_acquire: "sw_s s \<in> {S_out, S_relock} \<Longrightarrow> sw_lk s = None \<Longrightarrow> sw_step p q c Sleeper s (s\<lparr>sw_lk := Some Sleeper, sw_s := S_test\<rparr>)"
| s_test: "sw_s s = S_test \<Longrightarrow> sw_step p q c Sleeper s (s\<lparr>sw_s := if sw_cond s then S_go else S_plock\<rparr>)"
| s_plock: "sw_s s = S_plock \<Longrightarrow> sw_pl s = None \<Longrightarrow> sw_step p q c Sleeper s (s\<lparr>sw_pl := Some Sleeper, sw_s := S_unlock\<rparr>)"
| s_unlock: "sw_s s = S_unlock \<Longrightarrow> sw_step p q c Sleeper s (s\<lparr>sw_lk := None, sw_s := S_mark\<rparr>)"
| s_mark: "sw_s s = S_mark \<Longrightarrow> sw_step p q c Sleeper s (s\<lparr>sw_k := sleep (sw_k s) p (Some c), sw_s := S_sched\<rparr>)"
| s_sched: "sw_s s = S_sched \<Longrightarrow> sw_step p q c Sleeper s (s\<lparr>sw_pl := None, sw_s := S_off\<rparr>)"
| s_pick: "sw_s s = S_off \<Longrightarrow> sw_pl s = None \<Longrightarrow> scheduler (sw_k s) p = (True, k) \<Longrightarrow>
    sw_step p q c Sleeper s (s\<lparr>sw_k := k, sw_pl := Some Sleeper, sw_s := S_back\<rparr>)"
| s_back: "sw_s s = S_back \<Longrightarrow> sw_step p q c Sleeper s (s\<lparr>sw_k := sleep_return (sw_k s) p, sw_pl := None, sw_s := S_relock\<rparr>)"
| s_go: "sw_s s = S_go \<Longrightarrow> sw_step p q c Sleeper s (s\<lparr>sw_cond := False, sw_lk := None, sw_s := S_out\<rparr>)"
| w_acquire: "sw_w s = W_out \<Longrightarrow> sw_lk s = None \<Longrightarrow> sw_step p q c Waker s (s\<lparr>sw_lk := Some Waker, sw_w := W_set\<rparr>)"
| w_set: "sw_w s = W_set \<Longrightarrow> sw_step p q c Waker s (s\<lparr>sw_cond := True, sw_w := W_plock\<rparr>)"
| w_plock: "sw_w s = W_plock \<Longrightarrow> sw_pl s = None \<Longrightarrow> sw_step p q c Waker s (s\<lparr>sw_pl := Some Waker, sw_w := W_mark\<rparr>)"
| w_mark: "sw_w s = W_mark \<Longrightarrow> sw_step p q c Waker s (s\<lparr>sw_k := wakeup (sw_k s) q (Some c), sw_w := W_punlock\<rparr>)"
| w_punlock: "sw_w s = W_punlock \<Longrightarrow> sw_step p q c Waker s (s\<lparr>sw_pl := None, sw_w := W_unlock\<rparr>)"
| w_unlock: "sw_w s = W_unlock \<Longrightarrow> sw_step p q c Waker s (s\<lparr>sw_lk := None, sw_w := W_out\<rparr>)"

inductive_cases sw_step_E: "sw_step p q c x s t"

inductive sw_reach :: "nat \<Rightarrow> nat \<Rightarrow> chan \<Rightarrow> sw \<Rightarrow> bool" for p q c where
  start: "p < length (k_proc (sw_k s)) \<Longrightarrow> p \<noteq> q \<Longrightarrow> pr_state (proc_at (sw_k s) p) = RUNNING \<Longrightarrow>
    sw_lk s = None \<Longrightarrow> sw_pl s = None \<Longrightarrow> sw_s s = S_out \<Longrightarrow> sw_w s = W_out \<Longrightarrow> sw_reach p q c s"
| run: "sw_reach p q c s \<Longrightarrow> sw_step p q c x s t \<Longrightarrow> sw_reach p q c t"

section \<open>Invariant\<close>

definition locks_ok :: "sw \<Rightarrow> bool" where
  "locks_ok s \<longleftrightarrow>
     (sw_lk s = Some Sleeper \<longleftrightarrow> sw_s s \<in> {S_test, S_plock, S_unlock, S_go}) \<and>
     (sw_lk s = Some Waker \<longleftrightarrow> sw_w s \<noteq> W_out) \<and>
     (sw_pl s = Some Sleeper \<longleftrightarrow> sw_s s \<in> {S_unlock, S_mark, S_sched, S_back}) \<and>
     (sw_pl s = Some Waker \<longleftrightarrow> sw_w s \<in> {W_mark, W_punlock})"

definition asleep :: "nat \<Rightarrow> chan \<Rightarrow> sw \<Rightarrow> bool" where
  "asleep p c s \<longleftrightarrow> pr_state (proc_at (sw_k s) p) = SLEEPING \<and> pr_chan (proc_at (sw_k s) p) = Some c"

definition state_ok :: "nat \<Rightarrow> chan \<Rightarrow> sw \<Rightarrow> bool" where
  "state_ok p c s \<longleftrightarrow>
     (if sw_s s = S_sched then asleep p c s
      else if sw_s s = S_off then asleep p c s \<or> pr_state (proc_at (sw_k s) p) = RUNNABLE
      else pr_state (proc_at (sw_k s) p) = RUNNING)"

text \<open>A process on its way to sleep that the condition would let go on will meet the waker at \<open>p->lock\<close>.\<close>

definition wake_ok :: "nat \<Rightarrow> chan \<Rightarrow> sw \<Rightarrow> bool" where
  "wake_ok p c s \<longleftrightarrow>
     (sw_s s \<in> {S_plock, S_unlock} \<longrightarrow> \<not> sw_cond s) \<and>
     (sw_s s \<in> {S_mark, S_sched} \<and> sw_cond s \<longrightarrow> sw_w s = W_plock) \<and>
     (sw_s s = S_off \<and> asleep p c s \<and> sw_cond s \<longrightarrow> sw_w s \<in> {W_plock, W_mark})"

definition sw_inv :: "nat \<Rightarrow> nat \<Rightarrow> chan \<Rightarrow> sw \<Rightarrow> bool" where
  "sw_inv p q c s \<longleftrightarrow> p < length (k_proc (sw_k s)) \<and> p \<noteq> q \<and> locks_ok s \<and> state_ok p c s \<and> wake_ok p c s"

lemma scheduler_True: "scheduler s p = (True, t) \<longleftrightarrow> pr_state (proc_at s p) = RUNNABLE \<and> t = upd_proc s p (\<lambda>pr. pr\<lparr>pr_state := RUNNING\<rparr>)"
  by (auto simp: scheduler_def)

lemmas sw_defs = locks_ok_def state_ok_def wake_ok_def asleep_def

lemma sw_inv_step:
  assumes "sw_step p q c x s t" "sw_inv p q c s"
  shows "sw_inv p q c t"
  using assms(1)
proof cases
  case s_acquire
  then show ?thesis using assms(2) by (cases "sw_s s"; cases "sw_w s") (auto simp: sw_inv_def sw_defs)
next
  case s_test
  then show ?thesis using assms(2) by (cases "sw_w s") (auto simp: sw_inv_def sw_defs)
next
  case s_plock
  then show ?thesis using assms(2) by (cases "sw_w s") (auto simp: sw_inv_def sw_defs)
next
  case s_unlock
  then show ?thesis using assms(2) by (cases "sw_w s") (auto simp: sw_inv_def sw_defs)
next
  case s_mark
  then show ?thesis using assms(2) by (cases "sw_w s") (auto simp: sw_inv_def sw_defs sleep_def)
next
  case s_sched
  then show ?thesis using assms(2) by (cases "sw_w s") (auto simp: sw_inv_def sw_defs)
next
  case s_pick
  then show ?thesis using assms(2) by (cases "sw_w s") (auto simp: sw_inv_def sw_defs scheduler_True)
next
  case s_back
  then show ?thesis using assms(2) by (cases "sw_w s") (auto simp: sw_inv_def sw_defs sleep_return_def)
next
  case s_go
  then show ?thesis using assms(2) by (cases "sw_w s") (auto simp: sw_inv_def sw_defs)
next
  case w_acquire
  then show ?thesis using assms(2) by (cases "sw_s s") (auto simp: sw_inv_def sw_defs)
next
  case w_set
  then show ?thesis using assms(2) by (cases "sw_s s") (auto simp: sw_inv_def sw_defs)
next
  case w_plock
  then show ?thesis using assms(2) by (cases "sw_s s") (auto simp: sw_inv_def sw_defs)
next
  case w_mark
  then show ?thesis using assms(2) by (cases "sw_s s") (auto simp: sw_inv_def sw_defs wakeup_at Let_def)
next
  case w_punlock
  then show ?thesis using assms(2) by (cases "sw_s s") (auto simp: sw_inv_def sw_defs)
next
  case w_unlock
  then show ?thesis using assms(2) by (cases "sw_s s") (auto simp: sw_inv_def sw_defs)
qed

lemma sw_reach_inv:
  assumes "sw_reach p q c s"
  shows "sw_inv p q c s"
  using assms
proof induction
  case (start s)
  then show ?case by (simp add: sw_inv_def sw_defs)
next
  case (run s x t)
  then show ?case by (blast intro: sw_inv_step)
qed

section \<open>Progress\<close>

abbreviation sleeper_runs :: "nat \<Rightarrow> nat \<Rightarrow> chan \<Rightarrow> sw \<Rightarrow> sw \<Rightarrow> bool" where
  "sleeper_runs p q c \<equiv> (sw_step p q c Sleeper)\<^sup>*\<^sup>*"

lemma goes_from_test:
  assumes "sw_s s = S_test" "sw_cond s"
  shows "\<exists>t. sleeper_runs p q c s t \<and> sw_s t = S_go"
  using r_into_rtranclp[of "sw_step p q c Sleeper", OF sw_step.s_test[OF assms(1)]] assms(2) by fastforce

lemma goes_from_lock:
  assumes "sw_s s \<in> {S_out, S_relock}" "sw_lk s = None" "sw_cond s"
  shows "\<exists>t. sleeper_runs p q c s t \<and> sw_s t = S_go"
proof -
  obtain t where "sleeper_runs p q c (s\<lparr>sw_lk := Some Sleeper, sw_s := S_test\<rparr>) t" "sw_s t = S_go"
    using goes_from_test[of "s\<lparr>sw_lk := Some Sleeper, sw_s := S_test\<rparr>" p q c] assms(3) by auto
  then show ?thesis using sw_step.s_acquire[OF assms(1,2), of p q c] by (meson converse_rtranclp_into_rtranclp)
qed

lemma goes_from_back:
  assumes "sw_s s = S_back" "sw_lk s = None" "sw_cond s"
  shows "\<exists>t. sleeper_runs p q c s t \<and> sw_s t = S_go"
proof -
  obtain t where "sleeper_runs p q c (s\<lparr>sw_k := sleep_return (sw_k s) p, sw_pl := None, sw_s := S_relock\<rparr>) t" "sw_s t = S_go"
    using goes_from_lock[of "s\<lparr>sw_k := sleep_return (sw_k s) p, sw_pl := None, sw_s := S_relock\<rparr>" p q c] assms(2,3) by auto
  then show ?thesis using sw_step.s_back[OF assms(1), of p q c] by (meson converse_rtranclp_into_rtranclp)
qed

lemma goes_from_off:
  assumes "sw_s s = S_off" "sw_pl s = None" "pr_state (proc_at (sw_k s) p) = RUNNABLE" "sw_lk s = None" "sw_cond s"
  shows "\<exists>t. sleeper_runs p q c s t \<and> sw_s t = S_go"
proof -
  obtain k where k: "scheduler (sw_k s) p = (True, k)" using assms(3) by (simp add: scheduler_def)
  obtain t where "sleeper_runs p q c (s\<lparr>sw_k := k, sw_pl := Some Sleeper, sw_s := S_back\<rparr>) t" "sw_s t = S_go"
    using goes_from_back[of "s\<lparr>sw_k := k, sw_pl := Some Sleeper, sw_s := S_back\<rparr>" p q c] assms(4,5) by auto
  then show ?thesis using sw_step.s_pick[OF assms(1,2) k, of q c] by (meson converse_rtranclp_into_rtranclp)
qed

lemma lock_free:
  assumes "locks_ok s" "sw_w s = W_out"
  shows "sw_s s \<notin> {S_test, S_plock, S_unlock, S_go} \<Longrightarrow> sw_lk s = None"
    "sw_s s \<notin> {S_unlock, S_mark, S_sched, S_back} \<Longrightarrow> sw_pl s = None"
proof -
  show "sw_lk s = None" if "sw_s s \<notin> {S_test, S_plock, S_unlock, S_go}"
    using assms that unfolding locks_ok_def by (metis (full_types) option.exhaust who.exhaust)
  show "sw_pl s = None" if "sw_s s \<notin> {S_unlock, S_mark, S_sched, S_back}"
    using assms that unfolding locks_ok_def by (metis (full_types) insertE wpc.distinct(3,7) wpc.simps option.exhaust who.exhaust empty_iff)
qed

section \<open>Properties\<close>

text \<open>
  C11: Lost wakeups: whatever the interleaving, once the condition has been set and the waker has released the lock, the
  waiting process does not sleep, and by its own steps, those of the scheduler that runs it included, it passes the loop.
\<close>

lemma no_lost_wakeup:
  assumes "sw_reach p q c s" "sw_cond s" "sw_w s = W_out"
  shows "pr_state (proc_at (sw_k s) p) \<noteq> SLEEPING \<and> (\<exists>t. (sw_step p q c Sleeper)\<^sup>*\<^sup>* s t \<and> sw_s t = S_go)"
proof -
  have i: "locks_ok s" "state_ok p c s" "wake_ok p c s" using sw_reach_inv[OF assms(1)] by (simp_all add: sw_inv_def)
  have n: "sw_s s \<notin> {S_plock, S_unlock, S_mark, S_sched}" "sw_s s = S_off \<Longrightarrow> \<not> asleep p c s"
    using i(3) assms(2,3) by (auto simp: wake_ok_def)
  have awake: "pr_state (proc_at (sw_k s) p) \<noteq> SLEEPING" using n i(2) by (auto simp: state_ok_def split: if_splits)
  have off: "sw_s s = S_off \<Longrightarrow> pr_state (proc_at (sw_k s) p) = RUNNABLE" using n(2) i(2) by (simp add: state_ok_def)
  have "\<exists>t. (sw_step p q c Sleeper)\<^sup>*\<^sup>* s t \<and> sw_s t = S_go"
  proof (cases "sw_s s")
    case S_off
    then show ?thesis using goes_from_off off lock_free[OF i(1) assms(3)] assms(2) by simp
  qed (use n(1) lock_free[OF i(1) assms(3)] assms(2) goes_from_test goes_from_lock goes_from_back in auto)
  then show ?thesis using awake by simp
qed

definition ex_sw :: sw where
  "ex_sw = \<lparr>sw_k = ex_kern, sw_lk = None, sw_pl = None, sw_cond = False, sw_s = S_out, sw_w = W_out\<rparr>"

lemma ex_sw_run: "\<exists>s. sw_reach 1 0 Chan_ticks s \<and> sw_cond s \<and> sw_w s = W_out \<and> sw_s s = S_off"
  apply (rule exI, rule conjI)
   apply (rule sw_reach.run[OF _ sw_step.w_unlock], rule sw_reach.run[OF _ sw_step.w_punlock], rule sw_reach.run[OF _ sw_step.w_mark])
      apply (rule sw_reach.run[OF _ sw_step.w_plock], rule sw_reach.run[OF _ sw_step.w_set], rule sw_reach.run[OF _ sw_step.w_acquire])
           apply (rule sw_reach.run[OF _ sw_step.s_sched], rule sw_reach.run[OF _ sw_step.s_mark], rule sw_reach.run[OF _ sw_step.s_unlock])
              apply (rule sw_reach.run[OF _ sw_step.s_plock], rule sw_reach.run[OF _ sw_step.s_test], rule sw_reach.run[OF _ sw_step.s_acquire])
                apply (rule sw_reach.start[of _ ex_sw])
  by (simp_all add: ex_sw_def ex_kern_def ex_proc_def proc_at_def)

theorem no_lost_wakeup_witness:
  "\<exists>s. sw_cond s \<and> sw_s s = S_off \<and> pr_state (proc_at (sw_k s) 1) \<noteq> SLEEPING \<and> (\<exists>t. (sw_step 1 0 Chan_ticks Sleeper)\<^sup>*\<^sup>* s t \<and> sw_s t = S_go)"
  using ex_sw_run no_lost_wakeup[of 1 0 Chan_ticks] by blast

end
