(* ===== verification/Fs_Bitmap.thy ===== *)
theory Fs_Bitmap
  imports Fs_Block
begin

text \<open>
  The block array as the file system sees it through log and cache, and the free bitmap: \<open>balloc\<close> and \<open>bfree\<close> refine
  insertion into and removal from the set of blocks in use.
\<close>

unbundle bit_operations_syntax

section \<open>The view of the file system\<close>

definition fview :: "kfs \<Rightarrow> uint \<Rightarrow> byte list" where
  "fview s = view (fs_bc s)"

definition logged :: "kfs \<Rightarrow> uint set" where
  "logged s = log_area (lg_start (fs_log s))"

text \<open>Inside a transaction with \<open>n\<close> blocks in the log.\<close>

definition fs_ok :: "kfs \<Rightarrow> nat \<Rightarrow> bool" where
  "fs_ok s n \<longleftrightarrow> log_ok (fs_log s) n \<and> lg_size (fs_log s) = 30 \<and> 1 \<le> lg_outstanding (fs_log s)"

text \<open>Two states that differ in the log and the buffer cache only.\<close>

definition same_mem :: "kfs \<Rightarrow> kfs \<Rightarrow> bool" where
  "same_mem s s' \<longleftrightarrow> s' = s\<lparr>fs_log := fs_log s'\<rparr> \<and> lg_start (fs_log s') = lg_start (fs_log s)"

lemma same_memD:
  assumes "same_mem s s'"
  shows "fs_sb s' = fs_sb s" "fs_inode s' = fs_inode s" "fs_mem s' = fs_mem s" "fs_pt s' = fs_pt s" "fs_cwd s' = fs_cwd s" "logged s' = logged s"
  using assms unfolding same_mem_def logged_def by (metis kfs.select_convs kfs.surjective kfs.update_convs(1))+

lemma same_mem_trans: "same_mem s s' \<Longrightarrow> same_mem s' s'' \<Longrightarrow> same_mem s s''"
  unfolding same_mem_def by (metis kfs.surjective kfs.update_convs(1))

lemma same_mem_refl [simp]: "same_mem s s"
  by (simp add: same_mem_def)

lemma fview_length: "fs_ok s n \<Longrightarrow> length (fview s b) = BSIZE"
  unfolding fs_ok_def log_ok_def fview_def fs_bc_def using bc.view_length by blast

text \<open>Reading a block and releasing it.\<close>

lemma fs_read:
  assumes "fs_ok s n" "n \<le> 29"
  shows "\<exists>bp s1 s'. fs_bread s ROOTDEV b = Ok (bp, s1) \<and> fs_data s1 bp = fview s b \<and> same_mem s s1 \<and> fs_brelse s1 bp = Ok s' \<and>
    fs_ok s' n \<and> fview s' = fview s \<and> same_mem s s'"
proof -
  let ?l = "fs_log s" let ?P = "set (take n (lg_block ?l))"
  have l: "cache_ok (lg_bc ?l) ?P {}" using assms(1) by (simp add: fs_ok_def log_ok_def)
  have "card ?P < NBUF" using card_length[of "take n (lg_block ?l)"] assms(2) by (simp add: NBUF_def)
  then obtain c1 c' where c: "bread (lg_bc ?l) ROOTDEV b = Ok (handle c1 b, c1)" "b_data (bc_buf c1 ! handle c1 b) = view (lg_bc ?l) b"
      "brelse c1 (handle c1 b) = Ok c'" "cache_ok c' ?P {}" "view c' = view (lg_bc ?l)" "bc_disk c' = bc_disk (lg_bc ?l)"
    using bc.fetch_release[OF l, of b] by auto
  have "log_ok (?l\<lparr>lg_bc := c'\<rparr>) n" using assms(1) c(4,6) by (simp add: fs_ok_def log_ok_def)
  then show ?thesis using assms(1) c
    by (intro exI[of _ "handle c1 b"] exI[of _ "with_bc s c1"] exI[of _ "with_bc s c'"])
      (simp add: fs_bread_def fs_bc_def with_bc_def fs_data_def fview_def fs_brelse_def fs_ok_def same_mem_def)
qed

text \<open>Reading a block, changing it and logging the change.\<close>

lemma fs_update:
  assumes "fs_ok s n" "n \<le> 28" "b \<notin> logged s" "length (g (fview s b)) = BSIZE"
  shows "\<exists>bp s1 s2 s' m. fs_bread s ROOTDEV b = Ok (bp, s1) \<and> fs_data s1 bp = fview s b \<and> same_mem s s1 \<and>
    fs_log_write (fs_set_data s1 bp (g (fview s b))) bp = Ok s2 \<and> fs_brelse s2 bp = Ok s' \<and>
    fs_ok s' m \<and> m \<le> n + 1 \<and> fview s' = (fview s)(b := g (fview s b)) \<and> same_mem s s'"
proof -
  let ?l = "fs_log s"
  have b: "b \<notin> log_area (lg_start ?l)" "length (g (view (lg_bc ?l) b)) = BSIZE" "log_ok ?l n" "lg_size ?l = 30" "1 \<le> lg_outstanding ?l"
    using assms by (simp_all add: logged_def fview_def fs_bc_def fs_ok_def)
  obtain c bl m where c: "logged_update ?l b g = Ok (?l\<lparr>lg_bc := c, lg_n := int m, lg_block := bl\<rparr>)" "m \<le> n + 1"
      "log_ok (?l\<lparr>lg_bc := c, lg_n := int m, lg_block := bl\<rparr>) m" "view c = (view (lg_bc ?l))(b := g (view (lg_bc ?l) b))"
    using logged_update_ok[where g = g, OF b(3) assms(2) b(4,5,1,2)] by blast
  let ?P = "set (take n (lg_block ?l))"
  have "card ?P < NBUF" using card_length[of "take n (lg_block ?l)"] assms(2) by (simp add: NBUF_def)
  then obtain c1 where c1: "bread (lg_bc ?l) ROOTDEV b = Ok (handle c1 b, c1)" "cache_ok c1 ?P {b}" "view c1 = view (lg_bc ?l)"
    using bc.fetch_ok[of "lg_bc ?l" ?P "{}" b] b(3) by (auto simp: log_ok_def)
  have d: "b_data (bc_buf c1 ! handle c1 b) = view (lg_bc ?l) b" using bc.data_view[OF c1(2), of b] c1(3) by simp
  obtain l2 c3 where l2: "log_write (?l\<lparr>lg_bc := set_data c1 (handle c1 b) (g (view (lg_bc ?l) b))\<rparr>) (handle c1 b) = Ok l2"
      "brelse (lg_bc l2) (handle c1 b) = Ok c3" "l2\<lparr>lg_bc := c3\<rparr> = ?l\<lparr>lg_bc := c, lg_n := int m, lg_block := bl\<rparr>"
    using c(1) c1(1) d by (auto simp: logged_update_def)
  have "fs_ok (s\<lparr>fs_log := l2\<lparr>lg_bc := c3\<rparr>\<rparr>) m" using c(3) b(4,5) by (simp add: l2(3) fs_ok_def)
  moreover have "fview (s\<lparr>fs_log := l2\<lparr>lg_bc := c3\<rparr>\<rparr>) = (fview s)(b := g (fview s b))" using c(4) by (simp add: l2(3) fview_def fs_bc_def)
  moreover have "same_mem s (s\<lparr>fs_log := l2\<lparr>lg_bc := c3\<rparr>\<rparr>)" by (simp add: l2(3) same_mem_def)
  ultimately show ?thesis using c1(1) d l2(1,2) c(2)
    by (intro exI[of _ "handle c1 b"] exI[of _ "with_bc s c1"] exI[of _ "s\<lparr>fs_log := l2\<rparr>"] exI[of _ "s\<lparr>fs_log := l2\<lparr>lg_bc := c3\<rparr>\<rparr>"] exI[of _ m])
      (simp add: fs_bread_def fs_bc_def with_bc_def fs_data_def fview_def fs_brelse_def fs_log_write_def fs_set_data_def same_mem_def)
qed

section \<open>Bits\<close>

lemma bit_mask: "bit (bm_mask bi) k \<longleftrightarrow> k = bi mod 8"
  by (auto simp: bm_mask_def bit_exp_iff less_imp_le)

lemma bm_clear_bit: "bm_clear d bi \<longleftrightarrow> \<not> bit (d ! (bi div 8)) (bi mod 8)"
proof
  assume "bm_clear d bi"
  then have "\<not> bit ((d ! (bi div 8)) AND bm_mask bi) (bi mod 8)" by (simp add: bm_clear_def)
  then show "\<not> bit (d ! (bi div 8)) (bi mod 8)" by (simp add: bit_and_iff bit_mask)
next
  assume "\<not> bit (d ! (bi div 8)) (bi mod 8)"
  then show "bm_clear d bi" unfolding bm_clear_def by (intro bit_word_eqI) (auto simp: bit_and_iff bit_mask)
qed

lemma same_bit: "(bj :: nat) div 8 = bi div 8 \<Longrightarrow> bj mod 8 = bi mod 8 \<longleftrightarrow> bj = bi"
  by (metis div_mult_mod_eq)

lemma bm_mark_clear:
  assumes "bi div 8 < length d"
  shows "bm_clear (bm_mark d bi) bj \<longleftrightarrow> bm_clear d bj \<and> bj \<noteq> bi"
  using assms same_bit[of bj bi] by (auto simp: bm_clear_bit bm_mark_def nth_list_update bit_or_iff bit_mask)

lemma bm_unmark_clear:
  assumes "bi div 8 < length d"
  shows "bm_clear (bm_unmark d bi) bj \<longleftrightarrow> bm_clear d bj \<or> bj = bi"
  using assms same_bit[of bj bi] by (auto simp: bm_clear_bit bm_unmark_def nth_list_update bit_and_iff bit_not_iff bit_mask)

lemma bm_unmark_mark: "bi div 8 < length d \<Longrightarrow> bm_clear d bi \<Longrightarrow> bm_unmark (bm_mark d bi) bi = d"
  unfolding bm_unmark_def bm_mark_def
  by (rule nth_equalityI) (auto simp: nth_list_update bm_clear_bit bit_simps bit_mask intro!: bit_word_eqI)

lemma length_bm [simp]: "length (bm_mark d bi) = length d" "length (bm_unmark d bi) = length d"
  by (simp_all add: bm_mark_def bm_unmark_def)

section \<open>Blocks in use\<close>

definition used :: "kfs \<Rightarrow> nat \<Rightarrow> bool" where
  "used s b \<longleftrightarrow> \<not> bm_clear (fview s (BBLOCK b (fs_sb s))) (b mod BPB)"

definition bitmap_blocks :: "kfs \<Rightarrow> uint set" where
  "bitmap_blocks s = (\<lambda>b. BBLOCK b (fs_sb s)) ` {..<unat (sb_size (fs_sb s))}"

text \<open>Neither the log nor the bitmap is free, and they do not overlap.\<close>

definition bitmap_ok :: "kfs \<Rightarrow> bool" where
  "bitmap_ok s \<longleftrightarrow> bitmap_blocks s \<inter> logged s = {} \<and>
     (\<forall>b<unat (sb_size (fs_sb s)). \<not> used s b \<longrightarrow> (of_nat b :: uint) \<notin> logged s \<union> bitmap_blocks s)"

lemma BPB_byte: "b mod BPB div 8 < BSIZE"
  by (simp add: BPB_def BSIZE_def less_mult_imp_div_less)

lemma below_uint: "c < unat (w :: uint) \<Longrightarrow> c < 2 ^ 32"
  using less_trans[OF _ unsigned_less[of w]] by simp

lemma BBLOCK_eq:
  assumes "b < 2 ^ 32" "c < 2 ^ 32"
  shows "BBLOCK b sb = BBLOCK c sb \<longleftrightarrow> b div BPB = c div BPB"
proof -
  have "b div BPB < 2 ^ 32" "c div BPB < 2 ^ 32" using assms by (auto intro: le_less_trans[OF div_le_dividend])
  then show ?thesis using of_nat_uint_eq by (simp add: BBLOCK_def)
qed

lemma balloc_bit_Some:
  "balloc_bit d b sz bi n = Some k \<Longrightarrow> bi \<le> k \<and> k < bi + n \<and> b + k < sz \<and> bm_clear d k \<and> (\<forall>j. bi \<le> j \<longrightarrow> j < k \<longrightarrow> \<not> bm_clear d j)"
proof (induction n arbitrary: bi)
  case (Suc n)
  show ?case
  proof (cases "bm_clear d bi")
    case False
    then have k: "balloc_bit d b sz (Suc bi) n = Some k" using Suc.prems by (simp split: if_splits)
    have "\<not> bm_clear d j" if "bi \<le> j" "j < k" for j
      using Suc.IH[OF k] that False by (cases "j = bi") auto
    then show ?thesis using Suc.IH[OF k] by auto
  qed (use Suc.prems in \<open>auto split: if_splits\<close>)
qed simp

lemma balloc_bit_None: "balloc_bit d b sz bi n = None \<Longrightarrow> bi \<le> j \<Longrightarrow> j < bi + n \<Longrightarrow> b + j < sz \<Longrightarrow> \<not> bm_clear d j"
proof (induction n arbitrary: bi)
  case (Suc n)
  then show ?case by (cases "j = bi") (auto split: if_splits)
qed simp

lemma used_same_mem: "fview s' = fview s \<Longrightarrow> same_mem s s' \<Longrightarrow> used s' b = used s b"
  by (simp add: used_def same_memD)

text \<open>The outcome of \<open>balloc\<close>: block \<open>b\<close> is taken, and nothing else changes.\<close>

definition allocated :: "kfs \<Rightarrow> nat \<Rightarrow> kfs \<Rightarrow> bool" where
  "allocated s b s' \<longleftrightarrow> same_mem s s' \<and>
     fview s' = (fview s)(BBLOCK b (fs_sb s) := bm_mark (fview s (BBLOCK b (fs_sb s))) (b mod BPB), of_nat b := replicate BSIZE 0)"

lemma take_block:
  assumes "fs_ok s n" "n \<le> 27" "bitmap_ok s" "b < unat (sb_size (fs_sb s))" "\<not> used s b" "k = b mod BPB" "b0 = BBLOCK b (fs_sb s)"
  shows "\<exists>bp s1 s2 s3 s' m. fs_bread s ROOTDEV b0 = Ok (bp, s1) \<and> fs_data s1 bp = fview s b0 \<and>
    fs_log_write (fs_set_data s1 bp (bm_mark (fview s b0) k)) bp = Ok s2 \<and> fs_brelse s2 bp = Ok s3 \<and>
    bzero s3 ROOTDEV (of_nat b) = Ok s' \<and> allocated s b s' \<and> fs_ok s' m \<and> m \<le> n + 2"
proof -
  have b0: "b0 \<notin> logged s" using assms(3,4,7) by (auto simp: bitmap_ok_def bitmap_blocks_def)
  have b: "(of_nat b :: uint) \<notin> logged s" using assms(3-5) by (auto simp: bitmap_ok_def)
  obtain bp s1 s2 s3 m where u: "fs_bread s ROOTDEV b0 = Ok (bp, s1)" "fs_data s1 bp = fview s b0"
      "fs_log_write (fs_set_data s1 bp (bm_mark (fview s b0) k)) bp = Ok s2" "fs_brelse s2 bp = Ok s3"
      "fs_ok s3 m" "m \<le> n + 1" "fview s3 = (fview s)(b0 := bm_mark (fview s b0) k)" "same_mem s s3"
    using fs_update[OF assms(1) _ b0, of "\<lambda>d. bm_mark d k"] assms(2) fview_length[OF assms(1)] by auto
  have b3: "(of_nat b :: uint) \<notin> logged s3" using b same_memD(6)[OF u(8)] by simp
  have "m \<le> 28" using u(6) assms(2) by simp
  then obtain bp' t1 t2 s' m' where z: "fs_bread s3 ROOTDEV (of_nat b) = Ok (bp', t1)"
      "fs_log_write (fs_set_data t1 bp' (replicate BSIZE 0)) bp' = Ok t2" "fs_brelse t2 bp' = Ok s'" "fs_ok s' m'" "m' \<le> m + 1"
      "fview s' = (fview s3)(of_nat b := replicate BSIZE 0)" "same_mem s3 s'"
    using fs_update[OF u(5) _ b3, of "\<lambda>_. replicate BSIZE 0"] by auto
  have "bzero s3 ROOTDEV (of_nat b) = Ok s'" using z(1-3) by (simp add: bzero_def Let_def)
  moreover have "allocated s b s'" using z(6,7) u(7,8) assms(6,7) same_mem_trans by (auto simp: allocated_def)
  ultimately show ?thesis using u(1-4,6) z(4,5)
    by (intro exI[of _ bp] exI[of _ s1] exI[of _ s2] exI[of _ s3] exI[of _ s'] exI[of _ m']) simp
qed

lemma balloc_from_ok:
  assumes "fs_ok s n" "n \<le> 27" "bitmap_ok s" "sz = unat (sb_size (fs_sb s))" "b mod BPB = 0" "\<forall>c<min b sz. used s c"
  shows "if \<forall>c < sz. used s c then balloc_from s ROOTDEV b sz = Panic ''balloc: out of blocks''
    else \<exists>c s' m. balloc_from s ROOTDEV b sz = Ok (of_nat c, s') \<and> c < sz \<and> \<not> used s c \<and> (\<forall>c'<c. used s c') \<and>
      allocated s c s' \<and> fs_ok s' m \<and> m \<le> n + 2"
  using assms
proof (induction "sz - b" arbitrary: s b rule: less_induct)
  case less
  show ?case
  proof (cases "b < sz")
    case False
    then have "\<forall>c < sz. used s c" using less.prems(6) by simp
    then show ?thesis using False by (simp add: balloc_from.simps)
  next
    case True
    have same: "BBLOCK (b + k) (fs_sb s) = BBLOCK b (fs_sb s)" "(b + k) mod BPB = k" if "k < BPB" for k
    proof -
      obtain q where q: "b = BPB * q" using less.prems(5) by (auto elim: dvdE)
      then have "(b + k) div BPB = b div BPB" using that by (simp add: BPB_def)
      then show "BBLOCK (b + k) (fs_sb s) = BBLOCK b (fs_sb s)" by (simp add: BBLOCK_def)
      show "(b + k) mod BPB = k" using q that by (simp add: BPB_def)
    qed
    let ?b0 = "BBLOCK b (fs_sb s)"
    show ?thesis
    proof (cases "balloc_bit (fview s ?b0) b sz 0 BPB")
      case (Some k)
      note k = balloc_bit_Some[OF Some]
      have kB: "k < BPB" using k by simp
      have nu: "\<not> used s (b + k)" using k same[OF kB] by (simp add: used_def)
      have lower: "used s c" if "c < b + k" for c
      proof (cases "c < b")
        case False
        then have j: "c = b + (c - b)" "c - b < k" using that by simp_all
        then have "\<not> bm_clear (fview s ?b0) (c - b)" using k by simp
        then show ?thesis using same[of "c - b"] j kB by (simp add: used_def)
      qed (use less.prems(6) True in simp)
      obtain bp s1 s2 s3 s' m where t: "fs_bread s ROOTDEV ?b0 = Ok (bp, s1)" "fs_data s1 bp = fview s ?b0"
          "fs_log_write (fs_set_data s1 bp (bm_mark (fview s ?b0) k)) bp = Ok s2" "fs_brelse s2 bp = Ok s3"
          "bzero s3 ROOTDEV (of_nat (b + k)) = Ok s'" "allocated s (b + k) s'" "fs_ok s' m" "m \<le> n + 2"
        using take_block[OF less.prems(1-3) _ nu, of k ?b0] k less.prems(4) same[OF kB] by auto
      have "balloc_from s ROOTDEV b sz = Ok (of_nat (b + k), s')"
        using True Some t(1-5) by (simp add: balloc_from.simps[of s] Let_def)
      moreover have all: "\<not> (\<forall>c < sz. used s c)" using nu k by auto
      ultimately show ?thesis unfolding if_not_P[OF all] using nu lower k t(6-8)
        by (intro exI[of _ "b + k"] exI[of _ s'] exI[of _ m]) simp
    next
      case None
      obtain bp s1 s' where r: "fs_bread s ROOTDEV ?b0 = Ok (bp, s1)" "fs_data s1 bp = fview s ?b0" "same_mem s s1"
          "fs_brelse s1 bp = Ok s'" "fs_ok s' n" "fview s' = fview s" "same_mem s s'"
        using fs_read[OF less.prems(1), of ?b0] less.prems(2) by auto
      have step: "balloc_from s ROOTDEV b sz = balloc_from s' ROOTDEV (b + BPB) sz"
        using True None r(1,2,4) by (simp add: balloc_from.simps[of s])
      have u: "used s' c = used s c" for c using used_same_mem[OF r(6,7)] .
      have bm: "bitmap_ok s'" using less.prems(3) u same_memD[OF r(7)] by (simp add: bitmap_ok_def bitmap_blocks_def)
      have "used s c" if "c < min (b + BPB) sz" for c
      proof (cases "c < b")
        case False
        then have j: "c = b + (c - b)" "c - b < BPB" "b + (c - b) < sz" using that unfolding min_less_iff_conj by linarith+
        then have "\<not> bm_clear (fview s ?b0) (c - b)" using balloc_bit_None[OF None, of "c - b"] by simp
        then show ?thesis using same[of "c - b"] j by (simp add: used_def)
      qed (use less.prems(6) True in simp)
      then have IH: "if \<forall>c < sz. used s' c then balloc_from s' ROOTDEV (b + BPB) sz = Panic ''balloc: out of blocks''
        else \<exists>c t m. balloc_from s' ROOTDEV (b + BPB) sz = Ok (of_nat c, t) \<and> c < sz \<and> \<not> used s' c \<and> (\<forall>c'<c. used s' c') \<and>
          allocated s' c t \<and> fs_ok t m \<and> m \<le> n + 2"
        using True less.prems(2,4,5) r(5) bm u same_memD(1)[OF r(7)] by (intro less.hyps) (simp_all add: BPB_def)
      have "allocated s c t" if "allocated s' c t" for c t
        using that r(6) same_memD(1)[OF r(7)] same_mem_trans[OF r(7)] by (simp add: allocated_def)
      then show ?thesis using IH unfolding step u by (auto split: if_splits)
    qed
  qed
qed

lemma balloc_ok:
  assumes "fs_ok s n" "n \<le> 27" "bitmap_ok s" "\<not> (\<forall>c<unat (sb_size (fs_sb s)). used s c)"
  shows "\<exists>c s' m. balloc s ROOTDEV = Ok (of_nat c, s') \<and> c < unat (sb_size (fs_sb s)) \<and> \<not> used s c \<and> (\<forall>c'<c. used s c') \<and>
    allocated s c s' \<and> fs_ok s' m \<and> m \<le> n + 2"
proof -
  have "if \<forall>c<unat (sb_size (fs_sb s)). used s c then balloc s ROOTDEV = Panic ''balloc: out of blocks''
    else \<exists>c s' m. balloc s ROOTDEV = Ok (of_nat c, s') \<and> c < unat (sb_size (fs_sb s)) \<and> \<not> used s c \<and> (\<forall>c'<c. used s c') \<and>
      allocated s c s' \<and> fs_ok s' m \<and> m \<le> n + 2"
    unfolding balloc_def by (rule balloc_from_ok[OF assms(1-3) refl]) simp_all
  then show ?thesis unfolding if_not_P[OF assms(4)] .
qed

lemma allocated_used:
  assumes "fs_ok s n" "allocated s b s'" "b < 2 ^ 32" "c < unat (sb_size (fs_sb s))" "(of_nat b :: uint) \<notin> bitmap_blocks s"
  shows "used s' c \<longleftrightarrow> used s c \<or> c = b"
proof -
  let ?sb = "fs_sb s" let ?k = "BBLOCK b (fs_sb s)"
  have sb: "fs_sb s' = ?sb" using assms(2) same_memD(1) by (auto simp: allocated_def)
  have c: "BBLOCK c ?sb \<noteq> of_nat b" using assms(4,5) unfolding bitmap_blocks_def by (metis imageI lessThan_iff)
  have c32: "c < 2 ^ 32" using assms(4) by (rule below_uint)
  have d: "b mod BPB div 8 < length (fview s ?k)" using fview_length[OF assms(1)] BPB_byte by simp
  show ?thesis
  proof (cases "BBLOCK c ?sb = ?k")
    case True
    then have "c div BPB = b div BPB" using BBLOCK_eq[OF c32 assms(3)] by simp
    then have "c mod BPB = b mod BPB \<longleftrightarrow> c = b" by (metis div_mult_mod_eq)
    then show ?thesis using assms(2) c True bm_mark_clear[OF d, of "c mod BPB"] by (simp add: used_def sb allocated_def)
  next
    case False
    then have "c \<noteq> b" by auto
    then show ?thesis using assms(2) c False by (simp add: used_def sb allocated_def)
  qed
qed

text \<open>
  C5: Inside a transaction with room for two more blocks, \<open>balloc\<close> takes the lowest free block: it marks exactly that block as used,
  zeroes it, and changes no other block of the file system; with every block in use it panics.
\<close>

theorem balloc_takes_lowest_free_block:
  assumes "fs_ok s n" "n \<le> 27" "bitmap_ok s"
  shows "if \<forall>c<unat (sb_size (fs_sb s)). used s c then balloc s ROOTDEV = Panic ''balloc: out of blocks''
    else \<exists>b s' m. balloc s ROOTDEV = Ok (of_nat b, s') \<and> b < unat (sb_size (fs_sb s)) \<and> \<not> used s b \<and> (\<forall>c<b. used s c) \<and>
      (\<forall>c<unat (sb_size (fs_sb s)). used s' c \<longleftrightarrow> used s c \<or> c = b) \<and> fview s' (of_nat b) = replicate BSIZE 0 \<and>
      (\<forall>a. a \<notin> bitmap_blocks s \<longrightarrow> a \<noteq> of_nat b \<longrightarrow> fview s' a = fview s a) \<and> fs_ok s' m \<and> m \<le> n + 2"
proof (cases "\<forall>c<unat (sb_size (fs_sb s)). used s c")
  case True
  then show ?thesis using balloc_from_ok[OF assms refl, of 0] by (simp add: balloc_def)
next
  case False
  obtain b s' m where b: "balloc s ROOTDEV = Ok (of_nat b, s')" "b < unat (sb_size (fs_sb s))" "\<not> used s b" "\<forall>c<b. used s c"
      "allocated s b s'" "fs_ok s' m" "m \<le> n + 2"
    using balloc_ok[OF assms False] by blast
  have nb: "(of_nat b :: uint) \<notin> bitmap_blocks s" using assms(3) b(2,3) by (auto simp: bitmap_ok_def)
  have b32: "b < 2 ^ 32" using b(2) by (rule below_uint)
  have "BBLOCK b (fs_sb s) \<in> bitmap_blocks s" using b(2) by (auto simp: bitmap_blocks_def)
  then have "fview s' a = fview s a" if "a \<notin> bitmap_blocks s" "a \<noteq> of_nat b" for a using b(5) that by (auto simp: allocated_def)
  moreover have "fview s' (of_nat b) = replicate BSIZE 0" using b(5) by (simp add: allocated_def)
  moreover note allocated_used[OF assms(1) b(5) b32 _ nb]
  ultimately show ?thesis unfolding if_not_P[OF False] using b by (intro exI[of _ b] exI[of _ s'] exI[of _ m]) simp
qed

text \<open>
  \<open>bfree\<close> of a block in use clears exactly its bit and changes no other block; freeing a free block panics.
\<close>

theorem bfree_releases_block:
  assumes "fs_ok s n" "n \<le> 28" "bitmap_ok s" "unat b < unat (sb_size (fs_sb s))"
  shows "if used s (unat b)
    then \<exists>s' m. bfree s ROOTDEV b = Ok s' \<and> (\<forall>c<unat (sb_size (fs_sb s)). used s' c \<longleftrightarrow> used s c \<and> c \<noteq> unat b) \<and>
      (\<forall>a. a \<notin> bitmap_blocks s \<longrightarrow> fview s' a = fview s a) \<and> fs_ok s' m \<and> m \<le> n + 1
    else bfree s ROOTDEV b = Panic ''freeing free block''"
proof -
  let ?k = "BBLOCK (unat b) (fs_sb s)" let ?bi = "unat b mod BPB"
  have k: "?k \<notin> logged s" "?k \<in> bitmap_blocks s" using assms(3,4) by (auto simp: bitmap_ok_def bitmap_blocks_def)
  obtain bp s1 s2 s' m where u: "fs_bread s ROOTDEV ?k = Ok (bp, s1)" "fs_data s1 bp = fview s ?k" "same_mem s s1"
      "fs_log_write (fs_set_data s1 bp (bm_unmark (fview s ?k) ?bi)) bp = Ok s2" "fs_brelse s2 bp = Ok s'" "fs_ok s' m" "m \<le> n + 1"
      "fview s' = (fview s)(?k := bm_unmark (fview s ?k) ?bi)" "same_mem s s'"
    using fs_update[OF assms(1,2) k(1), of "\<lambda>d. bm_unmark d ?bi"] fview_length[OF assms(1)] by auto
  show ?thesis
  proof (cases "used s (unat b)")
    case False
    then show ?thesis using u(1,2) by (simp add: bfree_def used_def Let_def)
  next
    case True
    then have run: "bfree s ROOTDEV b = Ok s'" using u(1,2,4,5) by (simp add: bfree_def used_def Let_def)
    have d: "?bi div 8 < length (fview s ?k)" using fview_length[OF assms(1)] BPB_byte by simp
    have "used s' c \<longleftrightarrow> used s c \<and> c \<noteq> unat b" if c: "c < unat (sb_size (fs_sb s))" for c
    proof (cases "BBLOCK c (fs_sb s) = ?k")
      case True
      have "c < 2 ^ 32" "unat b < 2 ^ 32" using below_uint[OF c] below_uint[OF assms(4)] by simp_all
      then have "c div BPB = unat b div BPB" using BBLOCK_eq True by simp
      then have "c mod BPB = ?bi \<longleftrightarrow> c = unat b" by (metis div_mult_mod_eq)
      then show ?thesis using u(8) True bm_unmark_clear[OF d, of "c mod BPB"] same_memD(1)[OF u(9)] by (auto simp: used_def)
    next
      case False
      then show ?thesis using u(8) same_memD(1)[OF u(9)] by (auto simp: used_def)
    qed
    moreover have "fview s' a = fview s a" if "a \<notin> bitmap_blocks s" for a using u(8) k(2) that by auto
    ultimately show ?thesis using True run u(6,7) by auto
  qed
qed

section \<open>Witnesses\<close>

text \<open>A file system of one block, with its bitmap in block 700.\<close>

definition ex_fs :: kfs where
  "ex_fs = \<lparr>fs_log = ex_log, fs_sb = \<lparr>sb_magic = FSMAGIC, sb_size = 1, sb_nblocks = 1, sb_ninodes = 0, sb_nlog = 30, sb_logstart = 2,
     sb_inodestart = 600, sb_bmapstart = 700\<rparr>, fs_inode = [], fs_mem = ex_space, fs_pt = 0, fs_cwd = 0\<rparr>"

lemma ex_fs_ok: "fs_ok ex_fs 0" "bitmap_ok ex_fs" "\<not> used ex_fs 0" "bitmap_blocks ex_fs = {700}"
proof -
  have z: "0 \<notin> log_area 2"
  proof
    assume "0 \<in> log_area 2"
    then obtain t where "t < 29" "(0 :: uint) = laddr 2 t" by (auto simp: log_area_def)
    then have "(of_nat (t + 3) :: uint) = of_nat 0" by (simp add: laddr_def add.commute)
    then show False using of_nat_uint_eq[of "t + 3" 0] \<open>t < 29\<close> by simp
  qed
  show ok: "fs_ok ex_fs 0" using ex_log_ok by (simp add: fs_ok_def ex_fs_def) (simp add: ex_log_def)
  show b: "bitmap_blocks ex_fs = {700}" by (auto simp: bitmap_blocks_def ex_fs_def BBLOCK_def)
  have "fview ex_fs a = replicate BSIZE 0" for a
    using binit_ok(2)[OF boot_ex_cache] by (simp add: fview_def fs_bc_def ex_fs_def ex_log_def) (simp add: ex_cache_def)
  then show "\<not> used ex_fs 0" by (simp add: used_def bm_clear_def BSIZE_def)
  have "logged ex_fs = log_area 2" by (simp add: logged_def ex_fs_def ex_log_def)
  then show "bitmap_ok ex_fs" using z b ex_log_home by (simp add: bitmap_ok_def) (simp add: ex_fs_def ex_log_def)
qed

lemma ex_fs_full: "\<exists>s n. fs_ok s n \<and> n \<le> 2 \<and> bitmap_ok s \<and> sb_size (fs_sb s) = 1 \<and> used s 0"
proof -
  have sz: "unat (sb_size (fs_sb ex_fs)) = 1" by (simp add: ex_fs_def)
  obtain s n where s: "allocated ex_fs 0 s" "fs_ok s n" "n \<le> 2"
    using balloc_ok[OF ex_fs_ok(1) _ ex_fs_ok(2)] ex_fs_ok(3) sz by auto
  have u: "used s 0" using allocated_used[OF ex_fs_ok(1) s(1), of 0] sz ex_fs_ok(4) by simp
  have m: "same_mem ex_fs s" using s(1) by (simp add: allocated_def)
  have "bitmap_ok s" using ex_fs_ok(2) u sz same_memD[OF m] by (simp add: bitmap_ok_def bitmap_blocks_def)
  then show ?thesis using s(2,3) u same_memD(1)[OF m] by (intro exI[of _ s] exI[of _ n]) (simp add: ex_fs_def)
qed

theorem balloc_takes_lowest_free_block_witness: "\<exists>s'. balloc ex_fs ROOTDEV = Ok (0, s') \<and> used s' 0"
proof -
  have sz: "unat (sb_size (fs_sb ex_fs)) = 1" by (simp add: ex_fs_def)
  have "\<not> (\<forall>c<unat (sb_size (fs_sb ex_fs)). used ex_fs c)" using ex_fs_ok(3) sz by auto
  from balloc_takes_lowest_free_block[OF ex_fs_ok(1) _ ex_fs_ok(2), unfolded if_not_P[OF this]] show ?thesis using sz by auto
qed

theorem bfree_releases_block_witness: "\<exists>s s'. used s 0 \<and> bfree s ROOTDEV 0 = Ok s' \<and> \<not> used s' 0"
proof -
  obtain s n where s: "fs_ok s n" "n \<le> 2" "bitmap_ok s" "sb_size (fs_sb s) = 1" "used s 0" using ex_fs_full by blast
  then show ?thesis using bfree_releases_block[OF s(1) _ s(3), of 0] by auto
qed

end
