(* ===== verification/Fs_Data.thy ===== *)
theory Fs_Data
  imports Fs_Inode Fs_Bitmap
begin

text \<open>
  File contents. A file whose blocks are direct and allocated is an array of bytes; \<open>writei\<close> and \<open>readi\<close> are the update and the
  selection of a range of it, whatever the alignment. The source of a write may be a kernel buffer or user memory.
\<close>

section \<open>Files as byte arrays\<close>

definition faddr :: "kfs \<Rightarrow> nat \<Rightarrow> nat \<Rightarrow> uint" where
  "faddr s ip k = i_addrs (inode_at s ip) ! k"

definition fbyte :: "kfs \<Rightarrow> nat \<Rightarrow> nat \<Rightarrow> byte" where
  "fbyte s ip j = fview s (faddr s ip (j div BSIZE)) ! (j mod BSIZE)"

definition fblocks :: "kfs \<Rightarrow> nat \<Rightarrow> uint set" where
  "fblocks s ip = faddr s ip ` {k. k < NDIRECT \<and> faddr s ip k \<noteq> 0}"

text \<open>The blocks of a file are its own: no two the same, none in the log.\<close>

definition file_ok :: "kfs \<Rightarrow> nat \<Rightarrow> bool" where
  "file_ok s ip \<longleftrightarrow> i_dev (inode_at s ip) = ROOTDEV \<and> inj_on (faddr s ip) {k. k < NDIRECT \<and> faddr s ip k \<noteq> 0} \<and>
     fblocks s ip \<inter> logged s = {}"

definition has_blocks :: "kfs \<Rightarrow> nat \<Rightarrow> nat \<Rightarrow> nat \<Rightarrow> bool" where
  "has_blocks s ip off n \<longleftrightarrow> off + n \<le> NDIRECT * BSIZE \<and> (\<forall>j. off \<le> j \<longrightarrow> j < off + n \<longrightarrow> faddr s ip (j div BSIZE) \<noteq> 0)"

lemma BSIZE_pos: "0 < BSIZE"
  by (simp add: BSIZE_def)

lemma same_inode: "same_mem s s' \<Longrightarrow> inode_at s' ip = inode_at s ip"
  by (simp add: inode_at_def same_memD)

lemma same_faddr: "same_mem s s' \<Longrightarrow> faddr s' ip = faddr s ip"
  by (rule ext) (simp add: faddr_def same_inode)

lemma same_file:
  assumes "same_mem s s'"
  shows "fblocks s' ip = fblocks s ip" "file_ok s' ip = file_ok s ip" "has_blocks s' ip off n = has_blocks s ip off n"
  by (simp_all add: fblocks_def file_ok_def has_blocks_def same_faddr[OF assms] same_inode[OF assms] same_memD[OF assms])

text \<open>The block of a position in the range.\<close>

lemma block_at:
  assumes "has_blocks s ip off n" "0 < n"
  shows "off div BSIZE < NDIRECT" "faddr s ip (off div BSIZE) \<noteq> 0" "faddr s ip (off div BSIZE) \<in> fblocks s ip"
    "bmap s ip (off div BSIZE) = Ok (faddr s ip (off div BSIZE), s)"
proof -
  show k: "off div BSIZE < NDIRECT" using assms by (simp add: has_blocks_def less_mult_imp_div_less)
  show z: "faddr s ip (off div BSIZE) \<noteq> 0" using assms by (simp add: has_blocks_def)
  then show "faddr s ip (off div BSIZE) \<in> fblocks s ip" using k by (auto simp: fblocks_def)
  show "bmap s ip (off div BSIZE) = Ok (faddr s ip (off div BSIZE), s)" using k z by (simp add: bmap_def faddr_def Let_def)
qed

lemma has_blocks_later: "has_blocks s ip off n \<Longrightarrow> m \<le> n \<Longrightarrow> has_blocks s ip (off + m) (n - m)"
  by (simp add: has_blocks_def)

text \<open>A chunk of \<open>m\<close> bytes from \<open>off\<close> within one block.\<close>

lemma chunk_block:
  assumes "off mod BSIZE + m \<le> BSIZE" "off \<le> j" "j < off + m"
  shows "j div BSIZE = off div BSIZE" "j mod BSIZE = off mod BSIZE + (j - off)"
proof -
  have j: "j = BSIZE * (off div BSIZE) + (off mod BSIZE + (j - off))" using assms(2) by simp
  have l: "off mod BSIZE + (j - off) < BSIZE" using assms by linarith
  show "j div BSIZE = off div BSIZE" by (subst j) (use l BSIZE_pos in \<open>simp only: div_mult_self4 div_less add_0_right neq0_conv\<close>)
  show "j mod BSIZE = off mod BSIZE + (j - off)" by (subst j) (use l in \<open>simp only: mod_mult_self4 mod_less\<close>)
qed

lemma chunk_bytes:
  assumes "off mod BSIZE + m \<le> BSIZE" "length (fview s (faddr s ip (off div BSIZE))) = BSIZE"
  shows "take m (drop (off mod BSIZE) (fview s (faddr s ip (off div BSIZE)))) = map (fbyte s ip) [off..<off + m]"
proof (rule nth_equalityI)
  fix i assume "i < length (take m (drop (off mod BSIZE) (fview s (faddr s ip (off div BSIZE)))))"
  then have i: "i < m" by simp
  show "take m (drop (off mod BSIZE) (fview s (faddr s ip (off div BSIZE)))) ! i = map (fbyte s ip) [off..<off + m] ! i"
    using chunk_block[OF assms(1), of "off + i"] i assms by (simp add: fbyte_def)
qed (use assms in simp)

section \<open>Reading\<close>

lemma readi_loop_ok:
  assumes "fs_ok s n" "n \<le> 29" "file_ok s ip" "has_blocks s ip off left"
  shows "\<exists>s'. readi_loop s ip Kernel_dst off left = Ok (Some (map (fbyte s ip) [off..<off + left]), s') \<and>
    fs_ok s' n \<and> fview s' = fview s \<and> same_mem s s'"
  using assms
proof (induction left arbitrary: s off rule: less_induct)
  case (less left)
  show ?case
  proof (cases "left = 0")
    case True
    then show ?thesis using less.prems(1) by (simp add: readi_loop.simps)
  next
    case False
    let ?m = "min left (BSIZE - off mod BSIZE)" let ?a = "faddr s ip (off div BSIZE)"
    have m: "0 < ?m" "?m \<le> left" "off mod BSIZE + ?m \<le> BSIZE"
      using False BSIZE_pos mod_less_divisor[OF BSIZE_pos, of off] by (auto simp: min_def)
    have bm: "bmap s ip (off div BSIZE) = Ok (?a, s)" using block_at(4)[OF less.prems(4)] False by simp
    have dev: "i_dev (inode_at s ip) = ROOTDEV" using less.prems(3) by (simp add: file_ok_def)
    obtain bp s1 s2 where r: "fs_bread s ROOTDEV ?a = Ok (bp, s1)" "fs_data s1 bp = fview s ?a" "fs_brelse s1 bp = Ok s2"
        "fs_ok s2 n" "fview s2 = fview s" "same_mem s s2"
      using fs_read[OF less.prems(1,2)] by blast
    have fb: "fbyte s2 ip = fbyte s ip" by (rule ext) (simp add: fbyte_def r(5) same_faddr[OF r(6)])
    obtain s' where s': "readi_loop s2 ip Kernel_dst (off + ?m) (left - ?m) = Ok (Some (map (fbyte s2 ip) [off + ?m..<off + ?m + (left - ?m)]), s')"
        "fs_ok s' n" "fview s' = fview s2" "same_mem s2 s'"
      using less.IH[of "left - ?m" s2 "off + ?m"] m r(4) less.prems(2-4) has_blocks_later[OF less.prems(4) m(2)] same_file[OF r(6)] False by auto
    have xs: "take ?m (drop (off mod BSIZE) (fview s ?a)) = map (fbyte s ip) [off..<off + ?m]"
      using chunk_bytes[OF m(3)] fview_length[OF less.prems(1)] by blast
    have cat: "[off..<off + ?m] @ [off + ?m..<off + ?m + (left - ?m)] = [off..<off + left]"
      using upt_add_eq_append[of off "off + ?m" "left - ?m"] m(2) by simp
    have "readi_loop s ip Kernel_dst off left = Ok (Some (map (fbyte s ip) [off..<off + ?m] @ map (fbyte s ip) [off + ?m..<off + ?m + (left - ?m)]), s')"
      using False bm dev r(1-3) s'(1) xs fb
      by (subst readi_loop.simps) (simp add: Let_def either_copyout_def del: bnd_Ok_iff)
    then show ?thesis using s'(2-4) r(5,6) same_mem_trans unfolding map_append[symmetric] cat by auto
  qed
qed

section \<open>Writing\<close>

text \<open>The bytes a source holds: those of the kernel buffer, or those of user memory.\<close>

definition gives :: "kfs \<Rightarrow> source \<Rightarrow> byte list \<Rightarrow> bool" where
  "gives s src xs \<longleftrightarrow>
     (case src of Kernel_src ys \<Rightarrow> ys = xs
      | User_src a \<Rightarrow> user_space (fs_mem s) (fs_pt s) \<and> ubytes (fs_mem s) (fs_pt s) a (length xs) = Some xs)"

lemma same_gives: "same_mem s s' \<Longrightarrow> gives s' src xs = gives s src xs"
  by (cases src) (simp_all add: gives_def same_memD)

lemma copyin_stores_ubytes:
  assumes "\<forall>p. length (km_mem m p) = 4096" "ubytes m pt a n = Some xs"
  shows "copyin_stores m pt a n = Ok xs"
  using assms(2)
proof (induction n arbitrary: a xs rule: less_induct)
  case (less n)
  note round = ubytes_round[OF assms(1), of n pt a]
  show ?case
  proof (cases "n = 0")
    case True
    then show ?thesis using less.prems by (simp add: copyin_stores.simps ubytes_def)
  next
    case False
    let ?pa = "frame m pt (PGROUNDDOWN a)" let ?off = "unat (a - PGROUNDDOWN a)" let ?k = "min (4096 - ?off) n"
    from False round less.prems obtain ys where ys: "?pa \<noteq> 0" "ubytes m pt (PGROUNDDOWN a + PGSIZE) (n - ?k) = Some ys"
        "xs = page_read m ?pa ?off ?k @ ys"
      by (auto simp: Let_def map_option_eq_Some eq_commute[of "Some xs"] split: if_splits)
    have "copyin_stores m pt (PGROUNDDOWN a + PGSIZE) (n - ?k) = Ok ys"
      using less.IH[OF _ ys(2)] False offset_less[of a] by simp
    then show ?thesis using False ys by (subst copyin_stores.simps) (simp add: walkaddr_frame Let_def)
  qed
qed

lemma ubytes_split:
  assumes "ubytes m pt a (length xs) = Some xs" "k \<le> length xs"
  shows "ubytes m pt a k = Some (take k xs)" "ubytes m pt (a + of_nat k) (length xs - k) = Some (drop k xs)"
proof -
  have "ubytes m pt a (k + (length xs - k)) = Some xs" using assms by simp
  then obtain us vs where u: "ubytes m pt a k = Some us" "ubytes m pt (a + of_nat k) (length xs - k) = Some vs" "xs = us @ vs"
    unfolding ubytes_add by (auto split: option.splits)
  have "length us = k" using u(1) by (auto simp: ubytes_def those_eq_Some dest: arg_cong[where f = length])
  then show "ubytes m pt a k = Some (take k xs)" "ubytes m pt (a + of_nat k) (length xs - k) = Some (drop k xs)" using u by simp_all
qed

lemma gives_chunk:
  assumes "gives s src xs" "m \<le> length xs"
  shows "either_copyin s src m = Ok (0, take m xs)" "gives s (source_add src m) (drop m xs)"
proof -
  have "either_copyin s src m = Ok (0, take m xs) \<and> gives s (source_add src m) (drop m xs)"
  proof (cases src)
    case (Kernel_src ys)
    then show ?thesis using assms by (simp add: gives_def either_copyin_def)
  next
    case (User_src a)
    then have u: "user_space (fs_mem s) (fs_pt s)" "ubytes (fs_mem s) (fs_pt s) a (length xs) = Some xs" using assms(1) by (simp_all add: gives_def)
    note sp = ubytes_split[OF u(2) assms(2)]
    show ?thesis using User_src u(1) sp copyin_ubytes[OF user_spaceD(1)[OF u(1)]] copyin_stores_ubytes[OF user_spaceD(1)[OF u(1)] sp(1)]
      by (simp add: either_copyin_def gives_def)
  qed
  then show "either_copyin s src m = Ok (0, take m xs)" "gives s (source_add src m) (drop m xs)" by simp_all
qed

text \<open>The number of blocks a write of \<open>l\<close> bytes at \<open>off\<close> touches.\<close>

definition rounds :: "nat \<Rightarrow> nat \<Rightarrow> nat" where
  "rounds off l = (if l = 0 then 0 else (off mod BSIZE + l + (BSIZE - 1)) div BSIZE)"

lemma rounds_step:
  assumes "0 < l" "m = min l (BSIZE - off mod BSIZE)"
  shows "rounds off l = Suc (rounds (off + m) (l - m))"
proof (cases "l - m = 0")
  case True
  then have "off mod BSIZE + l \<le> BSIZE" "0 < off mod BSIZE + l" using assms by (auto simp: min_def split: if_splits)
  then have "(off mod BSIZE + l + (BSIZE - 1)) div BSIZE = 1" by (intro div_nat_eqI) (use BSIZE_pos in auto)
  then show ?thesis using True assms(1) by (simp add: rounds_def)
next
  case False
  then have m: "m = BSIZE - off mod BSIZE" "m < l" using assms(2) by (auto simp: min_def split: if_splits)
  then have o: "off mod BSIZE + m = BSIZE" using BSIZE_pos by simp
  have "off + m = BSIZE * (off div BSIZE) + (off mod BSIZE + m)" by simp
  then have z: "(off + m) mod BSIZE = 0" unfolding o by simp
  have "off mod BSIZE + l + (BSIZE - 1) = BSIZE + (l - m + (BSIZE - 1))" using o m(2) by linarith
  then have "(off mod BSIZE + l + (BSIZE - 1)) div BSIZE = Suc ((l - m + (BSIZE - 1)) div BSIZE)"
    using BSIZE_pos by (simp only: div_add_self1 neq0_conv Suc_eq_plus1)
  then show ?thesis using False z assms(1) by (simp only: rounds_def add_0 if_False) simp
qed

lemma writei_loop_ok:
  assumes "fs_ok s n" "n + rounds off (length xs) \<le> 29" "file_ok s ip" "has_blocks s ip off (length xs)" "gives s src xs"
  shows "\<exists>s' m. writei_loop s ip src off (length xs) = Ok (off + length xs, s') \<and> same_mem s s' \<and> fs_ok s' m \<and> m \<le> n + rounds off (length xs) \<and>
    (\<forall>j<NDIRECT * BSIZE. faddr s ip (j div BSIZE) \<noteq> 0 \<longrightarrow>
      fbyte s' ip j = (if off \<le> j \<and> j < off + length xs then xs ! (j - off) else fbyte s ip j)) \<and>
    (\<forall>a. a \<notin> fblocks s ip \<longrightarrow> fview s' a = fview s a)"
  using assms
proof (induction "length xs" arbitrary: s off xs src n rule: less_induct)
  case less
  show ?case
  proof (cases "xs = []")
    case True
    then show ?thesis using less.prems(1) by (intro exI[of _ s] exI[of _ n]) (auto simp: writei_loop.simps)
  next
    case False
    let ?l = "length xs" let ?m = "min ?l (BSIZE - off mod BSIZE)" let ?k = "off div BSIZE" let ?a = "faddr s ip (off div BSIZE)"
    have l: "0 < ?l" using False by simp
    have m: "0 < ?m" "?m \<le> ?l" "off mod BSIZE + ?m \<le> BSIZE" using l BSIZE_pos mod_less_divisor[OF BSIZE_pos, of off] by (auto simp: min_def)
    note blk = block_at[OF less.prems(4) l]
    have rs: "rounds off ?l = Suc (rounds (off + ?m) (?l - ?m))" by (rule rounds_step[OF l refl])
    have dev: "i_dev (inode_at s ip) = ROOTDEV" and a: "?a \<notin> logged s" using less.prems(3) blk(3) by (auto simp: file_ok_def)
    let ?g = "\<lambda>d. patch d (off mod BSIZE) (take ?m xs)"
    have glen: "length (?g (fview s ?a)) = BSIZE" using fview_length[OF less.prems(1)] m by simp
    have n: "n \<le> 28" using less.prems(2) rs by simp
    obtain bp s1 s2 s3 n1 where u: "fs_bread s ROOTDEV ?a = Ok (bp, s1)" "fs_data s1 bp = fview s ?a" "same_mem s s1"
        "fs_log_write (fs_set_data s1 bp (?g (fview s ?a))) bp = Ok s2" "fs_brelse s2 bp = Ok s3"
        "fs_ok s3 n1" "n1 \<le> n + 1" "fview s3 = (fview s)(?a := ?g (fview s ?a))" "same_mem s s3"
      using fs_update[where g = ?g, OF less.prems(1) n a glen] by blast
    note gc = gives_chunk[OF less.prems(5) m(2)]
    have c1: "either_copyin s1 src ?m = Ok (0, take ?m xs)"
      using gives_chunk(1)[OF _ m(2)] same_gives[OF u(3)] less.prems(5) by blast
    have g3: "gives s3 (source_add src ?m) (drop ?m xs)" using gc(2) same_gives[OF u(9)] by blast
    have dl: "length (drop ?m xs) = ?l - ?m" "length (drop ?m xs) < ?l" using m l by simp_all
    have pre: "n1 + rounds (off + ?m) (length (drop ?m xs)) \<le> 29" unfolding dl(1) using less.prems(2) u(7) rs by linarith
    have f3: "file_ok s3 ip" using less.prems(3) same_file(2)[OF u(9)] by blast
    have h3: "has_blocks s3 ip (off + ?m) (length (drop ?m xs))"
      unfolding dl(1) using has_blocks_later[OF less.prems(4) m(2)] same_file(3)[OF u(9)] by blast
    obtain s' m' where IH: "writei_loop s3 ip (source_add src ?m) (off + ?m) (?l - ?m) = Ok (off + ?m + (?l - ?m), s')" "same_mem s3 s'"
        "fs_ok s' m'" "m' \<le> n1 + rounds (off + ?m) (?l - ?m)"
        "\<forall>j<NDIRECT * BSIZE. faddr s3 ip (j div BSIZE) \<noteq> 0 \<longrightarrow>
          fbyte s' ip j = (if off + ?m \<le> j \<and> j < off + ?m + (?l - ?m) then drop ?m xs ! (j - (off + ?m)) else fbyte s3 ip j)"
        "\<forall>a. a \<notin> fblocks s3 ip \<longrightarrow> fview s' a = fview s3 a"
      using less.hyps[OF dl(2) u(6) pre f3 h3 g3, unfolded dl(1)] by blast
    have run: "writei_loop s ip src off ?l = Ok (off + ?l, s')"
      using l blk(4) dev u(1,2,4,5) c1 IH(1) m(2) by (subst writei_loop.simps) (simp add: Let_def del: bnd_Ok_iff)
    have addr: "faddr s3 ip = faddr s ip" "fblocks s3 ip = fblocks s ip" using same_faddr[OF u(9)] same_file(1)[OF u(9)] by simp_all
    have b3: "fbyte s3 ip j = (if off \<le> j \<and> j < off + ?m then xs ! (j - off) else fbyte s ip j)"
      if j: "j < NDIRECT * BSIZE" "faddr s ip (j div BSIZE) \<noteq> 0" for j
    proof (cases "j div BSIZE = ?k")
      case True
      have "j mod BSIZE < BSIZE" using BSIZE_pos by simp
      moreover have "j = BSIZE * ?k + j mod BSIZE" "off = BSIZE * ?k + off mod BSIZE" using True by (metis mult_div_mod_eq)+
      then have "off mod BSIZE \<le> j mod BSIZE \<longleftrightarrow> off \<le> j" "j mod BSIZE < off mod BSIZE + ?m \<longleftrightarrow> j < off + ?m"
          "off \<le> j \<Longrightarrow> j mod BSIZE - off mod BSIZE = j - off" by linarith+
      moreover have "take ?m xs ! (j - off) = xs ! (j - off)" if "off \<le> j" "j < off + ?m"
        using that by (intro nth_take) linarith
      ultimately show ?thesis using u(8) True addr m fview_length[OF less.prems(1)] by (simp add: fbyte_def nth_patch)
    next
      case False
      have "j div BSIZE < NDIRECT" using j(1) by (simp add: less_mult_imp_div_less)
      then have "faddr s ip (j div BSIZE) \<noteq> ?a" using less.prems(3) False j(2) blk(1,2) by (auto simp: file_ok_def inj_on_def)
      moreover have "\<not> (off \<le> j \<and> j < off + ?m)" using chunk_block(1)[OF m(3)] False by blast
      ultimately show ?thesis using u(8) addr by (auto simp: fbyte_def)
    qed
    have "fbyte s' ip j = (if off \<le> j \<and> j < off + ?l then xs ! (j - off) else fbyte s ip j)"
      if j: "j < NDIRECT * BSIZE" "faddr s ip (j div BSIZE) \<noteq> 0" for j
      using IH(5)[rule_format, OF j(1)] j b3[OF j] addr m(2) by auto
    moreover have "fview s' a = fview s a" if "a \<notin> fblocks s ip" for a using IH(6) addr(2) that u(8) blk(3) by auto
    moreover have "m' \<le> n + rounds off ?l" using IH(4) u(7) rs by simp
    ultimately show ?thesis using run IH(3) same_mem_trans[OF u(9) IH(2)] by blast
  qed
qed

section \<open>Inodes on disk\<close>

definition put_first :: "nat \<Rightarrow> byte list \<Rightarrow> nat \<Rightarrow> uint list \<Rightarrow> byte list" where
  "put_first n d off as = fold (\<lambda>k d. put32 d (off + 12 + 4 * k) (as ! k)) [0..<n] d"

lemma put_first_simps [simp]: "put_first 0 d off as = d"
  "put_first (Suc n) d off as = put32 (put_first n d off as) (off + 12 + 4 * n) (as ! n)"
  by (simp_all add: put_first_def)

lemma put_first_spec:
  assumes "off + 64 \<le> length d" "n \<le> 13"
  shows "length (put_first n d off as) = length d \<and> (\<forall>k<n. get32 (put_first n d off as) (off + 12 + 4 * k) = as ! k) \<and>
    (\<forall>i. i + 4 \<le> off + 12 \<longrightarrow> get32 (put_first n d off as) i = get32 d i) \<and>
    (\<forall>i. i + 2 \<le> off + 12 \<longrightarrow> get16 (put_first n d off as) i = get16 d i)"
  using assms(2)
proof (induction n)
  case (Suc n)
  let ?e = "put_first n d off as" let ?o = "off + 12 + 4 * n"
  have len: "length ?e = length d" and o: "?o + 4 \<le> length ?e" using Suc assms(1) by auto
  have "get32 (put32 ?e ?o (as ! n)) (off + 12 + 4 * k) = as ! k" if "k < Suc n" for k
  proof (cases "k = n")
    case True
    then show ?thesis using o by simp
  next
    case False
    then have "get32 (put32 ?e ?o (as ! n)) (off + 12 + 4 * k) = get32 ?e (off + 12 + 4 * k)"
      using o that by (intro get_put_other) auto
    then show ?thesis using Suc False that by simp
  qed
  moreover have "get32 (put32 ?e ?o (as ! n)) i = get32 d i" if "i + 4 \<le> off + 12" for i
    using Suc that o by (subst get_put_other) auto
  moreover have "get16 (put32 ?e ?o (as ! n)) i = get16 d i" if "i + 2 \<le> off + 12" for i
    using Suc that o by (subst get_put_other) auto
  ultimately show ?case using len o by simp
qed simp

lemma put_dinode_get:
  assumes "off + 64 \<le> length d" "length (i_addrs i) = NDIRECT + 1"
  shows "length (put_dinode d off i) = length d"
    "get_dinode (put_dinode d off i) off j = j\<lparr>i_type := i_type i, i_major := i_major i, i_minor := i_minor i, i_nlink := i_nlink i,
       i_size := i_size i, i_addrs := i_addrs i\<rparr>"
proof -
  let ?d = "put32 (put16 (put16 (put16 (put16 d off (i_type i)) (off + 2) (i_major i)) (off + 4) (i_minor i)) (off + 6) (i_nlink i)) (off + 8) (i_size i)"
  have len: "length ?d = length d" using assms(1) by simp
  have p: "put_dinode d off i = put_first 13 ?d off (i_addrs i)"
    by (simp only: put_dinode_def Let_def put_addrs_def put_first_def NDIRECT_def) simp
  note f = put_first_spec[of off ?d 13 "i_addrs i", unfolded len, OF assms(1) order_refl]
  show "length (put_dinode d off i) = length d" using f p by simp
  have "get16 ?d off = i_type i" "get16 ?d (off + 2) = i_major i" "get16 ?d (off + 4) = i_minor i" "get16 ?d (off + 6) = i_nlink i"
      "get32 ?d (off + 8) = i_size i"
    using assms(1) by (simp_all add: get_put_other)
  moreover have "get_addrs (put_dinode d off i) off = i_addrs i"
    unfolding get_addrs_def p by (rule nth_equalityI) (use f assms(2) in \<open>auto simp: NDIRECT_def simp del: upt_Suc\<close>)
  ultimately show "get_dinode (put_dinode d off i) off j = j\<lparr>i_type := i_type i, i_major := i_major i, i_minor := i_minor i, i_nlink := i_nlink i,
       i_size := i_size i, i_addrs := i_addrs i\<rparr>"
    unfolding get_dinode_def using f p by simp
qed

lemma dinode_fits: "dinode_off inum + 64 \<le> BSIZE"
proof -
  have "unat inum mod IPB < IPB" by (simp add: IPB_def)
  then show ?thesis by (simp add: dinode_off_def IPB_def BSIZE_def)
qed

lemma iupdate_ok:
  assumes "fs_ok s n" "n \<le> 28" "i_dev (inode_at s ip) = ROOTDEV" "length (i_addrs (inode_at s ip)) = NDIRECT + 1"
    and "b = IBLOCK (i_inum (inode_at s ip)) (fs_sb s)" "b \<notin> logged s"
  shows "\<exists>s' m. iupdate s ip = Ok s' \<and> fs_ok s' m \<and> m \<le> n + 1 \<and> same_mem s s' \<and>
    fview s' = (fview s)(b := put_dinode (fview s b) (dinode_off (i_inum (inode_at s ip))) (inode_at s ip))"
proof -
  let ?i = "inode_at s ip" let ?g = "\<lambda>d. put_dinode d (dinode_off (i_inum ?i)) ?i"
  have "length (?g (fview s b)) = BSIZE"
    using put_dinode_get(1)[of "dinode_off (i_inum ?i)" "fview s b" ?i] fview_length[OF assms(1)] dinode_fits assms(4) by simp
  then obtain bp s1 s2 s' m where "fs_bread s ROOTDEV b = Ok (bp, s1)" "fs_data s1 bp = fview s b"
      "fs_log_write (fs_set_data s1 bp (?g (fview s b))) bp = Ok s2" "fs_brelse s2 bp = Ok s'"
      "fs_ok s' m" "m \<le> n + 1" "fview s' = (fview s)(b := ?g (fview s b))" "same_mem s s'"
    using fs_update[where g = ?g, OF assms(1,2,6)] by blast
  then show ?thesis using assms(3,5) by (intro exI[of _ s'] exI[of _ m]) (simp add: iupdate_def Let_def)
qed

section \<open>writei and readi\<close>

lemma upd_inode_simps [simp]:
  "fs_ok (upd_inode s ip f) n = fs_ok s n" "fview (upd_inode s ip f) = fview s" "logged (upd_inode s ip f) = logged s"
  "fs_sb (upd_inode s ip f) = fs_sb s" "ip < length (fs_inode s) \<Longrightarrow> inode_at (upd_inode s ip f) ip = f (inode_at s ip)"
  by (simp_all add: upd_inode_def fs_ok_def fview_def fs_bc_def logged_def inode_at_def)

lemma range_words:
  fixes off :: uint
  assumes "unat off + l \<le> NDIRECT * BSIZE"
  shows "unat (off + of_nat l) = unat off + l" "off \<le> off + of_nat l" "\<not> off + of_nat l > of_nat (MAXFILE * BSIZE)"
    "unat (of_nat l :: uint) = l" "sint (of_nat l :: uint) = int l" "(of_nat (unat off + l) :: uint) = off + of_nat l"
proof -
  have l: "l \<le> 12288" "unat off + l \<le> 12288" using assms by (simp_all add: NDIRECT_def BSIZE_def)
  show u: "unat (of_nat l :: uint) = l" using l by (simp add: unsigned_of_nat take_bit_nat_eq_self)
  show s: "unat (off + of_nat l) = unat off + l"
    using l u unat_word_ariths(1)[of off "of_nat l"] by simp
  show "off \<le> off + of_nat l" using s by (simp add: word_le_nat_alt)
  have "unat (of_nat (MAXFILE * BSIZE) :: uint) = 274432" by (simp add: MAXFILE_def NDIRECT_def NINDIRECT_def BSIZE_def)
  then show "\<not> off + of_nat l > of_nat (MAXFILE * BSIZE)" using s l by (simp add: word_less_nat_alt)
  show "sint (of_nat l :: uint) = int l" using l by (simp add: signed_of_nat signed_take_bit_int_eq_self)
  show "(of_nat (unat off + l) :: uint) = off + of_nat l" by simp
qed

lemma readi_ok:
  assumes "fs_ok s n" "n \<le> 29" "file_ok s ip" "has_blocks s ip (unat off) l" "off + of_nat l \<le> i_size (inode_at s ip)"
  shows "\<exists>s'. readi s ip Kernel_dst off (of_nat l) = Ok (int l, map (fbyte s ip) [unat off..<unat off + l], s') \<and>
    fs_ok s' n \<and> fview s' = fview s \<and> same_mem s s'"
proof -
  have r: "unat off + l \<le> NDIRECT * BSIZE" using assms(4) by (simp add: has_blocks_def)
  note w = range_words[OF r]
  obtain s' where s': "readi_loop s ip Kernel_dst (unat off) l = Ok (Some (map (fbyte s ip) [unat off..<unat off + l]), s')"
      "fs_ok s' n" "fview s' = fview s" "same_mem s s'" using readi_loop_ok[OF assms(1-4)] by blast
  have "\<not> off > i_size (inode_at s ip)" using w(2) assms(5) by simp
  then show ?thesis using s' w assms(5) by (auto simp: readi_def Let_def)
qed


text \<open>A file of 100 bytes in block 500, with its inode in block 600.\<close>

definition ex_file :: kfs where
  "ex_file = ex_fs\<lparr>fs_inode := [\<lparr>i_dev = ROOTDEV, i_inum = 1, i_ref = 1, i_lock = initsleeplock, i_valid = True, i_type = 2, i_major = 0,
     i_minor = 0, i_nlink = 1, i_size = 100, i_addrs = 500 # replicate 12 0\<rparr>]\<rparr>"

lemma ex_outside_log: "500 \<notin> logged ex_file" "600 \<notin> logged ex_file"
proof -
  have "(of_nat k :: uint) \<notin> logged ex_file" if "32 \<le> k" "k < 1000" for k
  proof
    assume "(of_nat k :: uint) \<in> logged ex_file"
    then have "(of_nat k :: uint) = of_nat 2 \<or> (\<exists>t<29. (of_nat k :: uint) = of_nat (t + 3))"
      by (auto simp: logged_def ex_file_def ex_fs_def ex_log_def log_area_def laddr_def algebra_simps)
    moreover have "(of_nat k :: uint) \<noteq> of_nat (t + 3)" if "t < 29" for t
      using of_nat_uint_eq[of k "t + 3"] that \<open>32 \<le> k\<close> \<open>k < 1000\<close> by simp
    moreover have "(of_nat k :: uint) \<noteq> of_nat 2" using of_nat_uint_eq[of k 2] \<open>32 \<le> k\<close> \<open>k < 1000\<close> by simp
    ultimately show False by blast
  qed
  from this[of 500] this[of 600] show "500 \<notin> logged ex_file" "600 \<notin> logged ex_file" by simp_all
qed


end
