(* ===== verification/Fs_Path.thy ===== *)
theory Fs_Path
  imports Fs_Dir
begin

text \<open>
  Path names. \<open>components\<close> is the specification of what a path means: its maximal runs of bytes other than \<open>/\<close>. \<open>skipelem\<close> takes
  them off one by one.
\<close>

function components :: "byte list \<Rightarrow> byte list list" where
  "components p =
     (let q = dropWhile (\<lambda>c. c = slash) p in
      if q = [] then [] else takeWhile (\<lambda>c. c \<noteq> slash) q # components (dropWhile (\<lambda>c. c \<noteq> slash) q))"
  by pat_completeness auto
termination
proof (relation "measure length")
  fix p q :: "byte list"
  assume q: "q = dropWhile (\<lambda>c. c = slash) p" "q \<noteq> []"
  have "hd q \<noteq> slash" unfolding q(1) by (rule hd_dropWhile[of "\<lambda>c. c = slash" p]) (use q in simp)
  then obtain c r where c: "q = c # r" "c \<noteq> slash" using q(2) by (cases q) auto
  have "length (dropWhile (\<lambda>c. c \<noteq> slash) q) \<le> length r" using c by (simp add: length_dropWhile_le)
  also have "\<dots> < length q" using c by simp
  also have "\<dots> \<le> length p" using q(1) by (simp add: length_dropWhile_le)
  finally show "(dropWhile (\<lambda>c. c \<noteq> slash) q, p) \<in> measure length" by simp
qed simp

declare components.simps [simp del]

text \<open>The name held in a buffer of \<open>DIRSIZ\<close> bytes, which is terminated only when it is shorter.\<close>

definition buffer_name :: "byte list \<Rightarrow> byte list" where
  "buffer_name nm = takeWhile (\<lambda>c. c \<noteq> 0) (take DIRSIZ nm)"

lemma skip_slashes_drop:
  "0 \<notin> set p \<Longrightarrow> skip_slashes (p @ [0]) = Ok (dropWhile (\<lambda>c. c = slash) p @ [0])"
  by (induction p) (auto simp: slash_def)

lemma span_elem_take:
  "0 \<notin> set p \<Longrightarrow> span_elem (p @ [0]) = Ok (takeWhile (\<lambda>c. c \<noteq> slash) p, dropWhile (\<lambda>c. c \<noteq> slash) p @ [0])"
  by (induction p) auto

lemma components_skip: "components (dropWhile (\<lambda>c. c = slash) p) = components p"
  by (subst (1 2) components.simps) simp

lemma set_dropWhile: "0 \<notin> set p \<Longrightarrow> 0 \<notin> set (dropWhile P p)"
  using set_dropWhileD by metis



end
