(* ===== verification/Printf.thy ===== *)
theory Printf
  imports Kernel_Prelude
begin

text \<open>
  Formatted output: \<open>kernel/printf.c\<close> and the user library's \<open>user/printf.c\<close>. A call is modelled by the characters it
  outputs, in order; \<open>va_arg\<close> takes the next argument and is undefined when there is none of its type.
\<close>

section \<open>Definitions\<close>

abbreviation ascii :: "string \<Rightarrow> byte list" where "ascii s \<equiv> map of_char s"

definition digits :: "byte list" where "digits = ascii ''0123456789abcdef''"
definition udigits :: "byte list" where "udigits = ascii ''0123456789ABCDEF''"

text \<open>
  The digit loop of \<open>printint\<close>, which fills \<open>buf\<close> of 16 characters from index \<open>i\<close>, least significant digit first. The two
  \<open>printint\<close> functions have it in common.
\<close>

function digit_loop :: "byte list \<Rightarrow> uint \<Rightarrow> uint \<Rightarrow> nat \<Rightarrow> byte list outcome" where
  "digit_loop ds base x i =
     (if base = 0 then Fault ''division by zero''
      else if i \<ge> 16 then Fault ''buf''
      else bnd (aget ds (uint (x mod base))) (\<lambda>c.
           if x div base \<noteq> 0 then bnd (digit_loop ds base (x div base) (i + 1)) (\<lambda>cs. Ok (c # cs)) else Ok [c]))"
  by pat_completeness auto
termination
  by (relation "measure (\<lambda>(ds, base, x, i). 16 - i)") auto

declare digit_loop.simps [simp del]

definition printint :: "uint \<Rightarrow> uint \<Rightarrow> bool \<Rightarrow> byte list outcome" where
  "printint xx base sign =
     (let sign = (sign \<and> sint xx < 0); x = (if sign then - xx else xx)
      in bnd (digit_loop digits base x 0) (\<lambda>buf.
         if sign then if length buf \<ge> 16 then Fault ''buf'' else Ok (rev (buf @ ascii ''-'')) else Ok (rev buf)))"

primrec ptr_loop :: "byte list \<Rightarrow> nat \<Rightarrow> uint64 \<Rightarrow> byte list" where
  "ptr_loop ds 0 x = []"
| "ptr_loop ds (Suc n) x = ds ! unat (drop_bit 60 x) # ptr_loop ds n (push_bit 4 x)"

definition printptr :: "uint64 \<Rightarrow> byte list" where
  "printptr x = ascii ''0x'' @ ptr_loop digits 16 x"

datatype vararg = VInt uint | VLong uint64 | VStr "byte list option"

fun va_int :: "vararg list \<Rightarrow> (uint \<times> vararg list) outcome" where
  "va_int (VInt x # ap) = Ok (x, ap)"
| "va_int ap = Fault ''va_arg''"

fun va_long :: "vararg list \<Rightarrow> (uint64 \<times> vararg list) outcome" where
  "va_long (VLong x # ap) = Ok (x, ap)"
| "va_long ap = Fault ''va_arg''"

fun va_str :: "vararg list \<Rightarrow> (byte list \<times> vararg list) outcome" where
  "va_str (VStr None # ap) = Ok (ascii ''(null)'', ap)"
| "va_str (VStr (Some s) # ap) = Ok (takeWhile (\<lambda>c. c \<noteq> 0) s, ap)"
| "va_str ap = Fault ''va_arg''"

definition out :: "byte list \<Rightarrow> byte list outcome \<Rightarrow> byte list outcome" where
  "out cs r = bnd r (\<lambda>ds. Ok (cs @ ds))"

text \<open>The loop of the kernel's \<open>printf\<close> over the format.\<close>

fun printf_loop :: "byte list \<Rightarrow> vararg list \<Rightarrow> byte list outcome" where
  "printf_loop [] ap = Ok []"
| "printf_loop [c] ap = (if c = 0 \<or> c = of_char CHR ''%'' then Ok [] else Ok [c])"
| "printf_loop (c # d # fmt) ap =
     (if c = 0 then Ok []
      else if c \<noteq> of_char CHR ''%'' then out [c] (printf_loop (d # fmt) ap)
      else if d = 0 then Ok []
      else if d = of_char CHR ''d'' then
        bnd (va_int ap) (\<lambda>(x, ap). bnd (printint x 10 True) (\<lambda>cs. out cs (printf_loop fmt ap)))
      else if d = of_char CHR ''x'' then
        bnd (va_int ap) (\<lambda>(x, ap). bnd (printint x 16 True) (\<lambda>cs. out cs (printf_loop fmt ap)))
      else if d = of_char CHR ''p'' then
        bnd (va_long ap) (\<lambda>(x, ap). out (printptr x) (printf_loop fmt ap))
      else if d = of_char CHR ''s'' then
        bnd (va_str ap) (\<lambda>(s, ap). out s (printf_loop fmt ap))
      else if d = of_char CHR ''%'' then out (ascii ''%'') (printf_loop fmt ap)
      else out [of_char CHR ''%'', d] (printf_loop fmt ap))"

definition printf :: "byte list option \<Rightarrow> vararg list \<Rightarrow> byte list outcome" where
  "printf fmt ap = (case fmt of None \<Rightarrow> Panic ''null fmt'' | Some fmt \<Rightarrow> printf_loop fmt ap)"

text \<open>The characters \<open>panic\<close> prints before it stops; the message is itself used as a format.\<close>

definition panic_message :: "byte list \<Rightarrow> byte list outcome" where
  "panic_message s =
     bnd (printf (Some (ascii ''panic: '')) []) (\<lambda>a.
     bnd (printf (Some s) []) (\<lambda>b.
     bnd (printf (Some [10]) []) (\<lambda>c. Ok (a @ b @ c))))"

text \<open>The user library.\<close>

definition uprintint :: "uint \<Rightarrow> uint \<Rightarrow> bool \<Rightarrow> byte list outcome" where
  "uprintint xx base sg =
     (let neg = (sg \<and> sint xx < 0); x = (if neg then - xx else xx)
      in bnd (digit_loop udigits base x 0) (\<lambda>buf.
         if neg then if length buf \<ge> 16 then Fault ''buf'' else Ok (rev (buf @ ascii ''-'')) else Ok (rev buf)))"

definition uprintptr :: "uint64 \<Rightarrow> byte list" where
  "uprintptr x = ascii ''0x'' @ ptr_loop udigits 16 x"

fun vprintf_loop :: "bool \<Rightarrow> byte list \<Rightarrow> vararg list \<Rightarrow> byte list outcome" where
  "vprintf_loop state [] ap = Ok []"
| "vprintf_loop state (c # fmt) ap =
     (if c = 0 then Ok []
      else if \<not> state then
        if c = of_char CHR ''%'' then vprintf_loop True fmt ap else out [c] (vprintf_loop False fmt ap)
      else if c = of_char CHR ''d'' then
        bnd (va_int ap) (\<lambda>(x, ap). bnd (uprintint x 10 True) (\<lambda>cs. out cs (vprintf_loop False fmt ap)))
      else if c = of_char CHR ''l'' then
        bnd (va_long ap) (\<lambda>(x, ap). bnd (uprintint (ucast x) 10 False) (\<lambda>cs. out cs (vprintf_loop False fmt ap)))
      else if c = of_char CHR ''x'' then
        bnd (va_int ap) (\<lambda>(x, ap). bnd (uprintint x 16 False) (\<lambda>cs. out cs (vprintf_loop False fmt ap)))
      else if c = of_char CHR ''p'' then
        bnd (va_long ap) (\<lambda>(x, ap). out (uprintptr x) (vprintf_loop False fmt ap))
      else if c = of_char CHR ''s'' then
        bnd (va_str ap) (\<lambda>(s, ap). out s (vprintf_loop False fmt ap))
      else if c = of_char CHR ''c'' then
        bnd (va_int ap) (\<lambda>(x, ap). out [ucast x] (vprintf_loop False fmt ap))
      else if c = of_char CHR ''%'' then out [c] (vprintf_loop False fmt ap)
      else out [of_char CHR ''%'', c] (vprintf_loop False fmt ap))"

definition vprintf :: "byte list \<Rightarrow> vararg list \<Rightarrow> byte list outcome" where
  "vprintf fmt ap = vprintf_loop False fmt ap"

section \<open>Numbers read back\<close>

text \<open>The number a string of digits stands for, most significant digit first, and of an optional sign and digits.\<close>

definition digit_value :: "byte list \<Rightarrow> byte \<Rightarrow> int" where
  "digit_value ds c = int (length (takeWhile (\<lambda>d. d \<noteq> c) ds))"

definition read_digits :: "byte list \<Rightarrow> int \<Rightarrow> byte list \<Rightarrow> int" where
  "read_digits ds base cs = fold (\<lambda>c v. v * base + digit_value ds c) cs 0"

definition read_int :: "byte list \<Rightarrow> int \<Rightarrow> byte list \<Rightarrow> int" where
  "read_int ds base cs = (if cs \<noteq> [] \<and> hd cs = of_char CHR ''-'' then - read_digits ds base (tl cs) else read_digits ds base cs)"

lemma digit_value_nth:
  assumes "distinct ds" "i < length ds"
  shows "digit_value ds (ds ! i) = int i"
proof -
  have "takeWhile (\<lambda>d. d \<noteq> ds ! i) ds = take i ds"
    using assms by (intro takeWhile_eq_take_P_nth) (auto simp: nth_eq_iff_index_eq)
  then show ?thesis using assms(2) by (simp add: digit_value_def)
qed

lemma read_digits_snoc: "read_digits ds base (cs @ [c]) = read_digits ds base cs * base + digit_value ds c"
  by (simp add: read_digits_def)

lemma digit_in: "length ds = 16 \<Longrightarrow> unat d < unat (base :: uint) \<Longrightarrow> base \<le> 16 \<Longrightarrow> ds ! unat d \<in> set (take (unat base) ds)"
  by (auto simp: in_set_conv_nth word_le_nat_alt intro!: exI[of _ "unat d"])

lemma digit_loop_reads:
  assumes "distinct ds" "length ds = 16" "10 \<le> base" "base \<le> 16"
  shows "unat x < 10 ^ Suc n \<Longrightarrow> i + Suc n \<le> 16 \<Longrightarrow>
    \<exists>buf. digit_loop ds base x i = Ok buf \<and> length buf \<le> Suc n \<and> buf \<noteq> [] \<and> set buf \<subseteq> set (take (unat base) ds) \<and>
      read_digits ds (uint base) (rev buf) = uint x"
proof (induction n arbitrary: x i)
  case 0
  have b: "10 \<le> unat base" "unat base \<le> 16" using assms(3,4) by (simp_all add: word_le_nat_alt)
  have less: "unat x < unat base" using b(1) 0(1) by simp
  have d: "unat x div unat base = 0" "unat (x mod base) = unat x" using less by (simp_all add: unat_mod)
  have d1: "unat (x mod base) < 16" using less b(2) d(2) by simp
  have x: "x div base = 0" using d(1) by (simp add: word_unat_eq_iff unat_div)
  have g: "aget ds (uint (x mod base)) = Ok (ds ! unat (x mod base))" using aget_int[of "unat (x mod base)" ds] d1 assms(2) by simp
  have "base \<noteq> 0" using b(1) by auto
  then have "digit_loop ds base x i = Ok [ds ! unat (x mod base)]"
    using x g 0(2) by (subst digit_loop.simps) simp
  moreover have "read_digits ds (uint base) [ds ! unat (x mod base)] = uint x"
    using digit_value_nth[OF assms(1), of "unat (x mod base)"] d d1 assms(2) by (simp add: read_digits_def)
  ultimately show ?case using digit_in[OF assms(2) less[folded d(2)] assms(4)] by simp
next
  case (Suc n)
  have b: "10 \<le> unat base" "unat base \<le> 16" using assms(3,4) by (simp_all add: word_le_nat_alt)
  have mb: "unat (x mod base) < unat base" using b(1) unfolding unat_mod by (intro mod_less_divisor) simp
  have m: "unat (x mod base) < 16" unfolding unat_mod
    by (rule less_le_trans[OF mod_less_divisor b(2)]) (use b(1) in simp)
  have g: "aget ds (uint (x mod base)) = Ok (ds ! unat (x mod base))" using aget_int[of "unat (x mod base)" ds] m assms(2) by simp
  have v: "digit_value ds (ds ! unat (x mod base)) = uint (x mod base)" using digit_value_nth[OF assms(1)] m assms(2) by simp
  show ?case
  proof (cases "x div base = 0")
    case True
    then have "x mod base = x" by (metis add_0 div_mult_mod_eq mult_zero_left)
    then show ?thesis using True g v Suc.prems(2) b(1) digit_in[OF assms(2) mb assms(4)]
      by (subst digit_loop.simps) (auto simp: read_digits_def)
  next
    case False
    have "unat x div unat base < 10 ^ Suc n"
    proof -
      have "unat x < 10 ^ Suc n * 10" using Suc.prems(1) by simp
      also have "\<dots> \<le> 10 ^ Suc n * unat base" using b(1) by (intro mult_le_mono2)
      finally show ?thesis by (simp add: less_mult_imp_div_less)
    qed
    then have "unat (x div base) < 10 ^ Suc n" by (simp add: unat_div)
    then obtain buf where buf: "digit_loop ds base (x div base) (i + 1) = Ok buf" "length buf \<le> Suc n" "set buf \<subseteq> set (take (unat base) ds)"
        "read_digits ds (uint base) (rev buf) = uint (x div base)" using Suc.IH[of "x div base" "i + 1"] Suc.prems(2) by auto
    have "digit_loop ds base x i = Ok (ds ! unat (x mod base) # buf)"
      using False g buf(1) Suc.prems(2) b(1) by (subst digit_loop.simps) auto
    moreover have "read_digits ds (uint base) (rev (ds ! unat (x mod base) # buf)) = uint x"
      using buf(4) v by (simp add: read_digits_snoc uint_div uint_mod)
    ultimately show ?thesis using buf(2,3) digit_in[OF assms(2) mb assms(4)] by simp
  qed
qed

text \<open>The part of \<open>printint\<close> after the sign is known.\<close>

definition signed_digits :: "byte list \<Rightarrow> uint \<Rightarrow> uint \<Rightarrow> bool \<Rightarrow> byte list outcome" where
  "signed_digits ds base x neg = bnd (digit_loop ds base x 0) (\<lambda>buf.
     if neg then if length buf \<ge> 16 then Fault ''buf'' else Ok (rev (buf @ ascii ''-'')) else Ok (rev buf))"

lemma signed_digits_reads:
  assumes "distinct ds" "length ds = 16" "10 \<le> base" "base \<le> 16" "of_char CHR ''-'' \<notin> set ds"
  shows "\<exists>cs. signed_digits ds base x neg = Ok cs \<and> length cs \<le> 11 \<and> read_int ds (uint base) cs = (if neg then - uint x else uint x)"
proof -
  have "unat x < 10 ^ Suc 9" using unsigned_less[of x, where ?'a=nat] by simp
  then obtain buf where buf: "digit_loop ds base x 0 = Ok buf" "length buf \<le> 10" "buf \<noteq> []" "set buf \<subseteq> set (take (unat base) ds)"
      "read_digits ds (uint base) (rev buf) = uint x" using digit_loop_reads[OF assms(1-4), of x 9 0] by auto
  have "hd (rev buf) \<in> set ds" using buf(3,4) set_take_subset[of "unat base" ds] last_in_set[of buf] unfolding hd_rev by blast
  then have "hd (rev buf) \<noteq> of_char CHR ''-''" using assms(5) by metis
  then show ?thesis using buf by (auto simp: signed_digits_def read_int_def)
qed

lemma digit_lists: "distinct digits" "length digits = 16" "of_char CHR ''-'' \<notin> set digits"
  "distinct udigits" "length udigits = 16" "of_char CHR ''-'' \<notin> set udigits"
  by (simp_all add: digits_def udigits_def)

lemma neg_uint: "sint (x :: uint) < 0 \<Longrightarrow> - uint (- x) = sint x"
proof -
  assume n: "sint x < 0"
  have "uint (of_int (- sint x) :: uint) = (- sint x) mod 2 ^ 32" by (subst uint_word_of_int) simp
  moreover have "- sint x < 2 ^ 32" using sint_ge[of x] by simp
  ultimately show ?thesis using n by simp
qed

lemma pos_uint: "0 \<le> sint (x :: uint) \<Longrightarrow> uint x = sint x"
proof -
  assume n: "0 \<le> sint x"
  have "uint (of_int (sint x) :: uint) = sint x mod 2 ^ 32" by (subst uint_word_of_int) simp
  moreover have "sint x < 2 ^ 32" using sint_less[of x] by simp
  ultimately show ?thesis using n by simp
qed

lemma printint_returns: "base = 10 \<or> base = 16 \<Longrightarrow> \<exists>cs. printint xx base sign = Ok cs"
  using signed_digits_reads[OF digit_lists(1,2) _ _ digit_lists(3), of base "if sign \<and> sint xx < 0 then - xx else xx" "sign \<and> sint xx < 0"]
  by (auto simp: printint_def signed_digits_def Let_def simp del: bnd_Ok_iff)

text \<open>
  C10: Numbers printed in base 10 or 16 fit the buffer and read back as the number that was printed, the
  smallest integer included, by the kernel's and by the user library's routine.
\<close>

theorem printint_reads_back:
  assumes "base = 10 \<or> base = 16"
  shows "(\<exists>cs. printint xx base sign = Ok cs \<and> length cs \<le> 11 \<and>
      read_int digits (uint base) cs = (if sign then sint xx else uint xx)) \<and>
    (\<exists>cs. uprintint xx base sign = Ok cs \<and> length cs \<le> 11 \<and>
      read_int udigits (uint base) cs = (if sign then sint xx else uint xx))"
proof -
  let ?n = "sign \<and> sint xx < 0" let ?x = "if sign \<and> sint xx < 0 then - xx else xx"
  have b: "10 \<le> base" "base \<le> 16" using assms by auto
  have v: "(if ?n then - uint ?x else uint ?x) = (if sign then sint xx else uint xx)"
    using neg_uint[of xx] pos_uint[of xx] by auto
  have "printint xx base sign = signed_digits digits base ?x ?n" "uprintint xx base sign = signed_digits udigits base ?x ?n"
    by (simp_all only: printint_def uprintint_def signed_digits_def Let_def)
  then show ?thesis using signed_digits_reads[OF digit_lists(1,2) b digit_lists(3), of ?x ?n]
      signed_digits_reads[OF digit_lists(4,5) b digit_lists(6), of ?x ?n] v by simp
qed

theorem printint_reads_back_witness:
  "\<exists>cs. printint 0x80000000 10 True = Ok cs \<and> length cs \<le> 11 \<and> read_int digits 10 cs = - 2147483648"
  using printint_reads_back[of 10 "0x80000000" True] by simp

text \<open>
  The conversion \<open>%l\<close> of the user library takes a 64-bit argument but prints only its low 32 bits, so that different
  arguments print alike.
\<close>

theorem percent_l_truncates: "vprintf (ascii ''%l'') [VLong x] = vprintf (ascii ''%l'') [VLong (x + 2 ^ 32)]"
proof -
  have "unat (x + 2 ^ 32) mod 2 ^ 32 = (unat x + 2 ^ 32) mod 2 ^ 32"
    by (simp add: unat_word_ariths(1) mod_mod_cancel)
  then have "ucast (x + 2 ^ 32) = (ucast x :: uint)"
    by (simp add: word_unat_eq_iff unsigned_ucast_eq take_bit_eq_mod)
  then show ?thesis by (simp add: vprintf_def)
qed

end
