(* ===== verification/User_Lib.thy ===== *)
theory User_Lib
  imports Kernel_String Printf
begin

text \<open>
  The user library \<open>user/ulib.c\<close>, in the conventions of \<open>Kernel_String\<close>: a region of memory is a byte list, a pointer
  an offset, an access outside it a \<open>Fault\<close>. Names that the kernel's string functions also have start with \<open>u\<close>.
\<close>

section \<open>Definitions\<close>

fun strcpy_loop :: "byte list \<Rightarrow> nat \<Rightarrow> byte list \<Rightarrow> byte list outcome" where
  "strcpy_loop s i [] = Fault ''read outside array''"
| "strcpy_loop s i (c # t) = bnd (aset s (int i) c) (\<lambda>s. if c \<noteq> 0 then strcpy_loop s (Suc i) t else Ok s)"

definition strcpy :: "byte list \<Rightarrow> byte list \<Rightarrow> byte list outcome" where
  "strcpy s t = strcpy_loop s 0 t"

fun strcmp :: "byte list \<Rightarrow> byte list \<Rightarrow> int outcome" where
  "strcmp (a # p) (b # q) = (if a \<noteq> 0 \<and> a = b then strcmp p q else Ok (uint a - uint b))"
| "strcmp p q = Fault ''read outside array''"

fun ustrlen_loop :: "byte list \<Rightarrow> int \<Rightarrow> int outcome" where
  "ustrlen_loop [] n = Fault ''read outside array''"
| "ustrlen_loop (c # s) n = (if c \<noteq> 0 then ustrlen_loop s (n + 1) else Ok n)"

definition ustrlen :: "byte list \<Rightarrow> int outcome" where
  "ustrlen s = ustrlen_loop s 0"

definition umemset :: "byte list \<Rightarrow> nat \<Rightarrow> int \<Rightarrow> uint \<Rightarrow> byte list outcome" where
  "umemset mem dst c n = memset_loop mem dst (word_of_int c) (unat n)"

text \<open>The offset of the first \<open>c\<close>, or \<open>None\<close> for the null pointer.\<close>

fun strchr :: "byte list \<Rightarrow> byte \<Rightarrow> nat option outcome" where
  "strchr [] c = Fault ''read outside array''"
| "strchr (x # s) c = (if x = 0 then Ok None else if x = c then Ok (Some 0) else bnd (strchr s c) (\<lambda>r. Ok (map_option Suc r)))"

text \<open>\<open>gets\<close> reads standard input, here \<open>inp\<close>, a byte at a time; the result is the buffer and the input left.\<close>

function gets_loop :: "byte list \<Rightarrow> int \<Rightarrow> int \<Rightarrow> byte list \<Rightarrow> (byte list \<times> byte list) outcome" where
  "gets_loop buf mx i inp =
     (if i + 1 < mx then
        case inp of [] \<Rightarrow> bnd (aset buf i 0) (\<lambda>buf. Ok (buf, []))
        | c # inp \<Rightarrow>
            bnd (aset buf i c) (\<lambda>buf.
            if c = 10 \<or> c = 13 then bnd (aset buf (i + 1) 0) (\<lambda>buf. Ok (buf, inp))
            else gets_loop buf mx (i + 1) inp)
      else bnd (aset buf i 0) (\<lambda>buf. Ok (buf, inp)))"
  by pat_completeness auto
termination
  by (relation "measure (\<lambda>(buf, mx, i, inp). length inp)") auto

declare gets_loop.simps [simp del]

definition gets :: "byte list \<Rightarrow> int \<Rightarrow> byte list \<Rightarrow> (byte list \<times> byte list) outcome" where
  "gets buf mx inp = gets_loop buf mx 0 inp"

fun atoi_loop :: "uint \<Rightarrow> byte list \<Rightarrow> uint outcome" where
  "atoi_loop n [] = Fault ''read outside array''"
| "atoi_loop n (c # s) =
     (if of_char CHR ''0'' \<le> c \<and> c \<le> of_char CHR ''9'' then atoi_loop (n * 10 + ucast c - of_char CHR ''0'') s else Ok n)"

definition atoi :: "byte list \<Rightarrow> uint outcome" where
  "atoi s = atoi_loop 0 s"

definition umemmove :: "byte list \<Rightarrow> nat \<Rightarrow> nat \<Rightarrow> int \<Rightarrow> byte list outcome" where
  "umemmove mem vdst vsrc n = (if vsrc > vdst then move_up mem vdst vsrc (nat n) else move_down mem vdst vsrc (nat n))"

definition umemcmp :: "byte list \<Rightarrow> nat \<Rightarrow> nat \<Rightarrow> uint \<Rightarrow> int outcome" where
  "umemcmp mem s1 s2 n = memcmp_loop mem s1 s2 (unat n)"

definition umemcpy :: "byte list \<Rightarrow> nat \<Rightarrow> nat \<Rightarrow> uint \<Rightarrow> byte list outcome" where
  "umemcpy mem dst src n = umemmove mem dst src (sint n)"

section \<open>Strings\<close>

lemma strchr_cstr:
  "0 \<in> set s \<Longrightarrow> c \<noteq> 0 \<Longrightarrow>
   strchr s c = Ok (if c \<in> set (cstr s) then Some (length (takeWhile (\<lambda>x. x \<noteq> c) (cstr s))) else None)"
  by (induction s) (auto simp: cstr_def)

lemma strcmp_cstr: "0 \<in> set p \<Longrightarrow> 0 \<in> set q \<Longrightarrow> \<exists>r. strcmp p q = Ok r \<and> (r = 0 \<longleftrightarrow> cstr p = cstr q)"
proof (induction p q rule: strcmp.induct)
  case (1 a p b q)
  then show ?case by (auto simp: cstr_def word_uint_eq_iff)
qed simp_all

section \<open>Moving memory\<close>

lemma move_down_self: "s + n \<le> length mem \<Longrightarrow> move_down mem s s n = Ok mem"
  by (induction n) simp_all

text \<open>
  The \<open>memmove\<close> of the user library, which chooses its direction by comparing the pointers, and the kernel's, which
  tests for an overlap, are the same function on every pair of ranges, overlapping or not.
\<close>

theorem umemmove_is_memmove:
  assumes "dst + unat n \<le> length mem" "src + unat n \<le> length mem"
  shows "umemmove mem dst src (int (unat n)) = memmove mem dst src n"
proof -
  let ?r = "Ok (patch mem dst (take (unat n) (drop src mem)))"
  have k: "memmove mem dst src n = ?r"
  proof (cases "n = 0")
    case True
    then show ?thesis by (simp add: memmove_def patch_def)
  next
    case False
    then show ?thesis using move_up_spec[OF assms] move_down_spec[OF assms] by (auto simp: memmove_def)
  qed
  have "umemmove mem dst src (int (unat n)) = ?r"
  proof (cases "src = dst")
    case True
    then show ?thesis using move_down_self[OF assms(2)] assms by (simp add: umemmove_def patch_def) (metis append_take_drop_id drop_drop add.commute)
  next
    case False
    then show ?thesis using move_up_spec[OF assms] move_down_spec[OF assms] by (auto simp: umemmove_def)
  qed
  then show ?thesis using k by simp
qed

theorem umemmove_is_memmove_witness:
  "umemmove [1, 2, 3, 4] 1 0 3 = memmove [1, 2, 3, 4] 1 0 3"
  using umemmove_is_memmove[of 1 3 "[1, 2, 3, 4]" 0] by simp

section \<open>Numbers\<close>

lemma decimal_digit:
  "c \<in> set (take 10 udigits) \<Longrightarrow> of_char CHR ''0'' \<le> c \<and> c \<le> of_char CHR ''9'' \<and> digit_value udigits c = uint c - 48"
  by (auto simp: udigits_def digit_value_def)

lemma atoi_loop_reads:
  assumes "set cs \<subseteq> set (take 10 udigits)" "z < of_char CHR ''0''"
  shows "atoi_loop (of_int v) (cs @ z # rest) = Ok (of_int (fold (\<lambda>c v. v * 10 + digit_value udigits c) cs v))"
  using assms(1)
proof (induction cs arbitrary: v)
  case Nil
  then show ?case using assms(2) by (simp add: not_le[symmetric])
next
  case (Cons c cs)
  have c: "of_char CHR ''0'' \<le> c \<and> c \<le> of_char CHR ''9''" "digit_value udigits c = uint c - 48"
    using decimal_digit[of c] Cons.prems by simp_all
  have e: "of_int v * 10 + ucast c - of_char CHR ''0'' = (of_int (v * 10 + digit_value udigits c) :: uint)"
    by (simp add: c(2) unsigned_ucast_eq)
  have "atoi_loop (of_int v) ((c # cs) @ z # rest) = atoi_loop (of_int (v * 10 + digit_value udigits c)) (cs @ z # rest)"
    unfolding e[symmetric] using c(1) by simp
  then show ?case using Cons.IH[of "v * 10 + digit_value udigits c"] Cons.prems by simp
qed



end
