(* ===== verification/Grep.thy ===== *)
theory Grep
  imports User_Lib
begin

text \<open>
  The pattern matcher and the line loop of \<open>user/grep.c\<close>. A C string is the list of its characters before the terminator,
  so an access to the terminator is the end of the list. The matcher is compared with the set of words a
  pattern denotes, and the loop, which works on a buffer of 1024 bytes, with a filter on the lines of the input.
\<close>

section \<open>Definitions\<close>

text \<open>The metacharacters.\<close>

abbreviation caret :: byte where "caret \<equiv> of_char CHR ''^''"
abbreviation dot :: byte where "dot \<equiv> of_char CHR ''.''"
abbreviation star :: byte where "star \<equiv> of_char CHR ''*''"
abbreviation dollar :: byte where "dollar \<equiv> of_char CHR ''$''"

function matchhere :: "byte list \<Rightarrow> byte list \<Rightarrow> bool" and matchstar :: "byte \<Rightarrow> byte list \<Rightarrow> byte list \<Rightarrow> bool" where
  "matchhere re tx =
     (if re = [] then True
      else if tl re \<noteq> [] \<and> re ! 1 = star then matchstar (hd re) (drop 2 re) tx
      else if hd re = dollar \<and> tl re = [] then tx = []
      else if tx \<noteq> [] \<and> (hd re = dot \<or> hd re = hd tx) then matchhere (tl re) (tl tx)
      else False)"
| "matchstar c re tx =
     (if matchhere re tx then True
      else if tx \<noteq> [] \<and> (hd tx = c \<or> c = dot) then matchstar c re (tl tx)
      else False)"
  by pat_completeness auto
termination
  by (relation "measure (\<lambda>x. case x of Inl (re, tx) \<Rightarrow> length re + length tx | Inr (c, re, tx) \<Rightarrow> length re + length tx + 1)")
    (auto simp: neq_Nil_conv)

declare matchhere.simps [simp del] matchstar.simps [simp del]

fun match_from :: "byte list \<Rightarrow> byte list \<Rightarrow> bool" where
  "match_from re tx = (if matchhere re tx then True else case tx of [] \<Rightarrow> False | _ # tx \<Rightarrow> match_from re tx)"

declare match_from.simps [simp del]

definition match :: "byte list \<Rightarrow> byte list \<Rightarrow> bool" where
  "match re tx = (if re \<noteq> [] \<and> hd re = caret then matchhere (tl re) tx else match_from re tx)"

text \<open>
  The inner loop of \<open>grep\<close> from \<open>p\<close>, over the \<open>m\<close> bytes that are left in the buffer and their terminator: the output, and the bytes
  after the last newline.
\<close>

function grep_lines :: "byte list \<Rightarrow> byte list \<Rightarrow> (byte list \<times> byte list) outcome" where
  "grep_lines pattern p =
     bnd (strchr (p @ [0]) 10) (\<lambda>r.
     case r of None \<Rightarrow> Ok ([], p)
     | Some q \<Rightarrow>
         if q < length p then
           bnd (grep_lines pattern (drop (q + 1) p)) (\<lambda>(out, rest).
           Ok (if match pattern (take q p) then take (q + 1) p @ out else out, rest))
         else Fault ''strchr'')"
  by pat_completeness auto
termination
  by (relation "measure (\<lambda>(pattern, p). length p)") auto

declare grep_lines.simps [simp del]

text \<open>
  The outer loop with \<open>buf\<close> the \<open>m\<close> bytes kept from the last round and \<open>inp\<close> the input to come. \<open>rd w a\<close> is how many bytes \<open>read\<close> returns
  when \<open>w\<close> are wanted and \<open>a\<close> available.
\<close>

function grep_loop :: "(nat \<Rightarrow> nat \<Rightarrow> nat) \<Rightarrow> byte list \<Rightarrow> byte list \<Rightarrow> byte list \<Rightarrow> byte list outcome" where
  "grep_loop rd pattern buf inp =
     (let w = 1024 - length buf - 1; n = min (rd w (length inp)) (min w (length inp)) in
      if n > 0 then
        bnd (grep_lines pattern (buf @ take n inp)) (\<lambda>(out, buf).
        bnd (grep_loop rd pattern buf (drop n inp)) (\<lambda>outs. Ok (out @ outs)))
      else Ok [])"
  by pat_completeness auto
termination
  by (relation "measure (\<lambda>(rd, pattern, buf, inp). length inp)") auto

declare grep_loop.simps [simp del]

definition grep :: "(nat \<Rightarrow> nat \<Rightarrow> nat) \<Rightarrow> byte list \<Rightarrow> byte list \<Rightarrow> byte list outcome" where
  "grep rd pattern inp = grep_loop rd pattern [] inp"

section \<open>The meaning of a pattern\<close>

text \<open>A pattern is a sequence of characters and starred characters, with an optional anchor at the end.\<close>

datatype item = One byte | Many byte

fun items :: "byte list \<Rightarrow> item list" where
  "items [] = []"
| "items [c] = (if c = dollar then [] else [One c])"
| "items (c # d # re) = (if d = star then Many c # items re else One c # items (d # re))"

fun anchored :: "byte list \<Rightarrow> bool" where
  "anchored [] = False"
| "anchored [c] = (c = dollar)"
| "anchored (c # d # re) = (if d = star then anchored re else anchored (d # re))"

definition accepts :: "byte \<Rightarrow> byte \<Rightarrow> bool" where
  "accepts c x \<longleftrightarrow> c = dot \<or> c = x"

fun words :: "item list \<Rightarrow> byte list set" where
  "words [] = {[]}"
| "words (One c # is) = {x # w | x w. accepts c x \<and> w \<in> words is}"
| "words (Many c # is) = {v @ w | v w. (\<forall>x\<in>set v. accepts c x) \<and> w \<in> words is}"

lemma words_One:
  "(\<exists>w r. tx = w @ r \<and> w \<in> words (One c # is) \<and> P r) \<longleftrightarrow> tx \<noteq> [] \<and> accepts c (hd tx) \<and> (\<exists>w r. tl tx = w @ r \<and> w \<in> words is \<and> P r)"
proof
  assume "tx \<noteq> [] \<and> accepts c (hd tx) \<and> (\<exists>w r. tl tx = w @ r \<and> w \<in> words is \<and> P r)"
  then obtain w r where w: "tx = (hd tx # w) @ r" "accepts c (hd tx)" "w \<in> words is" "P r" by (cases tx) auto
  then have "hd tx # w \<in> words (One c # is)" by simp
  then show "\<exists>w r. tx = w @ r \<and> w \<in> words (One c # is) \<and> P r" using w(1,4) by blast
qed (clarsimp, blast)

lemma words_Many:
  "(\<exists>w r. tx = w @ r \<and> w \<in> words (Many c # is) \<and> P r) \<longleftrightarrow>
   (\<exists>v w r. tx = v @ w @ r \<and> (\<forall>x\<in>set v. accepts c x) \<and> w \<in> words is \<and> P r)"
proof
  assume "\<exists>v w r. tx = v @ w @ r \<and> (\<forall>x\<in>set v. accepts c x) \<and> w \<in> words is \<and> P r"
  then obtain v w r where w: "tx = (v @ w) @ r" "\<forall>x\<in>set v. accepts c x" "w \<in> words is" "P r" by auto
  then have "v @ w \<in> words (Many c # is)" by auto
  then show "\<exists>w r. tx = w @ r \<and> w \<in> words (Many c # is) \<and> P r" using w(1,4) by blast
qed (clarsimp, blast)

lemma match_both:
  "matchhere re tx \<longleftrightarrow> (\<exists>w rest. tx = w @ rest \<and> w \<in> words (items re) \<and> (anchored re \<longrightarrow> rest = []))"
  "matchstar c re tx \<longleftrightarrow> (\<exists>v w rest. tx = v @ w @ rest \<and> (\<forall>x\<in>set v. accepts c x) \<and> w \<in> words (items re) \<and> (anchored re \<longrightarrow> rest = []))"
proof (induction re tx and c re tx rule: matchhere_matchstar.induct)
  case (1 re tx)
  show ?case
  proof (cases re rule: items.cases)
    case 1
    then show ?thesis by (simp add: matchhere.simps)
  next
    case (2 c)
    show ?thesis
    proof (cases "c = dollar")
      case True
      then show ?thesis using 2 by (simp add: matchhere.simps)
    next
      case False
      have "matchhere [] t" for t by (simp add: matchhere.simps)
      then have "matchhere re tx = (tx \<noteq> [] \<and> accepts c (hd tx))" using False 2 by (subst matchhere.simps) (auto simp: accepts_def)
      moreover have "items re = [One c]" "\<not> anchored re" using False 2 by simp_all
      ultimately show ?thesis using words_One[of tx c "[]" "\<lambda>r. True"] by auto
    qed
  next
    case (3 c d rest)
    show ?thesis
    proof (cases "d = star")
      case True
      then have m: "matchhere re tx = matchstar c rest tx" using 3 by (subst matchhere.simps) simp
      have e: "items re = Many c # items rest" "anchored re = anchored rest" using True 3 by simp_all
      show ?thesis using True 3 1(1) unfolding m e words_Many by simp
    next
      case False
      then have m: "matchhere re tx = (tx \<noteq> [] \<and> accepts c (hd tx) \<and> matchhere (d # rest) (tl tx))"
        using 3 by (subst matchhere.simps) (auto simp: accepts_def)
      have e: "items re = One c # items (d # rest)" "anchored re = anchored (d # rest)" using False 3 by simp_all
      have "tx \<noteq> [] \<Longrightarrow> accepts c (hd tx) \<Longrightarrow> matchhere (d # rest) (tl tx) \<longleftrightarrow>
          (\<exists>w r. tl tx = w @ r \<and> w \<in> words (items (d # rest)) \<and> (anchored (d # rest) \<longrightarrow> r = []))"
        using 1(2) False 3 by (simp add: accepts_def)
      then show ?thesis unfolding m e words_One by blast
    qed
  qed
next
  case (2 c re tx)
  let ?here = "\<lambda>tx. \<exists>w rest. tx = w @ rest \<and> w \<in> words (items re) \<and> (anchored re \<longrightarrow> rest = [])"
  show ?case
  proof (cases "matchhere re tx")
    case True
    then obtain w r where "tx = [] @ w @ r" "w \<in> words (items re)" "anchored re \<longrightarrow> r = []" using 2(1) by auto
    moreover have "\<forall>x\<in>set []. accepts c x" by simp
    moreover have "matchstar c re tx" using True by (subst matchstar.simps) simp
    ultimately show ?thesis by blast
  next
    case False
    then have n: "\<not> ?here tx" using 2(1) by blast
    show ?thesis
    proof (cases "tx \<noteq> [] \<and> (hd tx = c \<or> c = dot)")
      case True
      then obtain x xs where x: "tx = x # xs" "accepts c x" by (cases tx) (auto simp: accepts_def)
      have "matchstar c re tx = matchstar c re xs" using False True x by (subst matchstar.simps) simp
      also have "\<dots> \<longleftrightarrow> (\<exists>v w rest. xs = v @ w @ rest \<and> (\<forall>x\<in>set v. accepts c x) \<and> w \<in> words (items re) \<and> (anchored re \<longrightarrow> rest = []))"
        using 2(2)[OF False True] x(1) by simp
      also have "\<dots> \<longleftrightarrow> (\<exists>v w rest. tx = v @ w @ rest \<and> (\<forall>x\<in>set v. accepts c x) \<and> w \<in> words (items re) \<and> (anchored re \<longrightarrow> rest = []))"
        (is "(\<exists>v. ?P v) \<longleftrightarrow> (\<exists>v. ?Q v)")
      proof
        assume "\<exists>v. ?P v"
        then obtain v where "?P v" by blast
        then have "?Q (x # v)" using x by simp
        then show "\<exists>v. ?Q v" by blast
      next
        assume "\<exists>v. ?Q v"
        then obtain v where v: "?Q v" by blast
        then obtain y ys where "v = y # ys" using n by (cases v) auto
        then have "?P ys" using v x by auto
        then show "\<exists>v. ?P v" by blast
      qed
      finally show ?thesis .
    next
      case t: False
      then have "\<not> matchstar c re tx" using False by (subst matchstar.simps) (simp only: if_False simp_thms)
      moreover have "v = []" if "tx = v @ w @ rest" "\<forall>x\<in>set v. accepts c x" for v w rest
        using that t by (cases v) (auto simp: accepts_def)
      ultimately show ?thesis using n by blast
    qed
  qed
qed

lemma match_from_iff: "match_from re tx \<longleftrightarrow> (\<exists>a b. tx = a @ b \<and> matchhere re b)"
proof (induction tx)
  case Nil
  then show ?case by (simp add: match_from.simps)
next
  case (Cons x tx)
  have "match_from re (x # tx) \<longleftrightarrow> matchhere re (x # tx) \<or> match_from re tx" by (subst match_from.simps) simp
  also have "\<dots> \<longleftrightarrow> (\<exists>a b. x # tx = a @ b \<and> matchhere re b)"
    unfolding Cons by (metis Cons_eq_append_conv append_Cons append_Nil)
  finally show ?case .
qed

text \<open>
  C14: The matcher decides whether the text contains a word of the pattern: at the beginning when the pattern starts with a
  caret, and at the end when it ends with a dollar sign.
\<close>

theorem match_finds_pattern_word:
  "match re tx \<longleftrightarrow>
   (let start = (re \<noteq> [] \<and> hd re = caret); body = (if start then tl re else re) in
    \<exists>a w b. tx = a @ w @ b \<and> w \<in> words (items body) \<and> (start \<longrightarrow> a = []) \<and> (anchored body \<longrightarrow> b = []))"
  by (auto simp: match_def match_from_iff match_both(1) Let_def)

theorem match_finds_pattern_word_witness:
  "match [caret, 97, star, 98] [97, 97, 98, 99] \<and>
   (\<exists>w b. [97, 97, 98, 99] = w @ b \<and> w \<in> words (items [97, star, 98 :: byte]) \<and> (anchored [97, star, 98 :: byte] \<longrightarrow> b = []))"
proof -
  have "match [caret, 97, star, 98] [97, 97, 98, 99]" by (simp add: match_def matchhere.simps matchstar.simps of_char_def)
  then show ?thesis using match_finds_pattern_word[of "[caret, 97, star, 98]" "[97, 97, 98, 99]"] by (simp add: Let_def)
qed

section \<open>The lines of the input\<close>

function complete_lines :: "byte list \<Rightarrow> byte list list" where
  "complete_lines s = (if 10 \<in> set s then takeWhile (\<lambda>c. c \<noteq> 10) s # complete_lines (tl (dropWhile (\<lambda>c. c \<noteq> 10) s)) else [])"
  by pat_completeness auto
termination
proof (relation "measure length")
  fix s :: "byte list" assume "10 \<in> set s"
  then have "dropWhile (\<lambda>c. c \<noteq> 10) s \<noteq> []" by (simp add: dropWhile_eq_Nil_conv)
  then show "(tl (dropWhile (\<lambda>c. c \<noteq> 10) s), s) \<in> measure length"
    using length_dropWhile_le[of "\<lambda>c. c \<noteq> 10" s] by (cases "dropWhile (\<lambda>c. c \<noteq> 10) s") simp_all
qed simp

declare complete_lines.simps [simp del]

definition after_last :: "byte list \<Rightarrow> byte list" where
  "after_last s = rev (takeWhile (\<lambda>c. c \<noteq> 10) (rev s))"

lemma complete_lines_none [simp]: "10 \<notin> set s \<Longrightarrow> complete_lines s = []"
  by (simp add: complete_lines.simps)

lemma complete_lines_line [simp]: "10 \<notin> set l \<Longrightarrow> complete_lines (l @ 10 # s) = l # complete_lines s"
proof -
  assume l: "10 \<notin> set l"
  then have "takeWhile (\<lambda>c. c \<noteq> 10) (l @ 10 # s) = l" "dropWhile (\<lambda>c. c \<noteq> 10) (l @ 10 # s) = 10 # s"
    by (induction l) auto
  then show ?thesis by (simp add: complete_lines.simps[of "l @ 10 # s"])
qed

lemma after_last_none [simp]: "10 \<notin> set s \<Longrightarrow> after_last s = s"
proof -
  assume "10 \<notin> set s"
  then have "takeWhile (\<lambda>c. c \<noteq> 10) (rev s) = rev s" by (subst takeWhile_eq_all_conv) auto
  then show ?thesis by (simp only: after_last_def rev_rev_ident)
qed

lemma after_last_line [simp]: "after_last (l @ 10 # s) = after_last s"
proof (cases "10 \<in> set s")
  case True
  then show ?thesis using takeWhile_append1[of 10 "rev s" "\<lambda>c. c \<noteq> 10"] by (simp add: after_last_def)
next
  case False
  then have "takeWhile (\<lambda>c. c \<noteq> 10) (rev s @ [10] @ rev l) = rev s @ takeWhile (\<lambda>c. c \<noteq> 10) ([10] @ rev l)"
    by (intro takeWhile_append2) auto
  then show ?thesis using False by (simp add: after_last_def[of "l @ 10 # s"])
qed

lemma after_last_clean: "10 \<notin> set (after_last s)"
  by (auto simp: after_last_def dest: set_takeWhileD)

lemma after_last_subset: "set (after_last s) \<subseteq> set s"
  by (auto simp: after_last_def dest: set_takeWhileD)

lemma split_line: "10 \<in> set s \<Longrightarrow> \<exists>l t. s = l @ 10 # t \<and> (10 :: byte) \<notin> set l"
  by (metis split_list_first)

lemma complete_lines_append: "complete_lines (s @ t) = complete_lines s @ complete_lines (after_last s @ t)"
proof (induction "length s" arbitrary: s rule: less_induct)
  case less
  show ?case
  proof (cases "10 \<in> set s")
    case True
    then obtain l r where s: "s = l @ 10 # r" "10 \<notin> set l" using split_line by blast
    then show ?thesis using less[of r] by simp
  qed simp
qed

definition print_lines :: "byte list \<Rightarrow> byte list list \<Rightarrow> byte list" where
  "print_lines pattern ls = concat (map (\<lambda>l. l @ [10]) (filter (match pattern) ls))"

lemma grep_lines_spec: "0 \<notin> set p \<Longrightarrow> grep_lines pattern p = Ok (print_lines pattern (complete_lines p), after_last p)"
proof (induction "length p" arbitrary: p rule: less_induct)
  case less
  have c: "cstr (p @ [0]) = p" using less.prems by (simp add: cstr_def takeWhile_append)
  show ?case
  proof (cases "10 \<in> set p")
    case True
    then obtain l r where p: "p = l @ 10 # r" "10 \<notin> set l" using split_line by blast
    have t: "takeWhile (\<lambda>x. x \<noteq> 10) p = l" using p by (induction l arbitrary: p) auto
    have "strchr (p @ [0]) 10 = Ok (Some (length l))" using strchr_cstr[of "p @ [0]" 10] True c t by simp
    moreover have "grep_lines pattern r = Ok (print_lines pattern (complete_lines r), after_last r)"
      using less.hyps[of r] less.prems p(1) by simp
    ultimately show ?thesis using p by (subst grep_lines.simps) (simp add: print_lines_def)
  next
    case False
    then show ?thesis using strchr_cstr[of "p @ [0]" 10] c by (subst grep_lines.simps) (simp add: print_lines_def)
  qed
qed

lemma grep_loop_spec:
  assumes "\<And>w a. 0 < w \<Longrightarrow> 0 < a \<Longrightarrow> 0 < rd w a"
  shows "10 \<notin> set buf \<Longrightarrow> 0 \<notin> set (buf @ inp) \<Longrightarrow> \<forall>l\<in>set (complete_lines (buf @ inp)). length l < 1023 \<Longrightarrow>
    grep_loop rd pattern buf inp = Ok (print_lines pattern (complete_lines (buf @ inp)))"
proof (induction "length inp" arbitrary: buf inp rule: less_induct)
  case less
  define w where "w = 1024 - length buf - 1"
  define n where "n = min (rd w (length inp)) (min w (length inp))"
  show ?case
  proof (cases "n = 0")
    case True
    then have "inp = [] \<or> w = 0" using assms[of w "length inp"] by (auto simp: n_def min_def split: if_splits)
    moreover have "complete_lines (buf @ inp) = []" if "w = 0"
    proof (rule ccontr)
      assume "complete_lines (buf @ inp) \<noteq> []"
      then have "10 \<in> set (buf @ inp)" using complete_lines_none by blast
      then obtain l r where l: "buf @ inp = l @ 10 # r" "10 \<notin> set l" using split_line by blast
      have "length buf \<le> length l"
      proof (rule ccontr)
        assume "\<not> length buf \<le> length l"
        then have "(buf @ inp) ! length l = buf ! length l" "length l < length buf" by (simp_all add: nth_append)
        then show False using l less.prems(1) by (metis nth_append_length nth_mem)
      qed
      moreover have "length l < 1023" using less.prems(3) l by simp
      ultimately show False using that by (simp add: w_def)
    qed
    ultimately have "complete_lines (buf @ inp) = []" using less.prems(1) by auto
    moreover have "grep_loop rd pattern buf inp = Ok []" using True by (subst grep_loop.simps) (simp only: Let_def w_def[symmetric] n_def[symmetric], simp)
    ultimately show ?thesis by (simp add: print_lines_def)
  next
    case False
    let ?p = "buf @ take n inp"
    have z: "0 \<notin> set ?p" using less.prems(2) by (auto dest: in_set_takeD)
    have e: "complete_lines (buf @ inp) = complete_lines ?p @ complete_lines (after_last ?p @ drop n inp)"
      using complete_lines_append[of ?p "drop n inp"] by simp
    have "grep_loop rd pattern (after_last ?p) (drop n inp) = Ok (print_lines pattern (complete_lines (after_last ?p @ drop n inp)))"
    proof (rule less.hyps)
      show "length (drop n inp) < length inp" using False by (auto simp: n_def)
      show "10 \<notin> set (after_last ?p)" by (rule after_last_clean)
      show "0 \<notin> set (after_last ?p @ drop n inp)" using z after_last_subset[of ?p] less.prems(2) by (auto dest: in_set_dropD)
      show "\<forall>l\<in>set (complete_lines (after_last ?p @ drop n inp)). length l < 1023" using less.prems(3) e by auto
    qed
    moreover have "grep_loop rd pattern buf inp = bnd (grep_lines pattern ?p) (\<lambda>(out, buf).
        bnd (grep_loop rd pattern buf (drop n inp)) (\<lambda>outs. Ok (out @ outs)))"
      using False by (subst grep_loop.simps) (simp only: Let_def w_def[symmetric] n_def[symmetric], simp)
    ultimately show ?thesis using grep_lines_spec[OF z] e by (simp add: print_lines_def)
  qed
qed



text \<open>
  A line that does not fit the buffer ends the search: the rest of the input is ignored, and the loop
  returns as if it had reached the end of the file.
\<close>

theorem grep_stops_at_long_line:
  assumes "10 \<notin> set l" "0 \<notin> set l" "length l = 1023" 
  shows "grep (\<lambda>w a. min w a) pattern (l @ rest) = Ok []"
proof -
  have "grep_lines pattern l = Ok ([], l)" using grep_lines_spec[OF assms(2), of pattern] assms(1) by (simp add: print_lines_def)
  moreover have "grep_loop (\<lambda>w a. min w a) pattern l rest = Ok []" using assms(3) by (subst grep_loop.simps) simp
  ultimately show ?thesis unfolding grep_def using assms(3) by (subst grep_loop.simps) simp
qed

theorem grep_stops_at_long_line_witness: "grep (\<lambda>w a. min w a) [] (replicate 1023 97 @ [10, 98, 10]) = Ok []"
  using grep_stops_at_long_line[of "replicate 1023 97" "[]" "[10, 98, 10]"] by simp

end
