(* ===== verification/Shell.thy ===== *)
theory Shell
  imports User_Lib Sysfile
begin

text \<open>
  The command parser of the shell, \<open>user/sh.c\<close>. The line is a byte list with its terminator, a pointer into it an offset. The
  parser is a set of mutually recursive functions with a bound on the depth of the recursion, four levels per character, which
  is shown to be enough. A call of \<open>panic\<close>, which prints its message and ends the process, is a \<open>Panic\<close>;
  \<open>malloc\<close> is taken to succeed.
\<close>

unbundle bit_operations_syntax

section \<open>Definitions\<close>

abbreviation ch :: "char \<Rightarrow> byte" where "ch \<equiv> of_char"

definition MAXARGS :: nat where "MAXARGS = 10"

text \<open>A command over the type of its strings, in the parser the pairs of the pointers \<open>argv[i]\<close> and \<open>eargv[i]\<close>.\<close>

datatype 'p cmd =
    Execcmd "'p list"
  | Redircmd "'p cmd" 'p uint int
  | Pipecmd "'p cmd" "'p cmd"
  | Listcmd "'p cmd" "'p cmd"
  | Backcmd "'p cmd"

definition whitespace :: "byte list" where
  "whitespace = [ch CHR '' '', 9, 13, 10, 11]"

definition symbols :: "byte list" where
  "symbols = map ch ''<|>&;()''"

text \<open>The condition \<open>strchr(t, c)\<close> for a string constant.\<close>

definition in_str :: "byte list \<Rightarrow> byte \<Rightarrow> bool outcome" where
  "in_str t c = bnd (strchr (t @ [0]) c) (\<lambda>r. Ok (r \<noteq> None))"

function skip_ws :: "byte list \<Rightarrow> nat \<Rightarrow> nat \<Rightarrow> nat outcome" where
  "skip_ws b es s =
     (if s < es then
        bnd (aget b (int s)) (\<lambda>c.
        bnd (in_str whitespace c) (\<lambda>w.
        if w then skip_ws b es (s + 1) else Ok s))
      else Ok s)"
  by pat_completeness auto
termination
  by (relation "measure (\<lambda>(b, es, s). es - s)") auto

function skip_word :: "byte list \<Rightarrow> nat \<Rightarrow> nat \<Rightarrow> nat outcome" where
  "skip_word b es s =
     (if s < es then
        bnd (aget b (int s)) (\<lambda>c.
        bnd (in_str whitespace c) (\<lambda>w.
        if w then Ok s
        else bnd (in_str symbols c) (\<lambda>y. if y then Ok s else skip_word b es (s + 1))))
      else Ok s)"
  by pat_completeness auto
termination
  by (relation "measure (\<lambda>(b, es, s). es - s)") auto

declare skip_ws.simps [simp del] skip_word.simps [simp del]

text \<open>The token, its start and its end, and the position after it.\<close>

definition gettoken :: "byte list \<Rightarrow> nat \<Rightarrow> nat \<Rightarrow> (byte \<times> nat \<times> nat \<times> nat) outcome" where
  "gettoken b es s =
     bnd (skip_ws b es s) (\<lambda>q.
     bnd (aget b (int q)) (\<lambda>c.
     bnd (if c = 0 then Ok (c, q)
          else if c \<in> {ch CHR ''|'', ch CHR ''('', ch CHR '')'', ch CHR '';'', ch CHR ''&'', ch CHR ''<''} then Ok (c, q + 1)
          else if c = ch CHR ''>'' then
            bnd (aget b (int (q + 1))) (\<lambda>d. if d = ch CHR ''>'' then Ok (ch CHR ''+'', q + 2) else Ok (c, q + 1))
          else bnd (skip_word b es q) (\<lambda>s. Ok (ch CHR ''a'', s))) (\<lambda>(ret, eq).
     bnd (skip_ws b es eq) (\<lambda>s. Ok (ret, q, eq, s)))))"

definition peek :: "byte list \<Rightarrow> nat \<Rightarrow> string \<Rightarrow> nat \<Rightarrow> (bool \<times> nat) outcome" where
  "peek b es toks s =
     bnd (skip_ws b es s) (\<lambda>s.
     bnd (aget b (int s)) (\<lambda>c.
     if c = 0 then Ok (False, s) else bnd (in_str (map ch toks) c) (\<lambda>r. Ok (r, s))))"

lemma in_str_iff: "0 \<notin> set t \<Longrightarrow> in_str t c = Ok (c \<in> set t)"
  by (induction t) (auto simp: in_str_def bnd_assoc)

lemma char_codes:
  "ch CHR '' '' = 32" "ch CHR ''<'' = 60" "ch CHR ''|'' = 124" "ch CHR ''>'' = 62" "ch CHR ''&'' = 38" "ch CHR '';'' = 59"
  "ch CHR ''('' = 40" "ch CHR '')'' = 41" "ch CHR ''a'' = 97" "ch CHR ''+'' = 43"
  by (simp_all add: of_char_def)

definition is_ws :: "byte \<Rightarrow> bool" where
  "is_ws c \<longleftrightarrow> c \<in> {32, 9, 13, 10, 11}"

definition is_sym :: "byte \<Rightarrow> bool" where
  "is_sym c \<longleftrightarrow> c \<in> {60, 124, 62, 38, 59, 40, 41}"

lemma in_ws [simp]: "in_str whitespace c = Ok (is_ws c)"
  by (subst in_str_iff) (simp_all add: whitespace_def is_ws_def char_codes)

lemma in_sym [simp]: "in_str symbols c = Ok (is_sym c)"
  by (subst in_str_iff) (simp_all add: symbols_def is_sym_def char_codes)

lemma in_toks [simp]:
  "in_str [60, 62] c = Ok (c = 60 \<or> c = 62)" "in_str [38] c = Ok (c = 38)" "in_str [59] c = Ok (c = 59)"
  "in_str [124] c = Ok (c = 124)" "in_str [40] c = Ok (c = 40)" "in_str [41] c = Ok (c = 41)"
  "in_str [124, 41, 38, 59] c = Ok (c = 124 \<or> c = 41 \<or> c = 38 \<or> c = 59)" "in_str [] c = Ok False"
  by (subst in_str_iff; simp)+

lemma skip_ws_step:
  "skip_ws b es s = (if s < es then bnd (aget b (int s)) (\<lambda>c. if is_ws c then skip_ws b es (s + 1) else Ok s) else Ok s)"
  by (subst skip_ws.simps) simp

lemma scan_induct [case_names scan]:
  assumes "\<And>s. (s < es \<Longrightarrow> P (s + 1)) \<Longrightarrow> P (s :: nat)"
  shows "P s"
  by (induction "es - s" arbitrary: s rule: less_induct) (use assms in force)

lemma skip_ws_ge: "skip_ws b es s = Ok t \<Longrightarrow> s \<le> t"
proof (induction s rule: scan_induct[where es = es])
  case (scan s)
  then show ?case using scan(2)[unfolded skip_ws_step[of b es s]] by (fastforce split: if_splits)
qed

lemma skip_word_step:
  "skip_word b es s = (if s < es then bnd (aget b (int s)) (\<lambda>c. if is_ws c \<or> is_sym c then Ok s else skip_word b es (s + 1)) else Ok s)"
  by (subst skip_word.simps) (auto intro!: bnd_cong)

lemma skip_word_ge: "skip_word b es s = Ok t \<Longrightarrow> s \<le> t"
proof (induction s rule: scan_induct[where es = es])
  case (scan s)
  then show ?case using scan(2)[unfolded skip_word_step[of b es s]] by (fastforce split: if_splits)
qed

lemma skip_ws_idem: "skip_ws b es s = Ok t \<Longrightarrow> skip_ws b es t = Ok t"
proof (induction s rule: scan_induct[where es = es])
  case (scan s)
  show ?case
  proof (cases "\<exists>c. s < es \<and> aget b (int s) = Ok c \<and> is_ws c")
    case True
    then show ?thesis using scan(1) scan(2)[unfolded skip_ws_step[of b es s]] by auto
  next
    case False
    have "t = s" using scan(2)[unfolded skip_ws_step[of b es s]] False by (auto split: if_splits)
    then show ?thesis using scan(2) by simp
  qed
qed

lemma peek_gettoken_gt:
  assumes "peek b es toks s = Ok (True, s1)" "\<And>c. in_str (map ch toks) c = Ok True \<Longrightarrow> is_sym c" "gettoken b es s1 = Ok (x, q, e, s2)"
  shows "s < s2 \<and> s < length b"
proof -
  obtain c where c: "skip_ws b es s = Ok s1" "aget b (int s1) = Ok c" "is_sym c"
    using assms(1,2) by (auto simp: peek_def split: if_splits)
  have "s1 < s2"
    using assms(3) c(2,3) skip_ws_idem[OF c(1)] skip_ws_ge by (fastforce simp: gettoken_def is_sym_def char_codes split: if_splits)
  then show ?thesis using skip_ws_ge[OF c(1)] aget_OkD[OF c(2)] by simp
qed

section \<open>The parser\<close>

lemma gettoken_ge: "gettoken b es s = Ok (x, q, e, t) \<Longrightarrow> s \<le> t"
proof -
  assume g: "gettoken b es s = Ok (x, q, e, t)"
  have "skip_ws b es s = Ok q" "skip_ws b es e = Ok t" using g by (auto simp: gettoken_def)
  moreover have "q \<le> e"
    using g skip_word_ge by (fastforce simp: gettoken_def split: if_splits)
  ultimately show ?thesis using skip_ws_ge le_trans by metis
qed

lemma redir_gt: "peek b es ''<>'' s = Ok r \<Longrightarrow> fst r \<Longrightarrow> gettoken b es (snd r) = Ok t \<Longrightarrow> s < snd (snd (snd t)) \<and> s < length b"
  by (rule peek_gettoken_gt[of b es "''<>''" s "snd r" "fst t" "fst (snd t)" "fst (snd (snd t))"]) (cases r; auto simp: is_sym_def)+

lemma back_gt: "peek b es ''&'' s = Ok r \<Longrightarrow> fst r \<Longrightarrow> gettoken b es (snd r) = Ok t \<Longrightarrow> s < snd (snd (snd t)) \<and> s < length b"
  by (rule peek_gettoken_gt[of b es "''&''" s "snd r" "fst t" "fst (snd t)" "fst (snd (snd t))"]) (cases r; auto simp: is_sym_def)+

text \<open>\<open>cmd->argv[argc] = q\<close>: \<open>ret\<close> leads to the same \<open>execcmd\<close> through the redirections built on it.\<close>

fun add_arg :: "'p \<Rightarrow> 'p cmd \<Rightarrow> 'p cmd" where
  "add_arg a (Execcmd as) = Execcmd (as @ [a])"
| "add_arg a (Redircmd c f m fd) = Redircmd (add_arg a c) f m fd"
| "add_arg a c = c"

definition redir_of :: "byte \<Rightarrow> 'p \<Rightarrow> 'p cmd \<Rightarrow> 'p cmd" where
  "redir_of tok f c =
     (if tok = ch CHR ''<'' then Redircmd c f O_RDONLY 0
      else if tok = ch CHR ''>'' then Redircmd c f (O_WRONLY OR O_CREATE OR O_TRUNC) 1
      else if tok = ch CHR ''+'' then Redircmd c f (O_WRONLY OR O_CREATE) 1
      else c)"

type_synonym pcmd = "(nat \<times> nat) cmd"

function parseredirs :: "byte list \<Rightarrow> nat \<Rightarrow> pcmd \<Rightarrow> nat \<Rightarrow> (pcmd \<times> nat) outcome" where
  "parseredirs b es cmd s =
     bnd (peek b es ''<>'' s) (\<lambda>r.
     if fst r then
       bnd (gettoken b es (snd r)) (\<lambda>t.
       bnd (gettoken b es (snd (snd (snd t)))) (\<lambda>(tok, q, eq, s).
       if tok \<noteq> ch CHR ''a'' then Panic ''missing file for redirection''
       else parseredirs b es (redir_of (fst t) (q, eq) cmd) s))
     else Ok (cmd, snd r))"
  by pat_completeness auto
termination
proof (relation "measure (\<lambda>(b, es, cmd, s). length b - s)", goal_cases)
  case (2 b es cmd s r t u tok q eq s3)
  then show ?case using redir_gt[of b es s r t] gettoken_ge[of b es "snd (snd (snd t))"] by fastforce
qed simp

text \<open>The loop of \<open>parseline\<close> over \<open>&\<close>.\<close>

function back_loop :: "byte list \<Rightarrow> nat \<Rightarrow> pcmd \<Rightarrow> nat \<Rightarrow> (pcmd \<times> nat) outcome" where
  "back_loop b es cmd s =
     bnd (peek b es ''&'' s) (\<lambda>r.
     if fst r then bnd (gettoken b es (snd r)) (\<lambda>t. back_loop b es (Backcmd cmd) (snd (snd (snd t)))) else Ok (cmd, snd r))"
  by pat_completeness auto
termination
proof (relation "measure (\<lambda>(b, es, cmd, s). length b - s)", goal_cases)
  case (2 b es cmd s r t)
  then show ?case using back_gt[of b es s r t] by fastforce
qed simp

text \<open>The loop of \<open>parseexec\<close>.\<close>

function exec_args :: "byte list \<Rightarrow> nat \<Rightarrow> nat \<Rightarrow> pcmd \<Rightarrow> nat \<Rightarrow> (pcmd \<times> nat) outcome" where
  "exec_args b es argc ret s =
     bnd (peek b es ''|)&;'' s) (\<lambda>(r, s).
     if r then Ok (ret, s)
     else
       bnd (gettoken b es s) (\<lambda>(tok, q, eq, s).
       if tok = 0 then Ok (ret, s)
       else if tok \<noteq> ch CHR ''a'' then Panic ''syntax''
       else if argc + 1 \<ge> MAXARGS then Panic ''too many args''
       else bnd (parseredirs b es (add_arg (q, eq) ret) s) (\<lambda>(ret, s). exec_args b es (argc + 1) ret s)))"
  by pat_completeness auto
termination
  by (relation "measure (\<lambda>(b, es, argc, ret, s). MAXARGS - argc)") auto

declare parseredirs.simps [simp del] back_loop.simps [simp del] exec_args.simps [simp del]

function (sequential) parseline :: "nat \<Rightarrow> byte list \<Rightarrow> nat \<Rightarrow> nat \<Rightarrow> (pcmd \<times> nat) outcome"
and parsepipe :: "nat \<Rightarrow> byte list \<Rightarrow> nat \<Rightarrow> nat \<Rightarrow> (pcmd \<times> nat) outcome"
and parseblock :: "nat \<Rightarrow> byte list \<Rightarrow> nat \<Rightarrow> nat \<Rightarrow> (pcmd \<times> nat) outcome"
and parseexec :: "nat \<Rightarrow> byte list \<Rightarrow> nat \<Rightarrow> nat \<Rightarrow> (pcmd \<times> nat) outcome" where
  "parseline 0 b es s = Diverge"
| "parseline (Suc n) b es s =
     bnd (parsepipe n b es s) (\<lambda>(cmd, s).
     bnd (back_loop b es cmd s) (\<lambda>(cmd, s).
     bnd (peek b es '';'' s) (\<lambda>(r, s).
     if r then
       bnd (gettoken b es s) (\<lambda>(_, _, _, s).
       bnd (parseline n b es s) (\<lambda>(c, s). Ok (Listcmd cmd c, s)))
     else Ok (cmd, s))))"
| "parsepipe 0 b es s = Diverge"
| "parsepipe (Suc n) b es s =
     bnd (parseexec n b es s) (\<lambda>(cmd, s).
     bnd (peek b es ''|'' s) (\<lambda>(r, s).
     if r then
       bnd (gettoken b es s) (\<lambda>(_, _, _, s).
       bnd (parsepipe n b es s) (\<lambda>(c, s). Ok (Pipecmd cmd c, s)))
     else Ok (cmd, s)))"
| "parseblock 0 b es s = Diverge"
| "parseblock (Suc n) b es s =
     bnd (peek b es ''('' s) (\<lambda>(r, s).
     if \<not> r then Panic ''parseblock''
     else
       bnd (gettoken b es s) (\<lambda>(_, _, _, s).
       bnd (parseline n b es s) (\<lambda>(cmd, s).
       bnd (peek b es '')'' s) (\<lambda>(r, s).
       if \<not> r then Panic ''syntax - missing )''
       else
         bnd (gettoken b es s) (\<lambda>(_, _, _, s).
         parseredirs b es cmd s)))))"
| "parseexec 0 b es s = Diverge"
| "parseexec (Suc n) b es s =
     bnd (peek b es ''('' s) (\<lambda>(r, s).
     if r then parseblock n b es s
     else bnd (parseredirs b es (Execcmd []) s) (\<lambda>(ret, s). exec_args b es 0 ret s))"
  by pat_completeness auto
termination
  by (relation "measure (\<lambda>x. case x of Inl (Inl (n, _)) \<Rightarrow> n | Inl (Inr (n, _)) \<Rightarrow> n | Inr (Inl (n, _)) \<Rightarrow> n | Inr (Inr (n, _)) \<Rightarrow> n)") auto

fun nul_at :: "(nat \<times> nat) list \<Rightarrow> byte list \<Rightarrow> byte list outcome" where
  "nul_at [] b = Ok b"
| "nul_at ((q, eq) # as) b = bnd (aset b (int eq) 0) (nul_at as)"

fun nulterminate :: "pcmd \<Rightarrow> byte list \<Rightarrow> byte list outcome" where
  "nulterminate (Execcmd as) b = nul_at as b"
| "nulterminate (Redircmd c f m fd) b = bnd (nulterminate c b) (\<lambda>b. aset b (int (snd f)) 0)"
| "nulterminate (Pipecmd l r) b = bnd (nulterminate l b) (nulterminate r)"
| "nulterminate (Listcmd l r) b = bnd (nulterminate l b) (nulterminate r)"
| "nulterminate (Backcmd c) b = nulterminate c b"

text \<open>The command and the line with the terminators.\<close>

definition parsecmd :: "byte list \<Rightarrow> (pcmd \<times> byte list) outcome" where
  "parsecmd b =
     bnd (ustrlen b) (\<lambda>es.
     bnd (parseline (4 * nat es + 4) b (nat es) 0) (\<lambda>(cmd, s).
     bnd (peek b (nat es) [] s) (\<lambda>(_, s).
     if s \<noteq> nat es then Panic ''syntax''
     else bnd (nulterminate cmd b) (\<lambda>b. Ok (cmd, b)))))"

section \<open>Every line is handled\<close>

definition wordch :: "byte \<Rightarrow> bool" where
  "wordch c \<longleftrightarrow> \<not> is_ws c \<and> \<not> is_sym c"

text \<open>A maximal run of word characters.\<close>

definition word_at :: "byte list \<Rightarrow> nat \<times> nat \<Rightarrow> bool" where
  "word_at ln = (\<lambda>(q, e). q < e \<and> e \<le> length ln \<and> (\<forall>i. q \<le> i \<and> i < e \<longrightarrow> wordch (ln ! i)) \<and> (e = length ln \<or> \<not> wordch (ln ! e)))"

lemma line_nth [simp]: "s \<le> length ln \<Longrightarrow> (ln @ [0]) ! s = (if s = length ln then 0 else ln ! s)"
  by (simp add: nth_append)

lemma nat_1_int [simp]: "nat (1 + int q) = Suc q"
  by simp

lemma skip_ws_total: "s \<le> length ln \<Longrightarrow> \<exists>t. skip_ws (ln @ [0]) (length ln) s = Ok t \<and> s \<le> t \<and> t \<le> length ln"
proof (induction s rule: scan_induct[where es = "length ln"])
  case (scan s)
  then show ?case by (subst skip_ws_step) (use Suc_leD in \<open>fastforce simp: le_less\<close>)
qed

lemma skip_word_total:
  "s \<le> length ln \<Longrightarrow> \<exists>t. skip_word (ln @ [0]) (length ln) s = Ok t \<and> s \<le> t \<and> t \<le> length ln \<and>
     (\<forall>i. s \<le> i \<and> i < t \<longrightarrow> wordch (ln ! i)) \<and> (t = length ln \<or> \<not> wordch (ln ! t))"
proof (induction s rule: scan_induct[where es = "length ln"])
  case (scan s)
  show ?case
  proof (cases "s < length ln \<and> wordch (ln ! s)")
    case True
    then obtain t where t: "skip_word (ln @ [0]) (length ln) (s + 1) = Ok t" "s + 1 \<le> t" "t \<le> length ln"
      "\<forall>i. s + 1 \<le> i \<and> i < t \<longrightarrow> wordch (ln ! i)" "t = length ln \<or> \<not> wordch (ln ! t)" using scan by auto
    have "\<forall>i. s \<le> i \<and> i < t \<longrightarrow> wordch (ln ! i)" using t(4) True by (metis Suc_eq_plus1 le_antisym not_less_eq_eq)
    then show ?thesis using t True by (subst skip_word_step) (simp add: wordch_def nth_append)
  next
    case False
    then show ?thesis using scan(2) by (subst skip_word_step) (auto simp: wordch_def)
  qed
qed

lemma gettoken_total:
  assumes "s \<le> length ln" "0 \<notin> set ln"
  shows "\<exists>tok q e t. gettoken (ln @ [0]) (length ln) s = Ok (tok, q, e, t) \<and> s \<le> q \<and> e \<le> t \<and> t \<le> length ln \<and>
    (if tok = 0 then q = e else q < e) \<and> (tok = 97 \<longrightarrow> word_at ln (q, e))"
proof -
  obtain q where q: "skip_ws (ln @ [0]) (length ln) s = Ok q" "s \<le> q" "q \<le> length ln" using skip_ws_total[OF assms(1)] by blast
  have nz: "ln ! i \<noteq> 0" if "i < length ln" for i using that assms(2) nth_mem by metis
  have rest: "\<exists>t. skip_ws (ln @ [0]) (length ln) e = Ok t \<and> e \<le> t \<and> t \<le> length ln" if "e \<le> length ln" for e
    using skip_ws_total that by blast
  show ?thesis
  proof (cases "q = length ln")
    case True
    then show ?thesis using q rest[of q] by (auto simp: gettoken_def)
  next
    case False
    then have ql: "q < length ln" using q(3) by simp
    consider (sym) "ln ! q \<in> {124, 40, 41, 59, 38, 60}" | (gt) "ln ! q = 62" | (word) "wordch (ln ! q)"
      using skip_ws_idem[OF q(1)] ql unfolding skip_ws_step[of _ _ q]
      by (auto simp: wordch_def is_sym_def nth_append split: if_splits dest: skip_ws_ge)
    then show ?thesis
    proof cases
      case sym
      then show ?thesis using q ql rest[of "q + 1"] nz[OF ql] by (auto simp: gettoken_def)
    next
      case gt
      then show ?thesis using q ql rest[of "q + 1"] rest[of "q + 2"] by (auto simp: gettoken_def nth_append not_less_eq_eq)
    next
      case word
      obtain e where e: "skip_word (ln @ [0]) (length ln) q = Ok e" "q \<le> e" "e \<le> length ln"
        "\<forall>i. q \<le> i \<and> i < e \<longrightarrow> wordch (ln ! i)" "e = length ln \<or> \<not> wordch (ln ! e)" using skip_word_total q(3) by blast
      have "q < e" using e(2,5) word ql by (cases "q = e") auto
      then show ?thesis using e q ql rest[of e] word nz[OF ql] by (auto simp: gettoken_def word_at_def wordch_def is_sym_def nth_append)
    qed
  qed
qed

lemma peek_total:
  assumes "s \<le> length ln" "0 \<notin> set ln" "0 \<notin> set (map ch toks)"
  shows "\<exists>r t. peek (ln @ [0]) (length ln) toks s = Ok (r, t) \<and> s \<le> t \<and> t \<le> length ln \<and> (r \<longrightarrow> t < length ln)"
proof -
  obtain q where q: "skip_ws (ln @ [0]) (length ln) s = Ok q" "s \<le> q" "q \<le> length ln" using skip_ws_total[OF assms(1)] by blast
  then show ?thesis using assms(3) by (auto simp: peek_def in_str_iff)
qed

lemma peek_tok:
  assumes "peek (ln @ [0]) (length ln) toks s = Ok (True, s1)" "s \<le> length ln" "0 \<notin> set ln" "set toks \<subseteq> set ''<|>&;()''"
  shows "\<exists>x q e t. gettoken (ln @ [0]) (length ln) s1 = Ok (x, q, e, t) \<and> s < t \<and> t \<le> length ln"
proof -
  have z: "0 \<notin> set (map ch toks)" using assms(4) by (auto simp: of_char_def)
  have "s1 \<le> length ln" using peek_total[OF assms(2,3) z] assms(1) by auto
  then obtain x q e t where t: "gettoken (ln @ [0]) (length ln) s1 = Ok (x, q, e, t)" "t \<le> length ln"
    using gettoken_total[OF _ assms(3)] by blast
  have "is_sym c" if "in_str (map ch toks) c = Ok True" for c
    using that z assms(4) by (auto simp: in_str_iff is_sym_def)
  then have "s < t" using peek_gettoken_gt[OF assms(1) _ t(1)] by simp
  then show ?thesis using t by blast
qed

fun args_le :: "nat \<Rightarrow> 'p cmd \<Rightarrow> bool" where
  "args_le k (Execcmd as) = (length as \<le> k)"
| "args_le k (Redircmd c f m fd) = args_le k c"
| "args_le k (Pipecmd l r) = (args_le k l \<and> args_le k r)"
| "args_le k (Listcmd l r) = (args_le k l \<and> args_le k r)"
| "args_le k (Backcmd c) = args_le k c"

definition cmd_ok :: "byte list \<Rightarrow> nat \<Rightarrow> pcmd \<Rightarrow> bool" where
  "cmd_ok ln k c \<longleftrightarrow> (\<forall>p\<in>set_cmd c. word_at ln p) \<and> args_le k c"

definition parsed :: "byte list \<Rightarrow> nat \<Rightarrow> nat \<Rightarrow> (pcmd \<times> nat) outcome \<Rightarrow> bool" where
  "parsed ln k s r \<longleftrightarrow>
     (case r of Ok (c, t) \<Rightarrow> s \<le> t \<and> t \<le> length ln \<and> cmd_ok ln k c | Panic _ \<Rightarrow> True | _ \<Rightarrow> False)"

lemma args_le_mono: "args_le k c \<Longrightarrow> k \<le> k' \<Longrightarrow> args_le k' c"
  by (induction c) auto

lemma args_le_add: "args_le k c \<Longrightarrow> args_le (Suc k) (add_arg a c)"
  by (induction a c rule: add_arg.induct) (auto elim: args_le_mono)

lemma set_add_arg: "set_cmd (add_arg a c) \<subseteq> insert a (set_cmd c)"
  by (induction a c rule: add_arg.induct) auto

lemma set_redir_of: "set_cmd (redir_of x f c) \<subseteq> insert f (set_cmd c)" "args_le k (redir_of x f c) = args_le k c"
  by (auto simp: redir_of_def)

lemma parsed_simps [simp]:
  "parsed ln k s (Ok (c, t)) \<longleftrightarrow> s \<le> t \<and> t \<le> length ln \<and> cmd_ok ln k c" "parsed ln k s (Panic m)"
  by (simp_all add: parsed_def)

lemma parsed_mono: "parsed ln k s' r \<Longrightarrow> s \<le> s' \<Longrightarrow> k \<le> k' \<Longrightarrow> parsed ln k' s r"
  by (cases r) (auto simp: parsed_def cmd_ok_def elim: args_le_mono)

lemma parsed_bnd:
  assumes "parsed ln k s m" "\<And>c t. s \<le> t \<Longrightarrow> t \<le> length ln \<Longrightarrow> cmd_ok ln k c \<Longrightarrow> parsed ln k' t (f (c, t))"
  shows "parsed ln k' s (bnd m f)"
  using assms by (cases m) (auto simp: parsed_def intro: parsed_mono[unfolded parsed_def])

lemma parsed_redirs:
  assumes "0 \<notin> set ln"
  shows "s \<le> length ln \<Longrightarrow> cmd_ok ln k c \<Longrightarrow> parsed ln k s (parseredirs (ln @ [0]) (length ln) c s)"
proof (induction "length ln - s" arbitrary: c s rule: less_induct)
  case less
  obtain r s1 where r: "peek (ln @ [0]) (length ln) ''<>'' s = Ok (r, s1)" "s \<le> s1" "s1 \<le> length ln"
    using peek_total[OF less(2) assms, of "''<>''"] by auto
  show ?case
  proof (cases r)
    case True
    then obtain x q e s2 where 1: "gettoken (ln @ [0]) (length ln) s1 = Ok (x, q, e, s2)" "s < s2" "s2 \<le> length ln"
      using peek_tok[of ln "''<>''" s s1] r less(2) assms by auto
    obtain y p d s3 where 2: "gettoken (ln @ [0]) (length ln) s2 = Ok (y, p, d, s3)" "s2 \<le> s3" "s3 \<le> length ln"
      "y = 97 \<Longrightarrow> word_at ln (p, d)"
      using gettoken_total[OF 1(3) assms] gettoken_ge by metis
    have "y = 97 \<Longrightarrow> cmd_ok ln k (redir_of x (p, d) c)" using 2(4) less(3) set_redir_of by (fastforce simp: cmd_ok_def)
    then have "y = 97 \<Longrightarrow> parsed ln k s (parseredirs (ln @ [0]) (length ln) (redir_of x (p, d) c) s3)"
      using less(1)[of s3 "redir_of x (p, d) c"] 1(2,3) 2(2,3) parsed_mono[of ln k s3 _ s k] by fastforce
    then show ?thesis using r True 1 2 by (subst parseredirs.simps) simp
  next
    case False
    then show ?thesis using r less(3) by (subst parseredirs.simps) simp
  qed
qed

lemma parsed_back:
  assumes "0 \<notin> set ln"
  shows "s \<le> length ln \<Longrightarrow> cmd_ok ln k c \<Longrightarrow> parsed ln k s (back_loop (ln @ [0]) (length ln) c s)"
proof (induction "length ln - s" arbitrary: c s rule: less_induct)
  case less
  obtain r s1 where r: "peek (ln @ [0]) (length ln) ''&'' s = Ok (r, s1)" "s \<le> s1" "s1 \<le> length ln"
    using peek_total[OF less(2) assms, of "''&''"] by auto
  show ?case
  proof (cases r)
    case True
    then obtain x q e s2 where 1: "gettoken (ln @ [0]) (length ln) s1 = Ok (x, q, e, s2)" "s < s2" "s2 \<le> length ln"
      using peek_tok[of ln "''&''" s s1] r less(2) assms by auto
    have "parsed ln k s (back_loop (ln @ [0]) (length ln) (Backcmd c) s2)"
      using less(1)[of s2 "Backcmd c"] 1(2,3) less(3) parsed_mono[of ln k s2 _ s k] by (fastforce simp: cmd_ok_def)
    then show ?thesis using r True 1 by (subst back_loop.simps) simp
  next
    case False
    then show ?thesis using r less(3) by (subst back_loop.simps) simp
  qed
qed

lemma parsed_args:
  assumes "0 \<notin> set ln"
  shows "s \<le> length ln \<Longrightarrow> cmd_ok ln argc c \<Longrightarrow> argc \<le> 9 \<Longrightarrow> parsed ln 9 s (exec_args (ln @ [0]) (length ln) argc c s)"
proof (induction "9 - argc" arbitrary: argc c s rule: less_induct)
  case less
  obtain r s1 where r: "peek (ln @ [0]) (length ln) ''|)&;'' s = Ok (r, s1)" "s \<le> s1" "s1 \<le> length ln"
    using peek_total[OF less(2) assms, of "''|)&;''"] by auto
  obtain x p d s2 where 1: "gettoken (ln @ [0]) (length ln) s1 = Ok (x, p, d, s2)" "s1 \<le> s2" "s2 \<le> length ln"
    "x = 97 \<Longrightarrow> word_at ln (p, d)"
    using gettoken_total[OF r(3) assms] gettoken_ge by metis
  have c9: "cmd_ok ln 9 c" using less(3,4) args_le_mono by (fastforce simp: cmd_ok_def)
  have "parsed ln 9 s (bnd (parseredirs (ln @ [0]) (length ln) (add_arg (p, d) c) s2) (\<lambda>(c, s). exec_args (ln @ [0]) (length ln) (argc + 1) c s))"
    if "x = 97" "argc + 1 < 10"
  proof (rule parsed_mono[of _ 9 s2], rule parsed_bnd)
    have "cmd_ok ln (argc + 1) (add_arg (p, d) c)"
      using less(3) 1(4)[OF that(1)] set_add_arg args_le_add by (fastforce simp: cmd_ok_def)
    then show "parsed ln (argc + 1) s2 (parseredirs (ln @ [0]) (length ln) (add_arg (p, d) c) s2)" using parsed_redirs[OF assms 1(3)] by simp
  qed (use less(1)[of "argc + 1"] that r 1 in auto)
  then show ?case using r 1 c9 by (subst exec_args.simps) (auto simp: MAXARGS_def)
qed

lemma parsed_list: "cmd_ok ln k c \<Longrightarrow> parsed ln k t r \<Longrightarrow> s \<le> t \<Longrightarrow> parsed ln k s (bnd r (\<lambda>(d, s). Ok (Listcmd c d, s)))"
  by (cases r) (auto simp: parsed_def cmd_ok_def)

lemma parsed_pipe: "cmd_ok ln k c \<Longrightarrow> parsed ln k t r \<Longrightarrow> s \<le> t \<Longrightarrow> parsed ln k s (bnd r (\<lambda>(d, s). Ok (Pipecmd c d, s)))"
  by (cases r) (auto simp: parsed_def cmd_ok_def)

text \<open>One step past a token that \<open>peek\<close> has found.\<close>

lemma parsed_peek:
  assumes "s \<le> length ln" "0 \<notin> set ln" "set toks \<subseteq> set ''<|>&;()''"
    "\<And>s1 x q e t. s \<le> s1 \<Longrightarrow> s1 \<le> length ln \<Longrightarrow> gettoken (ln @ [0]) (length ln) s1 = Ok (x, q, e, t) \<Longrightarrow>
       s < t \<Longrightarrow> t \<le> length ln \<Longrightarrow> parsed ln k s (f s1)"
    "\<And>s1. s \<le> s1 \<Longrightarrow> s1 \<le> length ln \<Longrightarrow> parsed ln k s (g s1)"
  shows "parsed ln k s (bnd (peek (ln @ [0]) (length ln) toks s) (\<lambda>(r, s). if r then f s else g s))"
proof -
  have z: "0 \<notin> set (map ch toks)" using assms(3) by (auto simp: of_char_def)
  obtain r s1 where r: "peek (ln @ [0]) (length ln) toks s = Ok (r, s1)" "s \<le> s1" "s1 \<le> length ln"
    using peek_total[OF assms(1,2) z] by auto
  show ?thesis
  proof (cases r)
    case True
    then show ?thesis using peek_tok[of ln toks s s1] r assms by fastforce
  qed (use r assms(5) in simp)
qed

lemma if_neg: "(if \<not> P then x else y) = (if P then y else x)"
  by simp

lemma parsed_all:
  assumes "0 \<notin> set ln"
  shows
    "s \<le> length ln \<Longrightarrow> 4 * (length ln - s) + 4 \<le> n \<Longrightarrow> parsed ln 9 s (parseline n (ln @ [0]) (length ln) s)"
    "s \<le> length ln \<Longrightarrow> 4 * (length ln - s) + 3 \<le> n \<Longrightarrow> parsed ln 9 s (parsepipe n (ln @ [0]) (length ln) s)"
    "s \<le> length ln \<Longrightarrow> 4 * (length ln - s) + 1 \<le> n \<Longrightarrow> parsed ln 9 s (parseblock n (ln @ [0]) (length ln) s)"
    "s \<le> length ln \<Longrightarrow> 4 * (length ln - s) + 2 \<le> n \<Longrightarrow> parsed ln 9 s (parseexec n (ln @ [0]) (length ln) s)"
proof (induction n arbitrary: s)
  case 0
  { case 1 then show ?case by simp next case 2 then show ?case by simp next case 3 then show ?case by simp next case 4 then show ?case by simp }
next
  case (Suc n)
  let ?b = "ln @ [0]" and ?es = "length ln"
  { case 1
    have "parsed ln 9 t (bnd (peek ?b ?es '';'' t) (\<lambda>(r, s). if r then bnd (gettoken ?b ?es s) (\<lambda>(_, _, _, s). bnd (parseline n ?b ?es s) (\<lambda>(d, s). Ok (Listcmd c d, s))) else Ok (c, s)))"
      if "s \<le> t" "t \<le> ?es" "cmd_ok ln 9 c" for c t
      by (rule parsed_peek) (use that assms 1 in \<open>auto intro!: parsed_list[OF _ Suc.IH(1)]\<close>)
    then show ?case using Suc.IH(2)[of s] 1 parsed_back[OF assms]
      by (auto intro!: parsed_bnd[where k = 9])
  next
    case 2
    have "parsed ln 9 t (bnd (peek ?b ?es ''|'' t) (\<lambda>(r, s). if r then bnd (gettoken ?b ?es s) (\<lambda>(_, _, _, s). bnd (parsepipe n ?b ?es s) (\<lambda>(d, s). Ok (Pipecmd c d, s))) else Ok (c, s)))"
      if "s \<le> t" "t \<le> ?es" "cmd_ok ln 9 c" for c t
      by (rule parsed_peek) (use that assms 2 in \<open>auto intro!: parsed_pipe[OF _ Suc.IH(2)]\<close>)
    then show ?case using Suc.IH(4)[of s] 2
      by (auto intro!: parsed_bnd[where k = 9])
  next
    case 3
    have close: "parsed ln 9 t (bnd (peek ?b ?es '')'' t) (\<lambda>(r, s). if r then bnd (gettoken ?b ?es s) (\<lambda>(_, _, _, s). parseredirs ?b ?es c s) else Panic ''syntax - missing )''))"
      if "t \<le> ?es" "cmd_ok ln 9 c" for c t
      by (rule parsed_peek) (use that assms in \<open>auto intro!: parsed_mono[OF parsed_redirs[OF assms]]\<close>)
    have "parsed ln 9 s (bnd (parseline n ?b ?es t) (\<lambda>(c, t). bnd (peek ?b ?es '')'' t) (\<lambda>(r, s). if r then bnd (gettoken ?b ?es s) (\<lambda>(_, _, _, s). parseredirs ?b ?es c s) else Panic ''syntax - missing )'')))"
      if "s < t" "t \<le> ?es" for t
      by (rule parsed_mono[of _ 9 t], rule parsed_bnd[where k = 9]) (use that 3 close Suc.IH(1)[of t] in auto)
    then have "parsed ln 9 s (bnd (peek ?b ?es ''('' s) (\<lambda>(r, s). if r then bnd (gettoken ?b ?es s) (\<lambda>(_, _, _, s).
        bnd (parseline n ?b ?es s) (\<lambda>(c, t). bnd (peek ?b ?es '')'' t) (\<lambda>(r, s). if r then bnd (gettoken ?b ?es s) (\<lambda>(_, _, _, s). parseredirs ?b ?es c s) else Panic ''syntax - missing )''))) else Panic ''parseblock''))"
      by (intro parsed_peek) (use 3 assms in auto)
    then show ?case unfolding parseblock.simps if_neg .
  next
    case 4
    have "parsed ln 9 t (bnd (parseredirs ?b ?es (Execcmd []) t) (\<lambda>(ret, s). exec_args ?b ?es 0 ret s))" if "t \<le> ?es" for t
      using that parsed_redirs[OF assms that, of 0 "Execcmd []"] parsed_args[OF assms]
      by (auto intro!: parsed_bnd[where k = 0] simp: cmd_ok_def)
    then show ?case using 4 assms Suc.IH(3) unfolding parseexec.simps
      by (intro parsed_peek) (auto intro!: parsed_mono[of ln 9 _ _ s 9])}
qed

section \<open>Terminators\<close>

text \<open>The strings of a command in the line: before \<open>nulterminate\<close> the text between the two pointers, after it a C string.\<close>

definition span_of :: "byte list \<Rightarrow> nat \<times> nat \<Rightarrow> byte list" where
  "span_of ln = (\<lambda>(q, e). take (e - q) (drop q ln))"

definition c_string :: "byte list \<Rightarrow> nat \<times> nat \<Rightarrow> byte list" where
  "c_string b = (\<lambda>(q, e). cstr (drop q b))"

definition nuls :: "nat set \<Rightarrow> byte list \<Rightarrow> byte list" where
  "nuls E b = map (\<lambda>i. if i \<in> E then 0 else b ! i) [0..<length b]"

lemma nuls_simps [simp]: "length (nuls E b) = length b" "i < length b \<Longrightarrow> nuls E b ! i = (if i \<in> E then 0 else b ! i)" "nuls {} b = b"
  by (simp_all add: nuls_def map_nth)

lemma nuls_update: "e < length b \<Longrightarrow> (nuls E b)[e := 0] = nuls (insert e E) b"
  by (rule nth_equalityI) (auto simp: nth_list_update)

lemma nul_at_nuls: "\<forall>p\<in>set as. snd p < length b \<Longrightarrow> nul_at as (nuls E b) = Ok (nuls (E \<union> snd ` set as) b)"
  by (induction as arbitrary: E) (auto simp: nuls_update)

lemma nulterminate_nuls: "\<forall>p\<in>set_cmd c. snd p < length b \<Longrightarrow> nulterminate c (nuls E b) = Ok (nuls (E \<union> snd ` set_cmd c) b)"
proof (induction c arbitrary: E)
  case (Pipecmd l r)
  then show ?case by (simp add: image_Un Un_assoc)
next
  case (Listcmd l r)
  then show ?case by (simp add: image_Un Un_assoc)
qed (simp_all add: nul_at_nuls nuls_update)

lemma cstr_append: "0 \<notin> set xs \<Longrightarrow> cstr (xs @ 0 # ys) = xs"
  by (induction xs) (auto simp: cstr_def)

lemma c_string_nuls:
  assumes "\<forall>p\<in>P. word_at ln p" "p \<in> P" "0 \<notin> set ln"
  shows "c_string (nuls (snd ` P) (ln @ [0])) p = span_of ln p"
proof -
  obtain q e where p: "p = (q, e)" by force
  have w: "q < e" "e \<le> length ln" "\<And>i. q \<le> i \<Longrightarrow> i < e \<Longrightarrow> wordch (ln ! i)" using assms(1,2) p by (auto simp: word_at_def)
  have out: "i \<notin> snd ` P" if "q \<le> i" "i < e" for i
    using assms(1) w(2) w(3)[OF that] that by (fastforce simp: word_at_def)
  let ?b = "nuls (snd ` P) (ln @ [0])"
  have "take (e - q) (drop q ?b) = span_of ln p"
  proof (rule nth_equalityI)
    fix i assume "i < length (take (e - q) (drop q ?b))"
    then show "take (e - q) (drop q ?b) ! i = span_of ln p ! i" using w(1,2) out[of "q + i"] by (auto simp: span_of_def p)
  qed (use w in \<open>simp add: span_of_def p\<close>)
  moreover have "drop e ?b = 0 # drop (e + 1) ?b"
    using Cons_nth_drop_Suc[of e ?b] w(2) image_eqI[of e snd p P] assms(2) p by simp
  moreover have "drop q ?b = take (e - q) (drop q ?b) @ drop e ?b"
    using append_take_drop_id[of "e - q" "drop q ?b"] w(1) by (metis drop_drop le_add_diff_inverse2 less_imp_le)
  ultimately have "drop q ?b = span_of ln p @ 0 # drop (e + 1) ?b" by simp
  moreover have "0 \<notin> set (span_of ln p)" using assms(3) by (auto simp: span_of_def p dest: in_set_takeD in_set_dropD)
  ultimately show ?thesis
    by (simp add: c_string_def p cstr_append)
qed

section \<open>Properties of every line\<close>

lemma ustrlen_line: "0 \<notin> set ln \<Longrightarrow> ustrlen (ln @ [0]) = Ok (int (length ln))"
proof -
  have "ustrlen_loop (ln @ [0]) n = Ok (n + int (length ln))" if "0 \<notin> set ln" for n
    using that by (induction ln arbitrary: n) auto
  then show "0 \<notin> set ln \<Longrightarrow> ustrlen (ln @ [0]) = Ok (int (length ln))" by (simp add: ustrlen_def)
qed

lemma parsecmd_Ok:
  assumes "0 \<notin> set ln" "parseline (4 * length ln + 4) (ln @ [0]) (length ln) 0 = Ok (c, s)" "skip_ws (ln @ [0]) (length ln) s = Ok (length ln)"
    "cmd_ok ln 9 c"
  shows "\<exists>b. parsecmd (ln @ [0]) = Ok (c, b) \<and> (\<forall>p\<in>set_cmd c. c_string b p = span_of ln p)"
proof -
  have w: "\<forall>p\<in>set_cmd c. word_at ln p" using assms(4) by (simp add: cmd_ok_def)
  then have "nulterminate c (ln @ [0]) = Ok (nuls (snd ` set_cmd c) (ln @ [0]))"
    using nulterminate_nuls[of c "ln @ [0]" "{}"] by (force simp: word_at_def)
  then show ?thesis
    using assms(2,3) ustrlen_line[OF assms(1)] c_string_nuls[OF w _ assms(1)] by (simp add: parsecmd_def peek_def)
qed

text \<open>
  The parser handles every line: it ends with a command or with one of its error messages, and reads and writes nothing outside the
  line. Every string of a command is a maximal run of word characters of the line, which is what the C string at that
  pointer holds when \<open>nulterminate\<close> has run, and no command has so many arguments that its null-terminated \<open>argv\<close> overflows.
\<close>

theorem parsecmd_handles_every_line:
  assumes "0 \<notin> set ln"
  shows "(\<exists>m. parsecmd (ln @ [0]) = Panic m) \<or>
    (\<exists>c b. parsecmd (ln @ [0]) = Ok (c, b) \<and> args_le (MAXARGS - 1) c \<and>
      (\<forall>p\<in>set_cmd c. word_at ln p \<and> c_string b p = span_of ln p))"
proof (cases "parseline (4 * length ln + 4) (ln @ [0]) (length ln) 0")
  case (Ok r)
  then obtain c s where c: "parseline (4 * length ln + 4) (ln @ [0]) (length ln) 0 = Ok (c, s)" "s \<le> length ln" "cmd_ok ln 9 c"
    using parsed_all(1)[OF assms, of 0 "4 * length ln + 4"] by (cases r) auto
  obtain t where t: "skip_ws (ln @ [0]) (length ln) s = Ok t" "t \<le> length ln" using skip_ws_total c(2) by blast
  show ?thesis
  proof (cases "t = length ln")
    case True
    then show ?thesis using parsecmd_Ok[OF assms c(1) _ c(3)] t(1) c(3) by (auto simp: cmd_ok_def MAXARGS_def)
  next
    case False
    then show ?thesis using c(1) t ustrlen_line[OF assms] by (simp add: parsecmd_def peek_def)
  qed
qed (use parsed_all(1)[OF assms, of 0 "4 * length ln + 4"] ustrlen_line[OF assms] in \<open>auto simp: parsecmd_def parsed_def\<close>)

theorem parsecmd_handles_every_line_witness:
  "(\<exists>m. parsecmd ([97, 32, 40] @ [0]) = Panic m) \<or>
    (\<exists>c b. parsecmd ([97, 32, 40] @ [0]) = Ok (c, b) \<and> args_le (MAXARGS - 1) c \<and>
      (\<forall>p\<in>set_cmd c. word_at [97, 32, 40] p \<and> c_string b p = span_of [97, 32, 40] p))"
  by (rule parsecmd_handles_every_line) simp

end
