(* ===== verification/Shell_Syntax.thy ===== *)
theory Shell_Syntax
  imports Shell
begin

text \<open>
  The syntax of the shell: every command can be written as a line, with parentheses where the precedences of \<open>;\<close>, \<open>&\<close>, \<open>|\<close> and the
  redirections require them, and the parser reads it back.
\<close>

unbundle bit_operations_syntax

section \<open>Writing a command\<close>

fun level :: "'p cmd \<Rightarrow> nat" where
  "level (Listcmd l r) = 0"
| "level (Backcmd c) = 1"
| "level (Pipecmd l r) = 2"
| "level (Redircmd c f m fd) = 3"
| "level (Execcmd as) = 3"

definition redir_tok :: "uint \<Rightarrow> byte list" where
  "redir_tok m = (if m = O_RDONLY then [60] else if m = O_WRONLY OR O_CREATE OR O_TRUNC then [62] else [62, 62])"

definition paren :: "nat \<Rightarrow> 'p cmd \<Rightarrow> byte list list \<Rightarrow> byte list list" where
  "paren k c ts = (if level c < k then [[40]] @ ts @ [[41]] else ts)"

fun tokens :: "byte list cmd \<Rightarrow> byte list list" where
  "tokens (Execcmd as) = as"
| "tokens (Redircmd c f m fd) = paren 3 c (tokens c) @ [redir_tok m, f]"
| "tokens (Pipecmd l r) = paren 3 l (tokens l) @ [[124]] @ paren 2 r (tokens r)"
| "tokens (Listcmd l r) = paren 1 l (tokens l) @ [[59]] @ tokens r"
| "tokens (Backcmd c) = paren 1 c (tokens c) @ [[38]]"

definition render :: "byte list list \<Rightarrow> byte list" where
  "render ts = concat (map (\<lambda>t. t @ [32]) ts)"

definition is_word :: "byte list \<Rightarrow> bool" where
  "is_word w \<longleftrightarrow> w \<noteq> [] \<and> (\<forall>c\<in>set w. wordch c \<and> c \<noteq> 0)"

definition redir_ok :: "uint \<Rightarrow> int \<Rightarrow> bool" where
  "redir_ok m fd \<longleftrightarrow> (m, fd) \<in> {(O_RDONLY, 0), (O_WRONLY OR O_CREATE OR O_TRUNC, 1), (O_WRONLY OR O_CREATE, 1)}"

fun wf_cmd :: "byte list cmd \<Rightarrow> bool" where
  "wf_cmd (Execcmd as) = (length as < MAXARGS \<and> list_all is_word as)"
| "wf_cmd (Redircmd c f m fd) = (wf_cmd c \<and> is_word f \<and> redir_ok m fd)"
| "wf_cmd (Pipecmd l r) = (wf_cmd l \<and> wf_cmd r)"
| "wf_cmd (Listcmd l r) = (wf_cmd l \<and> wf_cmd r)"
| "wf_cmd (Backcmd c) = wf_cmd c"

section \<open>Tokens\<close>

definition tok_ok :: "byte list \<Rightarrow> bool" where
  "tok_ok t \<longleftrightarrow> is_word t \<or> t \<in> {[60], [62], [62, 62], [124], [38], [59], [40], [41]}"

definition tok_type :: "byte list \<Rightarrow> byte" where
  "tok_type t = (if t = [62, 62] then 43 else if is_sym (hd t) then hd t else 97)"

definition at :: "byte list \<Rightarrow> nat \<Rightarrow> byte list list \<Rightarrow> bool" where
  "at ln s ts \<longleftrightarrow> s \<le> length ln \<and> drop s ln = render ts \<and> list_all tok_ok ts"

lemma render_simps [simp]: "render [] = []" "render (t # ts) = t @ 32 # render ts"
  by (simp_all add: render_def)

lemma tok_ok_ne: "tok_ok t \<Longrightarrow> t \<noteq> [] \<and> \<not> is_ws (hd t) \<and> hd t \<noteq> 0"
  by (cases t) (auto simp: tok_ok_def is_word_def wordch_def is_ws_def)

lemma at_char: "at ln s ts \<Longrightarrow> s < length ln \<longleftrightarrow> ts \<noteq> []" "at ln s (t # ts) \<Longrightarrow> i \<le> length t \<Longrightarrow> ln ! (s + i) = (t @ [32]) ! i"
proof -
  show "s < length ln \<longleftrightarrow> ts \<noteq> []" if "at ln s ts"
  proof -
    have "length ln - s = length (render ts)" using that by (metis at_def length_drop)
    then show ?thesis by (cases ts) auto
  qed
  show "ln ! (s + i) = (t @ [32]) ! i" if "at ln s (t # ts)" "i \<le> length t"
  proof -
    have e: "drop s ln = t @ 32 # render ts" using that(1) by (simp add: at_def)
    have "s \<le> length ln" using that(1) by (simp add: at_def)
    then have "ln ! (s + i) = drop s ln ! i" by simp
    also have "\<dots> = (t @ 32 # render ts) ! i" unfolding e ..
    also have "\<dots> = (t @ [32]) ! i" using that(2) by (auto simp: nth_append)
    finally show ?thesis .
  qed
qed

lemma at_length: "at ln s (t # ts) \<Longrightarrow> s + length t < length ln"
proof -
  assume "at ln s (t # ts)"
  then have "length ln - s = length (render (t # ts))" by (metis at_def length_drop)
  then show ?thesis by simp
qed

lemma at_next: "at ln s (t # ts) \<Longrightarrow> at ln (s + length t + 1) ts"
proof -
  assume a: "at ln s (t # ts)"
  then have e: "drop s ln = t @ 32 # render ts" by (simp add: at_def)
  have "drop (s + length t + 1) ln = drop (length t + 1) (drop s ln)" by (simp add: add.commute add.left_commute)
  also have "\<dots> = render ts" unfolding e by simp
  finally show ?thesis using a at_length[OF a] by (simp add: at_def)
qed

lemma at_first: "at ln s (t # ts) \<Longrightarrow> ln ! s = hd t \<and> tok_ok t"
  using at_char(2)[of ln s t ts 0] tok_ok_ne[of t] by (cases t) (auto simp: at_def)

lemma skip_ws_at: "at ln s ts \<Longrightarrow> skip_ws (ln @ [0]) (length ln) s = Ok s"
proof (cases ts)
  case (Cons t us)
  assume "at ln s ts"
  then show ?thesis using at_first[of ln s t us] at_char(1)[of ln s ts] tok_ok_ne[of t] Cons by (subst skip_ws_step) simp
qed (use at_char(1)[of ln s ts] in \<open>subst skip_ws_step; simp\<close>)

lemma peek_at:
  assumes "at ln s ts" "0 \<notin> set (map ch toks)"
  shows "peek (ln @ [0]) (length ln) toks s = Ok (ts \<noteq> [] \<and> hd (hd ts) \<in> set (map ch toks), s)"
proof (cases ts)
  case Nil
  then show ?thesis using at_char(1)[OF assms(1)] assms(1) skip_ws_at[OF assms(1)] by (simp add: peek_def at_def)
next
  case (Cons t us)
  then show ?thesis
    using assms at_first[of ln s t us] at_char(1)[OF assms(1)] tok_ok_ne[of t] by (simp add: peek_def skip_ws_at in_str_iff)
qed

lemma skip_word_at:
  assumes "at ln s (t # ts)" "is_word t"
  shows "i \<le> length t \<Longrightarrow> skip_word (ln @ [0]) (length ln) (s + i) = Ok (s + length t)"
proof (induction "length t - i" arbitrary: i)
  case 0
  then show ?case using at_length[OF assms(1)] at_char(2)[OF assms(1), of "length t"] by (subst skip_word_step) (simp add: is_ws_def nat_int_add nth_append)
next
  case (Suc n)
  then have i: "i < length t" by simp
  have "skip_word (ln @ [0]) (length ln) (s + Suc i) = Ok (s + length t)" using Suc i by (intro Suc(1)) auto
  then show ?case using at_length[OF assms(1)] at_char(2)[OF assms(1), of i] i assms(2) nth_mem[OF i]
    by (subst skip_word_step) (auto simp: is_word_def wordch_def nth_append nat_int_add)
qed

lemma tok_at:
  assumes "at ln s (t # ts)"
  shows "gettoken (ln @ [0]) (length ln) s = Ok (tok_type t, s, s + length t, s + length t + 1)" "at ln (s + length t + 1) ts"
    "span_of ln (s, s + length t) = t"
proof -
  show "at ln (s + length t + 1) ts" using at_next[OF assms] .
  then have ws: "skip_ws (ln @ [0]) (length ln) (s + length t) = Ok (s + length t + 1)"
    using skip_ws_at at_length[OF assms] at_char(2)[OF assms, of "length t"] by (subst skip_ws_step) (simp add: is_ws_def nat_int_add)
  show "span_of ln (s, s + length t) = t" using assms by (simp add: span_of_def at_def)
  note c = at_char(2)[OF assms, of 0] at_char(2)[OF assms, of 1] at_length[OF assms] skip_ws_at[OF assms]
  have "tok_ok t" using assms by (simp add: at_def)
  then consider (word) "is_word t" | (sym) "t \<in> {[60], [62], [62, 62], [124], [38], [59], [40], [41]}" by (auto simp: tok_ok_def)
  then show "gettoken (ln @ [0]) (length ln) s = Ok (tok_type t, s, s + length t, s + length t + 1)"
  proof cases
    case word
    have h: "t \<noteq> []" "wordch (hd t)" "hd t \<noteq> 0" using word by (auto simp: is_word_def)
    then have f: "ln ! s = hd t" "t \<noteq> [62, 62]" "\<not> is_sym (hd t)" using at_first[OF assms] by (auto simp: wordch_def is_sym_def)
    have n: "hd t \<noteq> 124" "hd t \<noteq> 40" "hd t \<noteq> 41" "hd t \<noteq> 59" "hd t \<noteq> 38" "hd t \<noteq> 60" "hd t \<noteq> 62" using f(3) by (auto simp: is_sym_def)
    show ?thesis using h f n c(3,4) ws skip_word_at[OF assms word, of 0] by (simp add: gettoken_def tok_type_def del: bnd_Ok_iff)
  next
    case sym
    note h = sym at_first[OF assms] c(3,4) ws
    show ?thesis
    proof (cases "hd t = 62")
      case True
      then have "t = [62] \<and> ln ! (s + 1) = 32 \<or> t = [62, 62] \<and> ln ! (s + 1) = 62" using sym c(2) by auto
      then show ?thesis using h True by (elim disjE conjE) (simp_all add: gettoken_def tok_type_def is_sym_def nat_int_add del: bnd_Ok_iff)
    next
      case False
      then have "length t = 1" "hd t \<in> {60, 124, 38, 59, 40, 41}" using sym by auto
      then show ?thesis using h by (auto simp: gettoken_def tok_type_def is_sym_def simp del: bnd_Ok_iff)
    qed
  qed
qed

section \<open>Parsing\<close>

abbreviation sp :: "byte list \<Rightarrow> pcmd \<Rightarrow> byte list cmd" where
  "sp ln \<equiv> map_cmd (span_of ln)"

definition yields :: "byte list \<Rightarrow> byte list list \<Rightarrow> byte list cmd \<Rightarrow> (pcmd \<times> nat) outcome \<Rightarrow> bool" where
  "yields ln ts c r \<longleftrightarrow> (\<exists>d s. r = Ok (d, s) \<and> at ln s ts \<and> sp ln d = c)"

lemma yields_Ok [simp]: "yields ln ts c (Ok (d, s)) \<longleftrightarrow> at ln s ts \<and> sp ln d = c"
  by (simp add: yields_def)

lemma yields_bnd:
  assumes "yields ln ts c r" "\<And>d s. at ln s ts \<Longrightarrow> sp ln d = c \<Longrightarrow> yields ln us e (f (d, s))"
  shows "yields ln us e (bnd r f)"
  using assms by (auto simp: yields_def)

lemma at_len: "at ln s ts \<Longrightarrow> length ln - s = length (render ts)"
  by (metis at_def length_drop)

lemma render_append [simp]: "render (ts @ us) = render ts @ render us"
  by (simp add: render_def)

type_synonym redir = "byte list \<times> uint \<times> int"

fun wrap :: "redir \<Rightarrow> byte list cmd \<Rightarrow> byte list cmd" where
  "wrap (f, m, fd) c = Redircmd c f m fd"

fun rtoks :: "redir list \<Rightarrow> byte list list" where
  "rtoks [] = []"
| "rtoks ((f, m, fd) # rs) = redir_tok m # f # rtoks rs"

abbreviation redirs_ok :: "redir list \<Rightarrow> bool" where
  "redirs_ok \<equiv> list_all (\<lambda>(f, m, fd). is_word f \<and> redir_ok m fd)"

text \<open>What may follow a simple command, a pipe line, one with its ampersands, and a list.\<close>

definition follow :: "byte set \<Rightarrow> byte list list \<Rightarrow> bool" where
  "follow S ts \<longleftrightarrow> ts = [] \<or> (\<exists>c\<in>S. hd ts = [c])"

lemma redir_of_tok: "redir_ok m fd \<Longrightarrow> redir_of (tok_type (redir_tok m)) p c = Redircmd c p m fd" "hd (redir_tok m) \<in> {60, 62}"
  by (auto simp: redir_ok_def redir_of_def redir_tok_def tok_type_def O_RDONLY_def O_WRONLY_def O_CREATE_def O_TRUNC_def is_sym_def)

lemma word_tok: "is_word w \<Longrightarrow> tok_type w = 97" "is_word w \<Longrightarrow> \<not> is_sym (hd w)"
proof -
  show *: "is_word w \<Longrightarrow> \<not> is_sym (hd w)" for w by (cases w) (auto simp: is_word_def wordch_def)
  show "is_word w \<Longrightarrow> tok_type w = 97" using *[of w] by (auto simp: tok_type_def is_sym_def)
qed

lemma yields_redirs:
  assumes "ts = [] \<or> hd (hd ts) \<notin> {60, 62}"
  shows "redirs_ok rs \<Longrightarrow> at ln s (rtoks rs @ ts) \<Longrightarrow> yields ln ts (fold wrap rs (sp ln c)) (parseredirs (ln @ [0]) (length ln) c s)"
proof (induction rs arbitrary: c s)
  case Nil
  then show ?case using assms peek_at[of ln s ts "''<>''"] by (subst parseredirs.simps) auto
next
  case (Cons r rs)
  obtain f m fd where r: "r = (f, m, fd)" by (cases r)
  let ?s = "s + length (redir_tok m) + 1"
  have a: "at ln s (redir_tok m # f # rtoks rs @ ts)" using Cons.prems r by simp
  note t = tok_at[OF a] tok_at[OF tok_at(2)[OF a]]
  have "yields ln ts (fold wrap rs (sp ln (Redircmd c (?s, ?s + length f) m fd))) (parseredirs (ln @ [0]) (length ln) (Redircmd c (?s, ?s + length f) m fd) (?s + length f + 1))"
    using Cons.prems t by (intro Cons.IH) (simp_all add: r)
  then show ?case
    using Cons.prems(1) t peek_at[OF a, of "''<>''"] redir_of_tok(1)[of m fd "(?s, ?s + length f)" c] redir_of_tok(2)[of m] word_tok(1)[of f] r by (subst parseredirs.simps) simp
qed

lemma yields_back:
  assumes "ts = [] \<or> hd (hd ts) \<noteq> 38"
  shows "at ln s (replicate j [38] @ ts) \<Longrightarrow> yields ln ts ((Backcmd ^^ j) (sp ln c)) (back_loop (ln @ [0]) (length ln) c s)"
proof (induction j arbitrary: c s)
  case 0
  then show ?case using assms peek_at[of ln s ts "''&''"] by (subst back_loop.simps) auto
next
  case (Suc j)
  then have a: "at ln s ([38] # replicate j [38] @ ts)" by simp
  have "yields ln ts ((Backcmd ^^ j) (sp ln (Backcmd c))) (back_loop (ln @ [0]) (length ln) (Backcmd c) (s + 2))"
    using Suc.IH[of "s + 2" "Backcmd c"] tok_at(2)[OF a] by simp
  then show ?case using tok_at(1)[OF a] peek_at[OF a, of "''&''"] by (subst back_loop.simps) (simp add: funpow_swap1)
qed

lemma map_add_arg: "map_cmd f (add_arg a c) = add_arg (f a) (map_cmd f c)"
  by (induction a c rule: add_arg.induct) auto

lemma follow_hd: "follow S ts \<Longrightarrow> ts \<noteq> [] \<Longrightarrow> hd (hd ts) \<in> S"
  by (auto simp: follow_def)

lemma yields_args_end:
  assumes "follow {124, 41, 38, 59} ts" "at ln s ts" "sp ln c = x"
  shows "yields ln ts x (exec_args (ln @ [0]) (length ln) argc c s)"
proof (cases ts)
  case Nil
  have "s = length ln" using at_char(1)[OF assms(2)] assms(2) Nil by (auto simp: at_def)
  then have "gettoken (ln @ [0]) (length ln) s = Ok (0, s, s, s)" using skip_ws_at[OF assms(2)] by (simp add: gettoken_def)
  then show ?thesis using assms(2,3) Nil peek_at[OF assms(2), of "''|)&;''"] by (subst exec_args.simps) simp
next
  case (Cons t us)
  then show ?thesis using assms(2,3) follow_hd[OF assms(1)] peek_at[OF assms(2), of "''|)&;''"] by (subst exec_args.simps) auto
qed

lemma exec_args_word:
  assumes "at ln s (w # ts)" "is_word w" "argc + 1 < 10"
  shows "exec_args (ln @ [0]) (length ln) argc c s =
    bnd (parseredirs (ln @ [0]) (length ln) (add_arg (s, s + length w) c) (s + length w + 1)) (\<lambda>(c, s). exec_args (ln @ [0]) (length ln) (argc + 1) c s)"
  using assms tok_at[OF assms(1)] peek_at[OF assms(1), of "''|)&;''"] word_tok[OF assms(2)]
  by (subst exec_args.simps) (auto simp: is_sym_def MAXARGS_def)

lemma yields_args:
  assumes "follow {124, 41, 38, 59} ts" "redirs_ok rs"
  shows "argc + length ws < 10 \<Longrightarrow> list_all is_word ws \<Longrightarrow> at ln s (ws @ rtoks rs @ ts) \<Longrightarrow> ws \<noteq> [] \<Longrightarrow> sp ln c = Execcmd vs \<Longrightarrow>
    yields ln ts (fold wrap rs (Execcmd (vs @ ws))) (exec_args (ln @ [0]) (length ln) argc c s)"
proof (induction ws arbitrary: argc c s vs)
  case (Cons w ws)
  then have a: "at ln s (w # ws @ rtoks rs @ ts)" and w: "is_word w" by simp_all
  note t = tok_at[OF a]
  let ?c = "add_arg (s, s + length w) c" and ?s = "s + length w + 1"
  have c: "sp ln ?c = Execcmd (vs @ [w])" using Cons.prems(5) t(3) by (simp add: map_add_arg)
  have "yields ln ts (fold wrap rs (Execcmd ((vs @ [w]) @ ws)))
    (bnd (parseredirs (ln @ [0]) (length ln) ?c ?s) (\<lambda>(c, s). exec_args (ln @ [0]) (length ln) (argc + 1) c s))"
  proof (cases ws)
    case Nil
    have n: "ts = [] \<or> hd (hd ts) \<notin> {60, 62}" using follow_hd[OF assms(1)] by auto
    have "at ln ?s (rtoks rs @ ts)" using t(2) Nil by simp
    from yields_redirs[OF n assms(2) this, of ?c] show ?thesis
      by (rule yields_bnd) (use yields_args_end[OF assms(1)] c Nil in auto)
  next
    case (Cons v us)
    have n: "ws @ rtoks rs @ ts = [] \<or> hd (hd (ws @ rtoks rs @ ts)) \<notin> {60, 62}"
      using Cons Cons.prems(2) word_tok(2)[of v] by (auto simp: is_sym_def)
    have "at ln ?s (rtoks [] @ ws @ rtoks rs @ ts)" using t(2) by simp
    from yields_redirs[OF n _ this, of ?c] show ?thesis
      by (rule yields_bnd) (use Cons.IH[where argc = "argc + 1" and vs = "vs @ [w]"] c Cons Cons.prems(1,2) in auto)
  qed
  then show ?case using Cons.prems exec_args_word[OF a w] by simp
qed simp

section \<open>The grammar\<close>

definition E_ok :: "byte list \<Rightarrow> byte list cmd \<Rightarrow> bool" where
  "E_ok ln c \<longleftrightarrow> (\<forall>n s rs ts. 4 * (length ln - s) + 2 \<le> n \<longrightarrow> at ln s (paren 3 c (tokens c) @ rtoks rs @ ts) \<longrightarrow> redirs_ok rs \<longrightarrow>
     follow {124, 41, 38, 59} ts \<longrightarrow> yields ln ts (fold wrap rs c) (parseexec n (ln @ [0]) (length ln) s))"

definition P_ok :: "byte list \<Rightarrow> byte list cmd \<Rightarrow> bool" where
  "P_ok ln c \<longleftrightarrow> (\<forall>n s ts. 4 * (length ln - s) + 3 \<le> n \<longrightarrow> at ln s (paren 2 c (tokens c) @ ts) \<longrightarrow>
     follow {41, 38, 59} ts \<longrightarrow> yields ln ts c (parsepipe n (ln @ [0]) (length ln) s))"

definition B_ok :: "byte list \<Rightarrow> byte list cmd \<Rightarrow> bool" where
  "B_ok ln c \<longleftrightarrow> (\<forall>n s j ts. 4 * (length ln - s) + 3 \<le> n \<longrightarrow> at ln s (paren 1 c (tokens c) @ replicate j [38] @ ts) \<longrightarrow>
     follow {41, 59} ts \<longrightarrow> yields ln ts ((Backcmd ^^ j) c)
       (bnd (parsepipe n (ln @ [0]) (length ln) s) (\<lambda>(c, s). back_loop (ln @ [0]) (length ln) c s)))"

definition L_ok :: "byte list \<Rightarrow> byte list cmd \<Rightarrow> bool" where
  "L_ok ln c \<longleftrightarrow> (\<forall>n s ts. 4 * (length ln - s) + 4 \<le> n \<longrightarrow> at ln s (tokens c @ ts) \<longrightarrow>
     follow {41} ts \<longrightarrow> yields ln ts c (parseline n (ln @ [0]) (length ln) s))"

lemma follow_mono: "follow S ts \<Longrightarrow> S \<subseteq> T \<Longrightarrow> follow T ts"
  by (auto simp: follow_def)

lemma E_exec:
  assumes "wf_cmd (Execcmd ws)"
  shows "E_ok ln (Execcmd ws)"
  unfolding E_ok_def
proof (intro allI impI)
  fix n s rs ts
  assume f: "4 * (length ln - s) + 2 \<le> n" and a0: "at ln s (paren 3 (Execcmd ws) (tokens (Execcmd ws)) @ rtoks rs @ ts)"
    and rs: "redirs_ok rs" and ts: "follow {124, 41, 38, 59} ts"
  have a: "at ln s (ws @ rtoks rs @ ts)" using a0 by (simp add: paren_def)
  obtain m where n: "n = Suc m" using f by (cases n) auto
  have h: "ws @ rtoks rs @ ts = [] \<or> hd (hd (ws @ rtoks rs @ ts)) \<noteq> 40"
  proof (cases ws)
    case Nil
    have r: "hd (redir_tok m) \<noteq> 40" for m using redir_of_tok(2)[of m] by auto
    show ?thesis
    proof (cases rs rule: rtoks.cases)
      case 1
      then show ?thesis using Nil follow_hd[OF ts] by (cases "ts = []") auto
    qed (use Nil r in simp)
  next
    case (Cons w us)
    then show ?thesis using assms word_tok(2)[of w] by (auto simp: is_sym_def)
  qed
  have n2: "ts = [] \<or> hd (hd ts) \<notin> {60, 62}" using follow_hd[OF ts] by auto
  have "yields ln ts (fold wrap rs (Execcmd ws)) (bnd (parseredirs (ln @ [0]) (length ln) (Execcmd []) s) (\<lambda>(ret, s). exec_args (ln @ [0]) (length ln) 0 ret s))"
  proof (cases ws)
    case Nil
    have "at ln s (rtoks rs @ ts)" using a Nil by simp
    from yields_redirs[OF n2 rs this, of "Execcmd []"] show ?thesis
      by (rule yields_bnd) (use yields_args_end[OF ts] Nil in auto)
  next
    case (Cons w us)
    have n3: "ws @ rtoks rs @ ts = [] \<or> hd (hd (ws @ rtoks rs @ ts)) \<notin> {60, 62}"
      using Cons assms word_tok(2)[of w] by (auto simp: is_sym_def)
    have "at ln s (rtoks [] @ ws @ rtoks rs @ ts)" using a by simp
    from yields_redirs[OF n3 _ this, of "Execcmd []"] show ?thesis
      by (rule yields_bnd) (use yields_args[OF ts rs, of 0 ws ln _ _ "[]"] Cons assms in \<open>auto simp: MAXARGS_def\<close>)
  qed
  then show "yields ln ts (fold wrap rs (Execcmd ws)) (parseexec n (ln @ [0]) (length ln) s)"
    using h peek_at[OF a, of "''(''"] n by auto
qed

lemma E_okD:
  "E_ok ln c \<Longrightarrow> 4 * (length ln - s) + 2 \<le> n \<Longrightarrow> at ln s (paren 3 c (tokens c) @ rtoks rs @ ts) \<Longrightarrow> redirs_ok rs \<Longrightarrow>
     follow {124, 41, 38, 59} ts \<Longrightarrow> yields ln ts (fold wrap rs c) (parseexec n (ln @ [0]) (length ln) s)"
  by (simp add: E_ok_def)

lemma P_okD: "P_ok ln c \<Longrightarrow> 4 * (length ln - s) + 3 \<le> n \<Longrightarrow> at ln s (paren 2 c (tokens c) @ ts) \<Longrightarrow> follow {41, 38, 59} ts \<Longrightarrow>
    yields ln ts c (parsepipe n (ln @ [0]) (length ln) s)"
  by (simp add: P_ok_def)

lemma B_okD: "B_ok ln c \<Longrightarrow> 4 * (length ln - s) + 3 \<le> n \<Longrightarrow> at ln s (paren 1 c (tokens c) @ replicate j [38] @ ts) \<Longrightarrow> follow {41, 59} ts \<Longrightarrow>
    yields ln ts ((Backcmd ^^ j) c) (bnd (parsepipe n (ln @ [0]) (length ln) s) (\<lambda>(c, s). back_loop (ln @ [0]) (length ln) c s))"
  unfolding B_ok_def by blast

lemma L_okD: "L_ok ln c \<Longrightarrow> 4 * (length ln - s) + 4 \<le> n \<Longrightarrow> at ln s (tokens c @ ts) \<Longrightarrow> follow {41} ts \<Longrightarrow>
    yields ln ts c (parseline n (ln @ [0]) (length ln) s)"
  by (simp add: L_ok_def)

lemma E_redir: "E_ok ln c \<Longrightarrow> wf_cmd (Redircmd c f m fd) \<Longrightarrow> E_ok ln (Redircmd c f m fd)"
  using E_okD[of ln c _ _ "(f, m, fd) # rs" for rs] by (simp add: E_ok_def[of _ "Redircmd c f m fd"] paren_def[of 3 "Redircmd c f m fd"])

lemma L_E: "L_ok ln c \<Longrightarrow> level c < 3 \<Longrightarrow> E_ok ln c"
  unfolding E_ok_def
proof (intro allI impI)
  fix n s rs ts
  assume L: "L_ok ln c" and l: "level c < 3" and f: "4 * (length ln - s) + 2 \<le> n"
    and a0: "at ln s (paren 3 c (tokens c) @ rtoks rs @ ts)" and rs: "redirs_ok rs" and ts: "follow {124, 41, 38, 59} ts"
  have a: "at ln s ([40] # tokens c @ [41] # rtoks rs @ ts)" using a0 l by (simp add: paren_def)
  obtain m where n: "n = Suc (Suc m)" using f by (cases n; cases "n - 1") auto
  have n2: "ts = [] \<or> hd (hd ts) \<notin> {60, 62}" using follow_hd[OF ts] by auto
  have "yields ln ([41] # rtoks rs @ ts) c (parseline m (ln @ [0]) (length ln) (s + 2))"
    using L f at_len[OF a] tok_at(2)[OF a] at_len[OF tok_at(2)[OF a]] unfolding L_ok_def n by (auto simp: follow_def)
  then have "yields ln ts (fold wrap rs c) (bnd (parseline m (ln @ [0]) (length ln) (s + 2)) (\<lambda>(cmd, s).
      bnd (peek (ln @ [0]) (length ln) '')'' s) (\<lambda>(r, s). if \<not> r then Panic ''syntax - missing )'' else
        bnd (gettoken (ln @ [0]) (length ln) s) (\<lambda>(_, _, _, s). parseredirs (ln @ [0]) (length ln) cmd s))))"
  proof (rule yields_bnd)
    fix d s' assume d: "at ln s' ([41] # rtoks rs @ ts)" "sp ln d = c"
    then show "yields ln ts (fold wrap rs c) (case (d, s') of (cmd, s) \<Rightarrow>
      bnd (peek (ln @ [0]) (length ln) '')'' s) (\<lambda>(r, s). if \<not> r then Panic ''syntax - missing )'' else
        bnd (gettoken (ln @ [0]) (length ln) s) (\<lambda>(_, _, _, s). parseredirs (ln @ [0]) (length ln) cmd s)))"
      using peek_at[OF d(1), of "'')''"] tok_at[OF d(1)] yields_redirs[OF n2 rs, of ln "s' + 2" d] by simp
  qed
  then show "yields ln ts (fold wrap rs c) (parseexec n (ln @ [0]) (length ln) s)"
    using peek_at[OF a, of "''(''"] tok_at(1)[OF a] n by simp
qed

lemma E_P: "E_ok ln c \<Longrightarrow> level c \<noteq> 2 \<Longrightarrow> P_ok ln c"
  unfolding P_ok_def
proof (intro allI impI)
  fix n s ts
  assume c: "E_ok ln c" "level c \<noteq> 2" and f: "4 * (length ln - s) + 3 \<le> n" and a0: "at ln s (paren 2 c (tokens c) @ ts)" and ts: "follow {41, 38, 59} ts"
  obtain m where n: "n = Suc m" using f by (cases n) auto
  have a: "at ln s (paren 3 c (tokens c) @ rtoks [] @ ts)" using a0 c(2) by (cases c) (simp_all add: paren_def)
  have "yields ln ts c (parseexec m (ln @ [0]) (length ln) s)"
    using E_okD[OF c(1) _ a, of m] f n follow_mono[OF ts] by simp
  then have "yields ln ts c (bnd (parseexec m (ln @ [0]) (length ln) s) (\<lambda>(cmd, s).
     bnd (peek (ln @ [0]) (length ln) ''|'' s) (\<lambda>(r, s).
     if r then
       bnd (gettoken (ln @ [0]) (length ln) s) (\<lambda>(_, _, _, s).
       bnd (parsepipe m (ln @ [0]) (length ln) s) (\<lambda>(c, s). Ok (Pipecmd cmd c, s)))
     else Ok (cmd, s))))"
  proof (rule yields_bnd, goal_cases)
    case (1 d s)
    then show ?case using peek_at[OF 1(1), of "''|''"] follow_hd[OF ts] by auto
  qed
  then show "yields ln ts c (parsepipe n (ln @ [0]) (length ln) s)" by (simp add: n)
qed

lemma P_pipe: "E_ok ln l \<Longrightarrow> P_ok ln r \<Longrightarrow> P_ok ln (Pipecmd l r)"
  unfolding P_ok_def[of _ "Pipecmd l r"]
proof (intro allI impI)
  fix n s ts
  assume l: "E_ok ln l" and r: "P_ok ln r" and f: "4 * (length ln - s) + 3 \<le> n" and a0: "at ln s (paren 2 (Pipecmd l r) (tokens (Pipecmd l r)) @ ts)" and ts: "follow {41, 38, 59} ts"
  obtain m where n: "n = Suc m" using f by (cases n) auto
  have a: "at ln s (paren 3 l (tokens l) @ rtoks [] @ [124] # paren 2 r (tokens r) @ ts)" using a0 by (simp add: paren_def[of 2 "Pipecmd l r"])
  have "yields ln ([124] # paren 2 r (tokens r) @ ts) l (parseexec m (ln @ [0]) (length ln) s)"
    using E_okD[OF l _ a, of m] f n by (simp add: follow_def)
  then have "yields ln ts (Pipecmd l r) (bnd (parseexec m (ln @ [0]) (length ln) s) (\<lambda>(cmd, s).
     bnd (peek (ln @ [0]) (length ln) ''|'' s) (\<lambda>(r, s).
     if r then
       bnd (gettoken (ln @ [0]) (length ln) s) (\<lambda>(_, _, _, s).
       bnd (parsepipe m (ln @ [0]) (length ln) s) (\<lambda>(c, s). Ok (Pipecmd cmd c, s)))
     else Ok (cmd, s))))"
  proof (rule yields_bnd, goal_cases)
    case (1 d s')
    have "yields ln ts r (parsepipe m (ln @ [0]) (length ln) (s' + 2))"
      using r tok_at(2)[OF 1(1)] ts f n at_len[OF a] at_len[OF tok_at(2)[OF 1(1)]] unfolding P_ok_def by (auto simp: n)
    then show ?case using peek_at[OF 1(1), of "''|''"] tok_at(1)[OF 1(1)] 1(2) by (auto simp: yields_def)
  qed
  then show "yields ln ts (Pipecmd l r) (parsepipe n (ln @ [0]) (length ln) s)" by (simp add: n)
qed

lemma P_B: "P_ok ln c \<Longrightarrow> level c \<noteq> 1 \<Longrightarrow> B_ok ln c"
  unfolding B_ok_def
proof (intro allI impI)
  fix n s j ts
  assume c: "P_ok ln c" "level c \<noteq> 1" and f: "4 * (length ln - s) + 3 \<le> n" and a0: "at ln s (paren 1 c (tokens c) @ replicate j [38] @ ts)"
    and ts: "follow {41, 59} ts"
  have a: "at ln s (paren 2 c (tokens c) @ replicate j [38] @ ts)" using a0 c(2) by (cases c) (simp_all add: paren_def)
  have t: "follow {41, 38, 59} (replicate j [38] @ ts)" using ts by (cases j) (auto simp: follow_def)
  have n: "ts = [] \<or> hd (hd ts) \<noteq> 38" using follow_hd[OF ts] by auto
  have "yields ln (replicate j [38] @ ts) c (parsepipe n (ln @ [0]) (length ln) s)" using c(1) f a t unfolding P_ok_def by blast
  then show "yields ln ts ((Backcmd ^^ j) c) (bnd (parsepipe n (ln @ [0]) (length ln) s) (\<lambda>(c, s). back_loop (ln @ [0]) (length ln) c s))"
    by (rule yields_bnd) (use yields_back[OF n] in auto)
qed

lemma B_back: "B_ok ln c \<Longrightarrow> B_ok ln (Backcmd c)"
  unfolding B_ok_def[of _ "Backcmd c"]
proof (intro allI impI)
  fix n s j ts
  assume c: "B_ok ln c" and h: "4 * (length ln - s) + 3 \<le> n" "at ln s (paren 1 (Backcmd c) (tokens (Backcmd c)) @ replicate j [38] @ ts)" "follow {41, 59} ts"
  have "at ln s (paren 1 c (tokens c) @ replicate (Suc j) [38] @ ts)" using h(2) by (simp add: paren_def[of _ "Backcmd c"])
  then have "yields ln ts ((Backcmd ^^ Suc j) c) (bnd (parsepipe n (ln @ [0]) (length ln) s) (\<lambda>(c, s). back_loop (ln @ [0]) (length ln) c s))"
    using c h(1,3) unfolding B_ok_def by blast
  then show "yields ln ts ((Backcmd ^^ j) (Backcmd c)) (bnd (parsepipe n (ln @ [0]) (length ln) s) (\<lambda>(c, s). back_loop (ln @ [0]) (length ln) c s))"
    by (simp add: funpow_swap1)
qed

definition line_rest :: "nat \<Rightarrow> byte list \<Rightarrow> nat \<Rightarrow> pcmd \<times> nat \<Rightarrow> (pcmd \<times> nat) outcome" where
  "line_rest n b es = (\<lambda>(cmd, s).
     bnd (peek b es '';'' s) (\<lambda>(r, s).
     if r then bnd (gettoken b es s) (\<lambda>(_, _, _, s). bnd (parseline n b es s) (\<lambda>(c, s). Ok (Listcmd cmd c, s)))
     else Ok (cmd, s)))"

lemma parseline_rest:
  "parseline (Suc n) b es s = bnd (bnd (parsepipe n b es s) (\<lambda>(c, s). back_loop b es c s)) (line_rest n b es)"
  by (simp add: bnd_assoc line_rest_def case_prod_unfold)

lemma B_L: "B_ok ln c \<Longrightarrow> level c \<noteq> 0 \<Longrightarrow> L_ok ln c"
  unfolding L_ok_def
proof (intro allI impI)
  fix n s ts
  assume c: "B_ok ln c" "level c \<noteq> 0" and f: "4 * (length ln - s) + 4 \<le> n" and a0: "at ln s (tokens c @ ts)" and ts: "follow {41} ts"
  obtain m where n: "n = Suc m" using f by (cases n) auto
  have a: "at ln s (paren 1 c (tokens c) @ replicate 0 [38] @ ts)" using a0 c(2) by (simp add: paren_def)
  have "yields ln ts ((Backcmd ^^ 0) c) (bnd (parsepipe m (ln @ [0]) (length ln) s) (\<lambda>(c, s). back_loop (ln @ [0]) (length ln) c s))"
    using B_okD[OF c(1) _ a, of m] f n follow_mono[OF ts, of "{41, 59}"] by simp
  then show "yields ln ts c (parseline n (ln @ [0]) (length ln) s)"
    unfolding n parseline_rest
  proof (rule yields_bnd, goal_cases)
    case (1 d s)
    then show ?case using peek_at[OF 1(1), of "'';''"] follow_hd[OF ts] by (auto simp: line_rest_def)
  qed
qed

lemma L_list: "B_ok ln l \<Longrightarrow> L_ok ln r \<Longrightarrow> L_ok ln (Listcmd l r)"
  unfolding L_ok_def[of _ "Listcmd l r"]
proof (intro allI impI)
  fix n s ts
  assume l: "B_ok ln l" and r: "L_ok ln r" and f: "4 * (length ln - s) + 4 \<le> n" and a0: "at ln s (tokens (Listcmd l r) @ ts)" and ts: "follow {41} ts"
  obtain m where n: "n = Suc m" using f by (cases n) auto
  have m: "4 * (length ln - s) + 3 \<le> m" using f n by simp
  have a: "at ln s (paren 1 l (tokens l) @ replicate 0 [38] @ [59] # tokens r @ ts)" using a0 by simp
  have "yields ln ([59] # tokens r @ ts) ((Backcmd ^^ 0) l) (bnd (parsepipe m (ln @ [0]) (length ln) s) (\<lambda>(c, s). back_loop (ln @ [0]) (length ln) c s))"
    using B_okD[OF l m a] by (simp add: follow_def)
  then show "yields ln ts (Listcmd l r) (parseline n (ln @ [0]) (length ln) s)"
    unfolding n parseline_rest
  proof (rule yields_bnd, goal_cases)
    case (1 d s')
    have "yields ln ts r (parseline m (ln @ [0]) (length ln) (s' + 2))"
      using L_okD[OF r _ tok_at(2)[OF 1(1)] ts, of m] m at_len[OF a] at_len[OF tok_at(2)[OF 1(1)]] by simp
    then show ?case using peek_at[OF 1(1), of "'';''"] tok_at(1)[OF 1(1)] 1(2) by (auto simp: yields_def line_rest_def)
  qed
qed

lemma all_ok: "wf_cmd c \<Longrightarrow> E_ok ln c \<and> P_ok ln c \<and> B_ok ln c \<and> L_ok ln c"
proof (induction c)
  case (Execcmd as)
  then have "E_ok ln (Execcmd as)" using E_exec by blast
  then show ?case using E_P P_B B_L by fastforce
next
  case (Redircmd c f m fd)
  then have "E_ok ln (Redircmd c f m fd)" using E_redir by auto
  then show ?case using E_P P_B B_L by fastforce
next
  case (Pipecmd l r)
  then have "P_ok ln (Pipecmd l r)" using P_pipe by auto
  then show ?case using P_B B_L L_E by fastforce
next
  case (Listcmd l r)
  then have "L_ok ln (Listcmd l r)" using L_list by auto
  then show ?case using L_E E_P P_B by fastforce
next
  case (Backcmd c)
  then have "B_ok ln (Backcmd c)" using B_back by auto
  then show ?case using B_L L_E E_P by fastforce
qed

lemma tokens_ok: "wf_cmd c \<Longrightarrow> list_all tok_ok (tokens c)"
proof (induction c)
  case (Execcmd as)
  then show ?case by (auto simp: tok_ok_def list_all_iff)
qed (auto simp: paren_def tok_ok_def redir_tok_def)

lemma render_nz: "list_all tok_ok ts \<Longrightarrow> 0 \<notin> set (render ts)"
  by (induction ts) (auto simp: tok_ok_def is_word_def)

section \<open>Round trip\<close>

text \<open>
  Every command whose words have no special characters, with at most nine words in a simple command, is the parse of a line: its tokens,
  with parentheses only where the precedences require them. In the terminated line the strings of the parsed command are
  those of the command.
\<close>

theorem parsecmd_inverts_rendering:
  assumes "wf_cmd c"
  shows "\<exists>d b. parsecmd (render (tokens c) @ [0]) = Ok (d, b) \<and> map_cmd (c_string b) d = c"
proof -
  let ?ln = "render (tokens c)"
  have z: "0 \<notin> set ?ln" and a: "at ?ln 0 (tokens c @ [])" using tokens_ok[OF assms] render_nz by (auto simp: at_def)
  have "yields ?ln [] c (parseline (4 * length ?ln + 4) (?ln @ [0]) (length ?ln) 0)"
    using L_okD[OF _ _ a] all_ok[OF assms, of ?ln] by (simp add: follow_def)
  then obtain d s where d: "parseline (4 * length ?ln + 4) (?ln @ [0]) (length ?ln) 0 = Ok (d, s)" "at ?ln s []" "sp ?ln d = c"
    by (auto simp: yields_def)
  have "cmd_ok ?ln 9 d" using parsed_all(1)[OF z, of 0 "4 * length ?ln + 4"] d(1) by simp
  moreover have "s = length ?ln" using at_char(1)[OF d(2)] d(2) by (auto simp: at_def)
  ultimately obtain b where b: "parsecmd (?ln @ [0]) = Ok (d, b)" "\<forall>p\<in>set_cmd d. c_string b p = span_of ?ln p"
    using parsecmd_Ok[OF z d(1)] skip_ws_at[OF d(2)] by auto
  then show ?thesis using d(3) cmd.map_cong0[of d "c_string b" "span_of ?ln"] by auto
qed

theorem parsecmd_inverts_rendering_witness:
  "\<exists>d b. parsecmd (render (tokens (Backcmd (Pipecmd (Redircmd (Execcmd [[97], [98]]) [99] O_RDONLY 0) (Listcmd (Execcmd [[100]]) (Execcmd []))))) @ [0]) = Ok (d, b) \<and>
     map_cmd (c_string b) d = Backcmd (Pipecmd (Redircmd (Execcmd [[97], [98]]) [99] O_RDONLY 0) (Listcmd (Execcmd [[100]]) (Execcmd [])))"
  by (rule parsecmd_inverts_rendering) (simp add: is_word_def wordch_def is_ws_def is_sym_def MAXARGS_def redir_ok_def)

end
