(* ===== verification/Exec.thy ===== *)
theory Exec
  imports Proc
begin

text \<open>
  Loading a program: \<open>kernel/exec.c\<close> and \<open>sys_exec\<close> of \<open>kernel/sysfile.c\<close>. The arguments of \<open>exec\<close> are strings with their
  terminators. The property is about the stack that \<open>exec\<close> builds.
\<close>

unbundle bit_operations_syntax

section \<open>Definitions\<close>

definition ELF_MAGIC :: uint where "ELF_MAGIC = 0x464C457F"
definition ELF_PROG_LOAD :: uint where "ELF_PROG_LOAD = 1"
definition MAXARG :: nat where "MAXARG = 32"

record elfhdr =
  e_magic :: uint
  e_entry :: uint64
  e_phoff :: uint64
  e_phnum :: uint16

definition get_elfhdr :: "byte list \<Rightarrow> elfhdr" where
  "get_elfhdr d = \<lparr>e_magic = get32 d 0, e_entry = get64 d 24, e_phoff = get64 d 32, e_phnum = get16 d 56\<rparr>"

record proghdr =
  ph_type :: uint
  ph_off :: uint64
  ph_vaddr :: uint64
  ph_filesz :: uint64
  ph_memsz :: uint64

definition get_proghdr :: "byte list \<Rightarrow> proghdr" where
  "get_proghdr d = \<lparr>ph_type = get32 d 0, ph_off = get64 d 8, ph_vaddr = get64 d 16, ph_filesz = get64 d 32, ph_memsz = get64 d 40\<rparr>"

lemma counter_up: "i < j \<Longrightarrow> 4294967296 - unat (j :: uint) < 4294967296 - unat i"
  using unsigned_less[of j, where ?'a=nat] by (simp add: word_less_nat_alt diff_less_mono2)

text \<open>
  The loop of \<open>loadseg\<close>. The counter \<open>i\<close> would wrap around and the loop start again for a size within a page of the 32-bit range.
\<close>

function loadseg_from :: "kfs \<Rightarrow> uint64 \<Rightarrow> uint64 \<Rightarrow> nat \<Rightarrow> uint \<Rightarrow> uint \<Rightarrow> uint \<Rightarrow> (int \<times> kfs) outcome" where
  "loadseg_from t pt va ip offset sz i =
     (if i < sz then
        bnd (walkaddr (fs_mem t) pt (va + ucast i)) (\<lambda>pa.
        if pa = 0 then Panic ''loadseg: address should exist''
        else
          let n = (if sz - i < 4096 then sz - i else 4096) in
          bnd (readi t ip Kernel_dst (offset + i) n) (\<lambda>(r, xs, t).
          let t = t\<lparr>fs_mem := page_write (fs_mem t) pa 0 xs\<rparr> in
          if r \<noteq> sint n then Ok (-1, t)
          else if i + 4096 \<le> i then Diverge
          else loadseg_from t pt va ip offset sz (i + 4096)))
      else Ok (0, t))"
  by pat_completeness auto
termination
  by (relation "measure (\<lambda>(t, pt, va, ip, offset, sz, i). 2 ^ 32 - unat i)")
    (auto simp: not_le intro: counter_up)

declare loadseg_from.simps [simp del]

definition loadseg :: "kfs \<Rightarrow> uint64 \<Rightarrow> uint64 \<Rightarrow> nat \<Rightarrow> uint \<Rightarrow> uint \<Rightarrow> (int \<times> kfs) outcome" where
  "loadseg t pt va ip offset sz = loadseg_from t pt va ip offset sz 0"

text \<open>The loop over the \<open>n\<close> program headers from file offset \<open>off\<close>: whether it came to the end, and the size of the image.\<close>

fun load_segments :: "uint64 \<Rightarrow> nat \<Rightarrow> uint64 \<Rightarrow> nat \<Rightarrow> uint \<Rightarrow> uint64 \<Rightarrow> kfs \<Rightarrow> (bool \<times> uint64 \<times> kfs) outcome" where
  "load_segments kend ip pt 0 off sz t = Ok (True, sz, t)"
| "load_segments kend ip pt (Suc n) off sz t =
     bnd (readi t ip Kernel_dst off 56) (\<lambda>(r, xs, t).
     if r \<noteq> 56 then Ok (False, sz, t)
     else
       let ph = get_proghdr xs in
       if ph_type ph \<noteq> ELF_PROG_LOAD then load_segments kend ip pt n (off + 56) sz t
       else if ph_memsz ph < ph_filesz ph then Ok (False, sz, t)
       else if ph_vaddr ph + ph_memsz ph < ph_vaddr ph then Ok (False, sz, t)
       else
         bnd (uvmalloc kend (fs_mem t) pt sz (ph_vaddr ph + ph_memsz ph)) (\<lambda>(sz1, m).
         let t = t\<lparr>fs_mem := m\<rparr> in
         if sz1 = 0 then Ok (False, sz, t)
         else if ph_vaddr ph mod PGSIZE \<noteq> 0 then Ok (False, sz1, t)
         else
           bnd (loadseg t pt (ph_vaddr ph) ip (ucast (ph_off ph)) (ucast (ph_filesz ph))) (\<lambda>(r, t).
           if r < 0 then Ok (False, sz1, t)
           else load_segments kend ip pt n (off + 56) sz1 t)))"

text \<open>The loop that pushes the argument strings: \<open>None\<close> when it fails, otherwise the stack pointer and \<open>ustack[0..argc-1]\<close>.\<close>

fun push_args :: "kmem \<Rightarrow> uint64 \<Rightarrow> uint64 \<Rightarrow> uint64 \<Rightarrow> uint64 list \<Rightarrow> byte list list \<Rightarrow> ((uint64 \<times> uint64 list) option \<times> kmem) outcome" where
  "push_args m pt stackbase sp ustack [] = Ok (Some (sp, ustack), m)"
| "push_args m pt stackbase sp ustack (a # argv) =
     (if length ustack \<ge> MAXARG then Ok (None, m)
      else
        bnd (strlen a) (\<lambda>len.
        let sp = sp - (of_int len + 1); sp = sp - sp mod 16 in
        if sp < stackbase then Ok (None, m)
        else
          bnd (copyout m pt sp (take (nat len + 1) a)) (\<lambda>(r, m).
          if r < 0 then Ok (None, m)
          else push_args m pt stackbase sp (ustack @ [sp]) argv)))"

text \<open>All of the stack: the strings and the array of pointers to them.\<close>

definition push_argv :: "kmem \<Rightarrow> uint64 \<Rightarrow> uint64 \<Rightarrow> uint64 \<Rightarrow> byte list list \<Rightarrow> (uint64 option \<times> kmem) outcome" where
  "push_argv m pt stackbase sp argv =
     bnd (push_args m pt stackbase sp [] argv) (\<lambda>(r, m).
     case r of None \<Rightarrow> Ok (None, m)
     | Some (sp, ustack) \<Rightarrow>
         if length ustack \<ge> MAXARG then Fault ''ustack''
         else
           let sp = sp - (of_nat (length ustack) + 1) * 8; sp = sp - sp mod 16 in
           if sp < stackbase then Ok (None, m)
           else
             bnd (copyout m pt sp (concat (map (bytes_of_word 8) (ustack @ [0])))) (\<lambda>(r, m).
             Ok (if r < 0 then None else Some sp, m)))"

text \<open>The name of the program: the path after its last slash.\<close>

fun last_name :: "byte list \<Rightarrow> byte list \<Rightarrow> byte list outcome" where
  "last_name [] nm = Fault ''read outside array''"
| "last_name (c # s) nm = (if c = 0 then Ok nm else last_name s (if c = slash then s else nm))"

definition exec_bad :: "uint64 \<Rightarrow> uint64 \<Rightarrow> uint64 \<Rightarrow> nat option \<Rightarrow> kfile \<Rightarrow> (int \<times> kfile) outcome" where
  "exec_bad kend pt sz ip s =
     bnd (if pt \<noteq> 0 then bnd (proc_freepagetable kend (kf_mem s) pt sz) (\<lambda>m. Ok (with_mem s m)) else Ok s) (\<lambda>s.
     case ip of None \<Rightarrow> Ok (-1, s)
     | Some ip \<Rightarrow> bnd (on_fs s (\<lambda>t. iunlockput t ip)) (\<lambda>s. bnd (on_fs s fs_end_op) (\<lambda>s. Ok (-1, s))))"

text \<open>The part of \<open>exec\<close> after the segments are loaded, and its last part, the change to the new image.\<close>

definition exec_commit :: "uint64 \<Rightarrow> byte list \<Rightarrow> elfhdr \<Rightarrow> uint64 \<Rightarrow> uint64 \<Rightarrow> uint64 \<Rightarrow> nat \<Rightarrow> kfile \<Rightarrow> (int \<times> kfile) outcome" where
  "exec_commit kend path elf pt sz sp argc s =
     (let s = tf_set s tf_a1 sp; oldsz = kf_sz s; oldpt = kf_pt s in
      bnd (last_name path path) (\<lambda>l.
      bnd (safestrcpy (kf_name s) l 16) (\<lambda>nm.
      let s = s\<lparr>kf_name := nm, kf_sz := sz, kf_fs := (kf_fs s)\<lparr>fs_pt := pt\<rparr>\<rparr>;
          s = tf_set (tf_set s tf_epc (e_entry elf)) tf_sp sp
      in
      bnd (proc_freepagetable kend (kf_mem s) oldpt oldsz) (\<lambda>m. Ok (int argc, with_mem s m)))))"

definition exec_stack :: "uint64 \<Rightarrow> byte list \<Rightarrow> byte list list \<Rightarrow> elfhdr \<Rightarrow> uint64 \<Rightarrow> uint64 \<Rightarrow> kfile \<Rightarrow> (int \<times> kfile) outcome" where
  "exec_stack kend path argv elf pt sz s =
     (let sz = PGROUNDUP sz in
      bnd (uvmalloc kend (kf_mem s) pt sz (sz + 2 * PGSIZE)) (\<lambda>(sz1, m).
      let s = with_mem s m in
      if sz1 = 0 then exec_bad kend pt sz None s
      else
        bnd (uvmclear (kf_mem s) pt (sz1 - 2 * PGSIZE)) (\<lambda>m.
        bnd (push_argv m pt (sz1 - PGSIZE) sz1 argv) (\<lambda>(r, m).
        let s = with_mem s m in
        case r of None \<Rightarrow> exec_bad kend pt sz1 None s
        | Some sp \<Rightarrow> exec_commit kend path elf pt sz1 sp (length argv) s))))"

definition exec :: "uint64 \<Rightarrow> uint64 \<Rightarrow> byte list \<Rightarrow> byte list list \<Rightarrow> kfile \<Rightarrow> (int \<times> kfile) outcome" where
  "exec kend trampoline path argv s =
     bnd (on_fs s fs_begin_op) (\<lambda>s.
     bnd (on_fs' s (\<lambda>t. namei t path)) (\<lambda>(r, s).
     case r of None \<Rightarrow> bnd (on_fs s fs_end_op) (\<lambda>s. Ok (-1, s))
     | Some ip \<Rightarrow>
         bnd (on_fs s (\<lambda>t. ilock t ip)) (\<lambda>s.
         bnd (on_fs' s (\<lambda>t. bnd (readi t ip Kernel_dst 0 64) (\<lambda>(r, xs, t). Ok ((r, xs), t)))) (\<lambda>((r, xs), s).
         let elf = get_elfhdr xs in
         if r \<noteq> 64 then exec_bad kend 0 0 (Some ip) s
         else if e_magic elf \<noteq> ELF_MAGIC then exec_bad kend 0 0 (Some ip) s
         else
           bnd (proc_pagetable kend trampoline (kf_mem s) (kf_tf s)) (\<lambda>(pt, m).
           let s = with_mem s m in
           if pt = 0 then exec_bad kend 0 0 (Some ip) s
           else
             bnd (on_fs' s (\<lambda>t. bnd (load_segments kend ip pt (unat (e_phnum elf)) (ucast (e_phoff elf)) 0 t) (\<lambda>(ok, sz, t). Ok ((ok, sz), t)))) (\<lambda>((ok, sz), s).
             if \<not> ok then exec_bad kend pt sz (Some ip) s
             else
               bnd (on_fs s (\<lambda>t. iunlockput t ip)) (\<lambda>s.
               bnd (on_fs s fs_end_op) (\<lambda>s.
               exec_stack kend path argv elf pt sz s))))))))"

text \<open>
  The loop of \<open>sys_exec\<close> over the user's \<open>argv\<close>, with \<open>n\<close> entries of the local array left: whether it met the final null pointer, the strings, and the pages that hold them.
\<close>

fun fetch_args :: "uint64 \<Rightarrow> nat \<Rightarrow> nat \<Rightarrow> kfile \<Rightarrow> (bool \<times> byte list list \<times> uint64 list \<times> kfile) outcome" where
  "fetch_args uargv i 0 s = Ok (False, [], [], s)"
| "fetch_args uargv i (Suc n) s =
     bnd (fetchaddr s (uargv + 8 * of_nat i)) (\<lambda>r.
     case r of None \<Rightarrow> Ok (False, [], [], s)
     | Some uarg \<Rightarrow>
         if uarg = 0 then Ok (True, [], [], s)
         else case kalloc (kf_mem s) of (pg, m) \<Rightarrow>
           if pg = 0 then Ok (False, [], [], s)
           else
             let s = with_mem s m in
             bnd (fetchstr s uarg 4096) (\<lambda>r.
             case r of None \<Rightarrow> Ok (False, [], [pg], s)
             | Some a \<Rightarrow>
                 bnd (fetch_args uargv (Suc i) n (with_mem s (page_write (kf_mem s) pg 0 a))) (\<lambda>(ok, argv, pgs, s).
                 Ok (ok, a # argv, pg # pgs, s))))"

fun free_args :: "uint64 \<Rightarrow> uint64 list \<Rightarrow> kfile \<Rightarrow> kfile outcome" where
  "free_args kend [] s = Ok s"
| "free_args kend (pg # pgs) s = bnd (kfree kend pg (kf_mem s)) (\<lambda>m. free_args kend pgs (with_mem s m))"

definition sys_exec :: "uint64 \<Rightarrow> uint64 \<Rightarrow> kfile \<Rightarrow> (int \<times> kfile) outcome" where
  "sys_exec kend trampoline s =
     bnd (argstr s 0 MAXPATH) (\<lambda>path.
     case path of None \<Rightarrow> Ok (-1, s)
     | Some path \<Rightarrow>
         bnd (argaddr s 1) (\<lambda>uargv.
         bnd (fetch_args uargv 0 MAXARG s) (\<lambda>(ok, argv, pgs, s).
         if \<not> ok then bnd (free_args kend pgs s) (\<lambda>s. Ok (-1, s))
         else
           bnd (exec kend trampoline path argv s) (\<lambda>(ret, s).
           bnd (free_args kend pgs s) (\<lambda>s. Ok (ret, s))))))"

section \<open>The stack of the new program\<close>

text \<open>The bytes \<open>xs\<close> stand at user address \<open>a\<close>.\<close>

definition holds :: "kmem \<Rightarrow> uint64 \<Rightarrow> uint64 \<Rightarrow> byte list \<Rightarrow> bool" where
  "holds m pt a xs \<longleftrightarrow> ubytes m pt a (length xs) = Some xs"

lemma holds_iff: "holds m pt a xs \<longleftrightarrow> (\<forall>k<length xs. ubyte m pt (a + of_nat k) = Some (xs ! k))"
  by (simp only: holds_def ubytes_def those_eq_Some map_upt_eq)

lemma copied_holds: "copied m m' pt a xs \<Longrightarrow> length xs < 2 ^ 64 \<Longrightarrow> holds m' pt a xs"
  by (auto simp: holds_iff copied_def unat_of_nat_small)

lemma holds_above:
  assumes "holds m pt a xs" "copied m m' pt b ys" "unat b + length ys \<le> unat a" "unat a + length xs \<le> 2 ^ 64"
  shows "holds m' pt a xs"
  unfolding holds_iff
proof (intro allI impI)
  fix k assume k: "k < length xs"
  have "unat (a + of_nat k) = unat a + k" using k assms(4) by (simp add: unat_word_ariths(1) unat_of_nat_small)
  moreover have "b \<le> a + of_nat k" using calculation assms(3) by (simp add: word_le_nat_alt)
  ultimately have "unat (a + of_nat k - b) = unat a + k - unat b" by (simp add: unat_sub)
  then have "\<not> unat (a + of_nat k - b) < length ys" using assms(3) by simp
  then show "ubyte m' pt (a + of_nat k) = Some (xs ! k)" using assms(1,2) k by (simp add: holds_iff copied_def)
qed

lemma strlen_cstr: "0 \<in> set a \<Longrightarrow> strlen a = Ok (int (length (cstr a)))"
  by (simp add: strlen_def strlen_loop_spec)

lemma take_cstr: "0 \<in> set a \<Longrightarrow> take (length (cstr a) + 1) a = cstr a @ [0]"
  by (induction a) (auto simp: cstr_def)

lemma cstr_shorter: "0 \<in> set a \<Longrightarrow> length (cstr a) < length a"
  by (induction a) (auto simp: cstr_def)

text \<open>Moving the stack pointer down by \<open>n\<close> bytes and to a multiple of 16.\<close>

definition sp_down :: "uint64 \<Rightarrow> uint64 \<Rightarrow> uint64" where
  "sp_down sp n = (sp - n) - (sp - n) mod 16"

lemma sp_down_bounds:
  assumes "unat n \<le> unat sp"
  shows "unat (sp_down sp n) + unat n \<le> unat sp" "unat sp < unat (sp_down sp n) + unat n + 16" "sp_down sp n mod 16 = 0"
proof -
  have d: "unat (sp - n) = unat sp - unat n" using assms by (simp add: unat_sub word_le_nat_alt)
  have m: "unat ((sp - n) mod 16) = unat (sp - n) mod 16" by (simp add: unat_mod)
  have "(sp - n) mod 16 \<le> sp - n" by (simp add: word_le_nat_alt m)
  then have u: "unat (sp_down sp n) = unat (sp - n) - unat (sp - n) mod 16" by (simp add: sp_down_def unat_sub m)
  show "unat (sp_down sp n) + unat n \<le> unat sp" using u d assms by linarith
  show "unat sp < unat (sp_down sp n) + unat n + 16" using u d assms mod_less_divisor[of 16 "unat (sp - n)"] by linarith
  show "sp_down sp n mod 16 = 0" by (simp add: word_unat_eq_iff unat_mod u)
qed

definition arg_at :: "kmem \<Rightarrow> uint64 \<Rightarrow> uint64 \<Rightarrow> uint64 \<Rightarrow> uint64 \<Rightarrow> byte list \<Rightarrow> bool" where
  "arg_at m pt lo hi p a \<longleftrightarrow> holds m pt p (cstr a @ [0]) \<and> lo \<le> p \<and> unat p + length (cstr a) + 1 \<le> unat hi"

lemma push_args_ok:
  assumes "user_space m pt" "sb \<le> sp" "\<forall>a\<in>set argv. 0 \<in> set a \<and> length a \<le> unat sb"
  shows "\<exists>r m'. push_args m pt sb sp us argv = Ok (r, m') \<and> user_space m' pt \<and>
    (\<forall>sp' us'. r = Some (sp', us') \<longrightarrow> sb \<le> sp' \<and> sp' \<le> sp \<and>
      (\<exists>ps. us' = us @ ps \<and> list_all2 (arg_at m' pt sp' sp) ps argv) \<and>
      (\<forall>a xs. holds m pt a xs \<and> sp \<le> a \<and> unat a + length xs \<le> 2 ^ 64 \<longrightarrow> holds m' pt a xs))"
  using assms
proof (induction argv arbitrary: m sp us)
  case Nil
  then show ?case by simp
next
  case (Cons a argv)
  let ?n = "length (cstr a) + 1" and ?sp = "sp_down sp (of_nat (length (cstr a) + 1))"
  have a: "0 \<in> set a" "length a \<le> unat sb" using Cons.prems(3) by simp_all
  have n: "unat (of_nat ?n :: uint64) = ?n" "?n \<le> unat sp"
  proof -
    have "?n \<le> unat sb" using cstr_shorter[OF a(1)] a(2) by simp
    then show "?n \<le> unat sp" using Cons.prems(2) by (simp add: word_le_nat_alt)
    then show "unat (of_nat ?n :: uint64) = ?n" using unsigned_less[of sp, where ?'a=nat] by (intro unat_of_nat_small) simp
  qed
  note dn = sp_down_bounds[of "of_nat ?n" sp, unfolded n(1), OF n(2)]
  have sp: "sp - (of_int (int (length (cstr a))) + 1) - (sp - (of_int (int (length (cstr a))) + 1)) mod 16 = ?sp"
    by (simp add: sp_down_def add.commute)
  show ?case
  proof (cases "length us \<ge> MAXARG \<or> ?sp < sb")
    case True
    then have "push_args m pt sb sp us (a # argv) = Ok (None, m)" using strlen_cstr[OF a(1)] sp by (simp add: Let_def) blast
    then show ?thesis using Cons.prems(1) by simp
  next
    case False
    have len: "length (cstr a @ [0]) < 2 ^ 64" using n(2) unsigned_less[of sp, where ?'a=nat] by simp
    obtain r m1 where r: "copyout m pt ?sp (cstr a @ [0]) = Ok (r, m1)" "user_space m1 pt"
        "r < 0 \<or> copied m m1 pt ?sp (cstr a @ [0])"
      using copyout_ubytes[OF Cons.prems(1) len, of ?sp] by (auto split: if_splits)
    have body: "push_args m pt sb sp us (a # argv) = (if r < 0 then Ok (None, m1) else push_args m1 pt sb ?sp (us @ [?sp]) argv)"
      using False strlen_cstr[OF a(1)] sp r(1) take_cstr[OF a(1)] by (simp add: Let_def)
    show ?thesis
    proof (cases "r < 0")
      case True
      then show ?thesis using body r(2) by simp
    next
      case r0: False
      then have c: "copied m m1 pt ?sp (cstr a @ [0])" using r(3) by simp
      have sb: "sb \<le> ?sp" using False by (metis linorder_not_less)
      obtain r' m' where ih: "push_args m1 pt sb ?sp (us @ [?sp]) argv = Ok (r', m')" "user_space m' pt"
          "\<forall>sp' us'. r' = Some (sp', us') \<longrightarrow> sb \<le> sp' \<and> sp' \<le> ?sp \<and>
            (\<exists>ps. us' = (us @ [?sp]) @ ps \<and> list_all2 (arg_at m' pt sp' ?sp) ps argv) \<and>
            (\<forall>a xs. holds m1 pt a xs \<and> ?sp \<le> a \<and> unat a + length xs \<le> 2 ^ 64 \<longrightarrow> holds m' pt a xs)"
        using Cons.IH[OF r(2) sb, of "us @ [?sp]"] Cons.prems(3) by auto
      have "sb \<le> sp' \<and> sp' \<le> sp \<and> (\<exists>ps. us' = us @ ps \<and> list_all2 (arg_at m' pt sp' sp) ps (a # argv)) \<and>
          (\<forall>a xs. holds m pt a xs \<and> sp \<le> a \<and> unat a + length xs \<le> 2 ^ 64 \<longrightarrow> holds m' pt a xs)"
        if R: "r' = Some (sp', us')" for sp' us'
      proof -
        obtain ps where ps: "us' = us @ ?sp # ps" "list_all2 (arg_at m' pt sp' ?sp) ps argv" "sb \<le> sp'" "sp' \<le> ?sp"
          and keep: "\<And>a xs. holds m1 pt a xs \<Longrightarrow> ?sp \<le> a \<Longrightarrow> unat a + length xs \<le> 2 ^ 64 \<Longrightarrow> holds m' pt a xs"
          using ih(3) R by auto
        have low: "?sp \<le> sp" using dn(1) by (simp add: word_le_nat_alt)
        have top: "unat sp < 2 ^ 64" using unsigned_less[of sp, where ?'a=nat] by simp
        have "holds m' pt ?sp (cstr a @ [0])" using keep[OF copied_holds[OF c len]] dn(1) top by simp
        then have h: "arg_at m' pt sp' sp ?sp a" using ps(4) dn(1) by (simp add: arg_at_def)
        have "list_all2 (arg_at m' pt sp' sp) ps argv"
          using ps(2) by (rule list_all2_mono) (use low in \<open>auto simp: arg_at_def word_le_nat_alt\<close>)
        moreover have "holds m' pt b xs" if "holds m pt b xs" "sp \<le> b" "unat b + length xs \<le> 2 ^ 64" for b xs
        proof -
          have "unat ?sp + length (cstr a @ [0]) \<le> unat b" using dn(1) that(2) by (simp add: word_le_nat_alt)
          then have "holds m1 pt b xs" using holds_above[OF that(1) c] that(3) by blast
          then show ?thesis using keep that(2,3) low by auto
        qed
        ultimately show ?thesis using h ps(1,3,4) low by auto
      qed
      then show ?thesis using body r0 ih(1,2) by auto
    qed
  qed
qed



end
