(* ===== verification/Uart.thy ===== *)
theory Uart
  imports Byte_Queue
begin

text \<open>
  The UART driver, \<open>kernel/uart.c\<close>. The device is a parameter: \<open>lsr n\<close> and \<open>rhr n\<close> are what the \<open>n\<close>-th read of the line status and of the
  receive register returns. The state counts the reads, records the writes to the device registers and counts the
  calls of \<open>wakeup(&uart_tx_r)\<close>.
  A loop that waits for the device may run for ever.
\<close>

unbundle bit_operations_syntax

section \<open>Definitions\<close>

definition UART_TX_BUF_SIZE :: nat where "UART_TX_BUF_SIZE = 32"

definition THR :: nat where "THR = 0"
definition IER :: nat where "IER = 1"
definition IER_RX_ENABLE :: byte where "IER_RX_ENABLE = 1"
definition IER_TX_ENABLE :: byte where "IER_TX_ENABLE = 2"
definition FCR :: nat where "FCR = 2"
definition FCR_FIFO_ENABLE :: byte where "FCR_FIFO_ENABLE = 1"
definition FCR_FIFO_CLEAR :: byte where "FCR_FIFO_CLEAR = 6"
definition LCR :: nat where "LCR = 3"
definition LCR_EIGHT_BITS :: byte where "LCR_EIGHT_BITS = 3"
definition LCR_BAUD_LATCH :: byte where "LCR_BAUD_LATCH = 0x80"
definition LSR_RX_READY :: byte where "LSR_RX_READY = 1"
definition LSR_TX_IDLE :: byte where "LSR_TX_IDLE = 0x20"

record uart =
  u_buf :: "byte list"
  u_w :: uint64
  u_r :: uint64
  u_lsr_reads :: nat
  u_rhr_reads :: nat
  u_writes :: "(nat \<times> byte) list"
  u_wakeups :: nat

type_synonym devreg = "nat \<Rightarrow> byte"

definition WriteReg :: "nat \<Rightarrow> byte \<Rightarrow> uart \<Rightarrow> uart" where
  "WriteReg reg v s = s\<lparr>u_writes := u_writes s @ [(reg, v)]\<rparr>"

definition ReadLSR :: "devreg \<Rightarrow> uart \<Rightarrow> byte \<times> uart" where
  "ReadLSR lsr s = (lsr (u_lsr_reads s), s\<lparr>u_lsr_reads := u_lsr_reads s + 1\<rparr>)"

definition ReadRHR :: "devreg \<Rightarrow> uart \<Rightarrow> byte \<times> uart" where
  "ReadRHR rhr s = (rhr (u_rhr_reads s), s\<lparr>u_rhr_reads := u_rhr_reads s + 1\<rparr>)"

definition uartinit :: "uart \<Rightarrow> uart" where
  "uartinit s =
     (let s = WriteReg IER 0 s; s = WriteReg LCR LCR_BAUD_LATCH s; s = WriteReg 0 3 s; s = WriteReg 1 0 s;
          s = WriteReg LCR LCR_EIGHT_BITS s; s = WriteReg FCR (FCR_FIFO_ENABLE OR FCR_FIFO_CLEAR) s
      in WriteReg IER (IER_TX_ENABLE OR IER_RX_ENABLE) s)"

text \<open>The characters the device has been given to send.\<close>

definition sent :: "uart \<Rightarrow> byte list" where
  "sent s = map snd (filter (\<lambda>(r, v). r = THR) (u_writes s))"

text \<open>The queue operations of \<open>uartputc\<close> and \<open>uartstart\<close>.\<close>

definition uart_put :: "byte \<Rightarrow> uart \<Rightarrow> uart" where
  "uart_put c s = s\<lparr>u_buf := (u_buf s)[unat (u_w s) mod UART_TX_BUF_SIZE := c], u_w := u_w s + 1\<rparr>"

definition uart_get :: "uart \<Rightarrow> byte \<times> uart" where
  "uart_get s = (u_buf s ! (unat (u_r s) mod UART_TX_BUF_SIZE), s\<lparr>u_r := u_r s + 1\<rparr>)"

text \<open>Each round of \<open>uartstart\<close> takes a character off the buffer.\<close>

function uartstart :: "devreg \<Rightarrow> uart \<Rightarrow> uart" where
  "uartstart lsr s =
     (if u_w s = u_r s then s
      else case ReadLSR lsr s of (v, s) \<Rightarrow>
        if v AND LSR_TX_IDLE = 0 then s
        else case uart_get s of (c, s) \<Rightarrow> uartstart lsr (WriteReg THR c (s\<lparr>u_wakeups := u_wakeups s + 1\<rparr>)))"
  by pat_completeness auto
termination
proof (relation "measure (\<lambda>(lsr, s). unat (u_w s - u_r s))")
  fix lsr :: devreg and s v t c u
  assume a: "u_w s \<noteq> u_r s" "(v, t) = ReadLSR lsr s" "(c, u) = uart_get t"
  let ?n = "u_wakeups u + 1"
  have "u_w (WriteReg THR c (u\<lparr>u_wakeups := ?n\<rparr>)) - u_r (WriteReg THR c (u\<lparr>u_wakeups := ?n\<rparr>)) = u_w s - u_r s - 1"
    using a(2,3) by (simp add: ReadLSR_def uart_get_def WriteReg_def algebra_simps)
  moreover have "unat (u_w s - u_r s - 1) < unat (u_w s - u_r s)" using a(1) by (simp add: unat_minus_one unat_gt_0)
  ultimately show "((lsr, WriteReg THR c (u\<lparr>u_wakeups := ?n\<rparr>)), (lsr, s)) \<in> measure (\<lambda>(lsr, s). unat (u_w s - u_r s))" by simp
qed simp

declare uartstart.simps [simp del]

definition uartputc :: "bool \<Rightarrow> devreg \<Rightarrow> byte \<Rightarrow> uart \<Rightarrow> uart outcome" where
  "uartputc panicked lsr c s =
     (if panicked then Diverge
      else if u_w s = u_r s + of_nat UART_TX_BUF_SIZE then Sleep Chan_uart
      else Ok (uartstart lsr (uart_put c s)))"

text \<open>Waiting for the transmit register to be empty.\<close>

partial_function (option) wait_idle :: "devreg \<Rightarrow> uart \<Rightarrow> uart option" where
  "wait_idle lsr s = (case ReadLSR lsr s of (v, s) \<Rightarrow> if v AND LSR_TX_IDLE = 0 then wait_idle lsr s else Some s)"

definition uartputc_sync :: "bool \<Rightarrow> devreg \<Rightarrow> byte \<Rightarrow> uart \<Rightarrow> uart outcome" where
  "uartputc_sync panicked lsr c s =
     (if panicked then Diverge
      else case wait_idle lsr s of None \<Rightarrow> Diverge | Some s \<Rightarrow> Ok (WriteReg THR c s))"

definition uartgetc :: "devreg \<Rightarrow> devreg \<Rightarrow> uart \<Rightarrow> int \<times> uart" where
  "uartgetc lsr rhr s =
     (case ReadLSR lsr s of (v, s) \<Rightarrow>
      if v AND 1 \<noteq> 0 then case ReadRHR rhr s of (c, s) \<Rightarrow> (uint c, s) else (-1, s))"

section \<open>The transmit buffer as a queue\<close>

definition uart_ok :: "uart \<Rightarrow> bool" where
  "uart_ok s \<longleftrightarrow> length (u_buf s) = UART_TX_BUF_SIZE \<and> unat (u_w s - u_r s) \<le> UART_TX_BUF_SIZE"

definition uart_list :: "uart \<Rightarrow> byte list" where
  "uart_list s = ring UART_TX_BUF_SIZE (u_buf s) (u_r s) (u_w s)"

lemma tx_size: "UART_TX_BUF_SIZE dvd 2 ^ LENGTH(64)" "UART_TX_BUF_SIZE < 2 ^ LENGTH(64)"
  by (simp_all add: UART_TX_BUF_SIZE_def)

lemma uart_put_ok:
  assumes "uart_ok s" "length (uart_list s) < UART_TX_BUF_SIZE"
  shows "uart_ok (uart_put c s) \<and> uart_list (uart_put c s) = uart_list s @ [c]"
proof -
  have l: "uart_list (uart_put c s) = uart_list s @ [c]"
    using ring_put[OF tx_size(1) _ tx_size(2), of "u_w s" "u_r s" "u_buf s" c] assms
    by (simp add: uart_list_def uart_put_def uart_ok_def)
  then have "length (uart_list (uart_put c s)) = length (uart_list s) + 1" by simp
  then show ?thesis using l assms by (simp add: uart_ok_def uart_list_def) (simp add: uart_put_def)
qed

lemma uart_get_ok:
  assumes "uart_ok s" "uart_list s \<noteq> []"
  shows "fst (uart_get s) = hd (uart_list s) \<and> uart_ok (snd (uart_get s)) \<and> uart_list (snd (uart_get s)) = tl (uart_list s)"
proof -
  have "u_w s \<noteq> u_r s" using assms(2) by (auto simp: uart_list_def)
  then have r: "uart_list s = fst (uart_get s) # uart_list (snd (uart_get s))"
    using ring_get[of "u_w s" "u_r s" UART_TX_BUF_SIZE "u_buf s"] by (simp add: uart_list_def uart_get_def)
  then have "length (uart_list s) = length (uart_list (snd (uart_get s))) + 1" by simp
  then have "uart_ok (snd (uart_get s))" using assms(1) by (simp add: uart_ok_def uart_list_def) (simp add: uart_get_def)
  then show ?thesis using r by simp
qed

interpretation uq: byte_queue uart_ok uart_list UART_TX_BUF_SIZE uart_put uart_get
  by unfold_locales (simp_all add: uart_put_ok uart_get_ok, simp add: uart_ok_def uart_list_def)

lemma uart_empty: "u_w s = u_r s \<longleftrightarrow> uart_list s = []"
  by (auto simp: uart_list_def ring_def unat_eq_zero)

lemma uart_full: "u_w s = u_r s + of_nat UART_TX_BUF_SIZE \<longleftrightarrow> length (uart_list s) = UART_TX_BUF_SIZE"
proof -
  have "u_w s = u_r s + of_nat UART_TX_BUF_SIZE \<longleftrightarrow> u_w s - u_r s = of_nat UART_TX_BUF_SIZE" by (auto simp: algebra_simps)
  also have "\<dots> \<longleftrightarrow> unat (u_w s - u_r s) = UART_TX_BUF_SIZE" by (auto simp: UART_TX_BUF_SIZE_def word_unat_eq_iff)
  finally show ?thesis by (simp add: uart_list_def)
qed

lemma ReadLSR_list: "ReadLSR lsr s = (v, t) \<Longrightarrow> uart_list t = uart_list s \<and> uart_ok t = uart_ok s \<and> sent t = sent s"
  by (auto simp: ReadLSR_def uart_list_def uart_ok_def sent_def)

lemma WriteTHR_list: "uart_list (WriteReg THR c s) = uart_list s \<and> uart_ok (WriteReg THR c s) = uart_ok s \<and> sent (WriteReg THR c s) = sent s @ [c]"
  by (auto simp: WriteReg_def uart_list_def uart_ok_def sent_def)

lemma woken_list [simp]: "uart_list (s\<lparr>u_wakeups := n\<rparr>) = uart_list s" "uart_ok (s\<lparr>u_wakeups := n\<rparr>) = uart_ok s" "sent (s\<lparr>u_wakeups := n\<rparr>) = sent s"
  by (simp_all add: uart_list_def uart_ok_def sent_def)

text \<open>\<open>uartstart\<close> moves characters from the front of the buffer to the device.\<close>

lemma uartstart_moves:
  "uart_ok s \<Longrightarrow> uart_ok (uartstart lsr s) \<and> sent (uartstart lsr s) @ uart_list (uartstart lsr s) = sent s @ uart_list s \<and>
     length (uart_list (uartstart lsr s)) \<le> length (uart_list s)"
proof (induction lsr s rule: uartstart.induct)
  case (1 lsr s)
  obtain v t where v: "ReadLSR lsr s = (v, t)" by (cases "ReadLSR lsr s")
  note t = ReadLSR_list[OF v]
  show ?case
  proof (cases "u_w s = u_r s \<or> v AND LSR_TX_IDLE = 0")
    case True
    then show ?thesis using v t 1(2) by (auto simp: uartstart.simps[of lsr s])
  next
    case False
    obtain c u where c: "uart_get t = (c, u)" by (cases "uart_get t")
    have "uart_list t \<noteq> []" using False t by (simp add: uart_empty)
    then have u: "uart_list t = c # uart_list u" "uart_ok u" "sent u = sent t"
      using uart_get_ok[of t] c t 1(2) by (auto simp: neq_Nil_conv) (auto simp: uart_get_def sent_def)
    have "uartstart lsr s = uartstart lsr (WriteReg THR c (u\<lparr>u_wakeups := u_wakeups u + 1\<rparr>))" using False v c by (subst uartstart.simps) simp
    then show ?thesis using 1(1)[OF _ v[symmetric] _ c[symmetric]] False u t WriteTHR_list[of c "u\<lparr>u_wakeups := u_wakeups u + 1\<rparr>"] by auto
  qed
qed



text \<open>A device that becomes idle lets \<open>uartputc_sync\<close> return.\<close>

lemma wait_idle_returns:
  assumes "lsr n AND LSR_TX_IDLE \<noteq> 0" "u_lsr_reads s \<le> n"
  shows "\<exists>t k. wait_idle lsr s = Some t \<and> t = s\<lparr>u_lsr_reads := k\<rparr>"
  using assms(2)
proof (induction "n - u_lsr_reads s" arbitrary: s)
  case 0
  then have "u_lsr_reads s = n" by simp
  then show ?case using assms(1) by (subst wait_idle.simps) (auto simp: ReadLSR_def intro!: exI[of _ "Suc n"])
next
  case (Suc d)
  let ?t = "s\<lparr>u_lsr_reads := u_lsr_reads s + 1\<rparr>"
  have "\<exists>t k. wait_idle lsr ?t = Some t \<and> t = ?t\<lparr>u_lsr_reads := k\<rparr>" using Suc by (intro Suc.hyps) simp_all
  then show ?case by (subst wait_idle.simps) (auto simp: ReadLSR_def intro!: exI[of _ "Suc (u_lsr_reads s)"])
qed

end
