(* ===== verification/Console.thy ===== *)
theory Console
  imports Uart Printf Proc
begin

text \<open>
  The console, \<open>kernel/console.c\<close>, and the interrupt handler \<open>uartintr\<close> of \<open>kernel/uart.c\<close>. Input is edited in the
  part \<open>w..e\<close> of a circular buffer and delivered to readers from the part \<open>r..w\<close>. The last section shows that this
  implements a list editor: typed characters, backspace and kill act on the current line, and a reader gets whole lines.
\<close>

section \<open>Definitions\<close>

definition INPUT_BUF :: nat where "INPUT_BUF = 128"
definition BACKSPACE :: int where "BACKSPACE = 0x100"
definition Ctrl :: "char \<Rightarrow> int" where "Ctrl x = of_char x - of_char CHR ''@''"
definition CONSOLE :: nat where "CONSOLE = 1"

record console =
  cn_buf :: "byte list"
  cn_r :: uint
  cn_w :: uint
  cn_e :: uint
  cn_wakeups :: nat

record tty =
  tt_cons :: console
  tt_uart :: uart

text \<open>Output to the device, by \<open>printf\<close> and to echo input.\<close>

definition consputc :: "bool \<Rightarrow> devreg \<Rightarrow> int \<Rightarrow> tty \<Rightarrow> tty outcome" where
  "consputc panicked lsr c t =
     (let put = uartputc_sync panicked lsr in
      if c = BACKSPACE then
        bnd (put 8 (tt_uart t)) (\<lambda>u. bnd (put 32 u) (\<lambda>u. bnd (put 8 u) (\<lambda>u. Ok (t\<lparr>tt_uart := u\<rparr>))))
      else bnd (put (of_int c) (tt_uart t)) (\<lambda>u. Ok (t\<lparr>tt_uart := u\<rparr>)))"

primrec consputs :: "bool \<Rightarrow> devreg \<Rightarrow> byte list \<Rightarrow> tty \<Rightarrow> tty outcome" where
  "consputs panicked lsr [] t = Ok t"
| "consputs panicked lsr (c # cs) t = bnd (consputc panicked lsr (uint c) t) (consputs panicked lsr cs)"

text \<open>What \<open>procdump\<close> prints.\<close>

primrec dump_lines :: "(int \<times> string \<times> byte list) list \<Rightarrow> byte list outcome" where
  "dump_lines [] = Ok []"
| "dump_lines (x # xs) =
     (case x of (pid, state, name) \<Rightarrow>
      bnd (printf (Some (ascii ''%d %s %s'')) [VInt (of_int pid), VStr (Some (ascii state)), VStr (Some name)]) (\<lambda>a.
      bnd (printf (Some [10]) []) (\<lambda>b. bnd (dump_lines xs) (\<lambda>c. Ok (a @ b @ c)))))"

definition procdump_text :: "kern \<Rightarrow> byte list outcome" where
  "procdump_text k = bnd (printf (Some [10]) []) (\<lambda>a. bnd (dump_lines (procdump k)) (\<lambda>b. Ok (a @ b)))"

function kill_line :: "bool \<Rightarrow> devreg \<Rightarrow> tty \<Rightarrow> tty outcome" where
  "kill_line panicked lsr t =
     (let c = tt_cons t in
      if cn_e c \<noteq> cn_w c \<and> cn_buf c ! (unat (cn_e c - 1) mod INPUT_BUF) \<noteq> 10
      then bnd (consputc panicked lsr BACKSPACE (t\<lparr>tt_cons := c\<lparr>cn_e := cn_e c - 1\<rparr>\<rparr>)) (kill_line panicked lsr)
      else Ok t)"
  by pat_completeness auto
termination
proof (relation "measure (\<lambda>(p, lsr, t). unat (cn_e (tt_cons t) - cn_w (tt_cons t)))")
  fix panicked lsr t c t'
  assume a: "c = tt_cons t" "cn_e c \<noteq> cn_w c \<and> cn_buf c ! (unat (cn_e c - 1) mod INPUT_BUF) \<noteq> 10"
    "consputc panicked lsr BACKSPACE (t\<lparr>tt_cons := c\<lparr>cn_e := cn_e c - 1\<rparr>\<rparr>) = Ok t'"
  then have "tt_cons t' = c\<lparr>cn_e := cn_e c - 1\<rparr>" by (auto simp: consputc_def Let_def)
  moreover have "unat (cn_e c - 1 - cn_w c) < unat (cn_e c - cn_w c)"
    using a(2) unat_minus_one[of "cn_e c - cn_w c"] unat_gt_0[of "cn_e c - cn_w c"] by (simp add: algebra_simps)
  ultimately show "((panicked, lsr, t'), panicked, lsr, t) \<in> measure (\<lambda>(p, lsr, t). unat (cn_e (tt_cons t) - cn_w (tt_cons t)))"
    using a(1) by simp
qed simp

declare kill_line.simps [simp del]

definition consoleintr :: "bool \<Rightarrow> devreg \<Rightarrow> kern \<Rightarrow> int \<Rightarrow> tty \<Rightarrow> tty outcome" where
  "consoleintr panicked lsr k c t =
     (let b = tt_cons t in
      if c = Ctrl CHR ''P'' then bnd (procdump_text k) (\<lambda>cs. consputs panicked lsr cs t)
      else if c = Ctrl CHR ''U'' then kill_line panicked lsr t
      else if c = Ctrl CHR ''H'' \<or> c = 0x7f then
        if cn_e b \<noteq> cn_w b then consputc panicked lsr BACKSPACE (t\<lparr>tt_cons := b\<lparr>cn_e := cn_e b - 1\<rparr>\<rparr>) else Ok t
      else if c \<noteq> 0 \<and> cn_e b - cn_r b < of_nat INPUT_BUF then
        let c = (if c = 13 then 10 else c) in
        bnd (consputc panicked lsr c t) (\<lambda>t.
        let b = tt_cons t;
            b = b\<lparr>cn_buf := (cn_buf b)[unat (cn_e b) mod INPUT_BUF := of_int c], cn_e := cn_e b + 1\<rparr>
        in if c = 10 \<or> c = Ctrl CHR ''D'' \<or> cn_e b = cn_r b + of_nat INPUT_BUF
           then Ok (t\<lparr>tt_cons := b\<lparr>cn_w := cn_e b, cn_wakeups := cn_wakeups b + 1\<rparr>\<rparr>)
           else Ok (t\<lparr>tt_cons := b\<rparr>))
      else Ok t)"

text \<open>
  The loop of \<open>consoleread\<close> with \<open>n\<close> bytes to go. A reader that sleeps resumes here with the \<open>n\<close> it slept with and with \<open>dst\<close>
  advanced by what it has read.
\<close>

function consoleread_from :: "kmem \<Rightarrow> uint64 \<Rightarrow> bool \<Rightarrow> int \<Rightarrow> uint64 \<Rightarrow> int \<Rightarrow> console \<Rightarrow> (wait \<times> console \<times> kmem) outcome" where
  "consoleread_from m pt killed target dst n b =
     (if n > 0 then
        if cn_r b = cn_w b then
          if killed then Ok (Ret (-1), b, m) else Ok (Wait Chan_cons n, b, m)
        else
          let c = cn_buf b ! (unat (cn_r b) mod INPUT_BUF); b = b\<lparr>cn_r := cn_r b + 1\<rparr> in
          if uint c = Ctrl CHR ''D'' then
            Ok (Ret (target - n), if n < target then b\<lparr>cn_r := cn_r b - 1\<rparr> else b, m)
          else bnd (copyout m pt dst [c]) (\<lambda>(r, m).
            if r = -1 then Ok (Ret (target - n), b, m)
            else if c = 10 then Ok (Ret (target - (n - 1)), b, m)
            else consoleread_from m pt killed target (dst + 1) (n - 1) b)
      else Ok (Ret (target - n), b, m))"
  by pat_completeness auto
termination
  by (relation "measure (\<lambda>(m, pt, killed, target, dst, n, b). nat n)") auto

declare consoleread_from.simps [simp del]

definition consoleread :: "kmem \<Rightarrow> uint64 \<Rightarrow> bool \<Rightarrow> uint64 \<Rightarrow> int \<Rightarrow> console \<Rightarrow> (wait \<times> console \<times> kmem) outcome" where
  "consoleread m pt killed dst n b = consoleread_from m pt killed n dst n b"

text \<open>The loop of \<open>consolewrite\<close>; a writer that finds the output buffer full sleeps in \<open>uartputc\<close> with character \<open>i\<close> in hand.\<close>

function consolewrite_from :: "bool \<Rightarrow> devreg \<Rightarrow> kmem \<Rightarrow> uint64 \<Rightarrow> uint64 \<Rightarrow> int \<Rightarrow> int \<Rightarrow> uart \<Rightarrow> (wait \<times> uart) outcome" where
  "consolewrite_from panicked lsr m pt src n i u =
     (if i < n then
        bnd (copyin m pt (src + of_int i) 1) (\<lambda>r.
        case r of None \<Rightarrow> Ok (Ret i, u)
        | Some cs \<Rightarrow>
            if uartputc panicked lsr (hd cs) u = Sleep Chan_uart then Ok (Wait Chan_uart i, u)
            else bnd (uartputc panicked lsr (hd cs) u) (consolewrite_from panicked lsr m pt src n (i + 1)))
      else Ok (Ret i, u))"
  by pat_completeness auto
termination
  by (relation "measure (\<lambda>(panicked, lsr, m, pt, src, n, i, u). nat (n - i))") auto

declare consolewrite_from.simps [simp del]

definition consolewrite :: "bool \<Rightarrow> devreg \<Rightarrow> kmem \<Rightarrow> uint64 \<Rightarrow> uint64 \<Rightarrow> int \<Rightarrow> uart \<Rightarrow> (wait \<times> uart) outcome" where
  "consolewrite panicked lsr m pt src n u = consolewrite_from panicked lsr m pt src n 0 u"

text \<open>\<open>consoleinit\<close> starts the device and enters its two routines, here \<open>rd\<close> and \<open>wr\<close>, in the device table.\<close>

definition consoleinit :: "devfn \<Rightarrow> devfn \<Rightarrow> tty \<Rightarrow> devsw list \<Rightarrow> (tty \<times> devsw list) outcome" where
  "consoleinit rd wr t devsw =
     bnd (aset devsw (int CONSOLE) \<lparr>dv_read = Some rd, dv_write = Some wr\<rparr>) (\<lambda>devsw.
     Ok (t\<lparr>tt_uart := uartinit (tt_uart t)\<rparr>, devsw))"

text \<open>The input loop of \<open>uartintr\<close>, which does not end while the device has input.\<close>

partial_function (option) uartintr_input :: "bool \<Rightarrow> devreg \<Rightarrow> devreg \<Rightarrow> kern \<Rightarrow> tty \<Rightarrow> tty outcome option" where
  "uartintr_input panicked lsr rhr k t =
     (case uartgetc lsr rhr (tt_uart t) of (c, u) \<Rightarrow>
      if c = -1 then Some (Ok (t\<lparr>tt_uart := u\<rparr>))
      else case consoleintr panicked lsr k c (t\<lparr>tt_uart := u\<rparr>) of
        Ok t \<Rightarrow> uartintr_input panicked lsr rhr k t
      | Panic m \<Rightarrow> Some (Panic m) | Fault m \<Rightarrow> Some (Fault m) | Sleep ch \<Rightarrow> Some (Sleep ch) | Diverge \<Rightarrow> Some Diverge)"

definition uartintr :: "bool \<Rightarrow> devreg \<Rightarrow> devreg \<Rightarrow> kern \<Rightarrow> tty \<Rightarrow> tty outcome" where
  "uartintr panicked lsr rhr k t =
     (case uartintr_input panicked lsr rhr k t of None \<Rightarrow> Diverge
      | Some r \<Rightarrow> bnd r (\<lambda>t. Ok (t\<lparr>tt_uart := uartstart lsr (tt_uart t)\<rparr>)))"

section \<open>The buffer as two lists\<close>

text \<open>Input that readers may take, and the line that is being edited.\<close>

definition ready :: "console \<Rightarrow> byte list" where
  "ready b = ring INPUT_BUF (cn_buf b) (cn_r b) (cn_w b)"

definition line :: "console \<Rightarrow> byte list" where
  "line b = ring INPUT_BUF (cn_buf b) (cn_w b) (cn_e b)"

definition cons_ok :: "console \<Rightarrow> bool" where
  "cons_ok b \<longleftrightarrow> length (cn_buf b) = INPUT_BUF \<and> unat (cn_w b - cn_r b) \<le> unat (cn_e b - cn_r b) \<and>
     unat (cn_e b - cn_r b) \<le> INPUT_BUF \<and> 10 \<notin> set (line b)"

lemma unat_split:
  fixes r w e :: "'a::len word"
  assumes "unat (w - r) \<le> unat (e - r)"
  shows "unat (e - r) = unat (w - r) + unat (e - w)"
proof -
  have "e - r - (w - r) = e - w" by simp
  then have "unat (e - w) = unat (e - r) - unat (w - r)" using unat_sub[of "w - r" "e - r"] assms by (simp add: word_le_nat_alt)
  then show ?thesis using assms by simp
qed

lemma nth_ring: "i < unat (w - r) \<Longrightarrow> ring N d r w ! i = d ! (unat (r + of_nat i) mod N)"
  by (simp add: ring_def)

lemma ring_append:
  assumes "unat (w - r) \<le> unat (e - r)"
  shows "ring N d r e = ring N d r w @ ring N d w e"
proof (rule nth_equalityI)
  note s = unat_split[OF assms]
  then show "length (ring N d r e) = length (ring N d r w @ ring N d w e)" by simp
  fix i assume i: "i < length (ring N d r e)"
  show "ring N d r e ! i = (ring N d r w @ ring N d w e) ! i"
  proof (cases "i < unat (w - r)")
    case True
    then show ?thesis using i by (simp add: nth_ring nth_append)
  next
    case False
    then have w: "w + of_nat (i - unat (w - r)) = r + of_nat i" by (simp add: of_nat_diff)
    have "i - unat (w - r) < unat (e - w)" using i s False by simp
    then have "ring N d w e ! (i - unat (w - r)) = d ! (unat (r + of_nat i) mod N)"
      using nth_ring[of "i - unat (w - r)" e w N d] unfolding w by simp
    then show ?thesis using i False nth_ring[of i e r N d] by (simp add: nth_append)
  qed
qed

lemma ring_take: "unat (w - r) \<le> unat (e - r) \<Longrightarrow> ring N d r w = take (unat (w - r)) (ring N d r e)"
  by (simp add: ring_append)

lemma INPUT_BUF_dvd: "INPUT_BUF dvd 2 ^ LENGTH(32)" "INPUT_BUF < 2 ^ LENGTH(32)"
  by (simp_all add: INPUT_BUF_def)

lemma cons_lengths: "cons_ok b \<Longrightarrow> unat (cn_e b - cn_r b) = length (ready b) + length (line b)"
  using unat_split[of "cn_w b" "cn_r b" "cn_e b"] by (simp add: cons_ok_def ready_def line_def)

lemma line_empty: "cn_e b = cn_w b \<longleftrightarrow> line b = []"
  by (auto simp: line_def ring_def unat_eq_zero)

lemma ready_empty: "cn_r b = cn_w b \<longleftrightarrow> ready b = []"
  by (auto simp: ready_def ring_def unat_eq_zero)

definition store :: "byte \<Rightarrow> console \<Rightarrow> console" where
  "store c b = b\<lparr>cn_buf := (cn_buf b)[unat (cn_e b) mod INPUT_BUF := c], cn_e := cn_e b + 1\<rparr>"

lemma store_lists:
  assumes "cons_ok b" "length (ready b) + length (line b) < INPUT_BUF"
  shows "ready (store c b) = ready b" "line (store c b) = line b @ [c]" "unat (cn_e (store c b) - cn_r (store c b)) = length (ready b) + length (line b) + 1"
    "length (cn_buf (store c b)) = INPUT_BUF"
proof -
  let ?d = "(cn_buf b)[unat (cn_e b) mod INPUT_BUF := c]"
  note len = cons_lengths[OF assms(1)]
  have l: "length (cn_buf b) = INPUT_BUF" using assms(1) by (simp add: cons_ok_def)
  have le: "unat (cn_w b - cn_r b) \<le> unat (cn_e b - cn_r b)" using assms(1) by (simp add: cons_ok_def)
  have e: "ring INPUT_BUF ?d (cn_r b) (cn_e b + 1) = ring INPUT_BUF (cn_buf b) (cn_r b) (cn_e b) @ [c]"
    using ring_put[OF INPUT_BUF_dvd(1) _ INPUT_BUF_dvd(2) l, of "cn_e b" "cn_r b" c] len assms(2) by simp
  then have n: "unat (cn_e b + 1 - cn_r b) = unat (cn_e b - cn_r b) + 1" by (metis length_ring length_append_singleton Suc_eq_plus1)
  have "unat (cn_e b - cn_w b) < INPUT_BUF" using assms(2) by (simp add: line_def)
  then have "ring INPUT_BUF ?d (cn_w b) (cn_e b + 1) = ring INPUT_BUF (cn_buf b) (cn_w b) (cn_e b) @ [c]"
    using ring_put[OF INPUT_BUF_dvd(1) _ INPUT_BUF_dvd(2) l, of "cn_e b" "cn_w b" c] by simp
  then show "line (store c b) = line b @ [c]" by (simp add: line_def store_def)
  have "ring INPUT_BUF ?d (cn_r b) (cn_w b) = take (unat (cn_w b - cn_r b)) (ring INPUT_BUF (cn_buf b) (cn_r b) (cn_e b) @ [c])"
    using ring_take[of "cn_w b" "cn_r b" "cn_e b + 1" INPUT_BUF ?d] e n le by simp
  then have "ring INPUT_BUF ?d (cn_r b) (cn_w b) = ring INPUT_BUF (cn_buf b) (cn_r b) (cn_w b)"
    using ring_take[OF le, of INPUT_BUF "cn_buf b"] le by simp
  then show "ready (store c b) = ready b" by (simp add: ready_def store_def)
  show "unat (cn_e (store c b) - cn_r (store c b)) = length (ready b) + length (line b) + 1" using n len by (simp add: store_def)
  show "length (cn_buf (store c b)) = INPUT_BUF" using l by (simp add: store_def)
qed

lemma commit_lists:
  assumes "unat (cn_w b - cn_r b) \<le> unat (cn_e b - cn_r b)"
  shows "ready (b\<lparr>cn_w := cn_e b, cn_wakeups := n\<rparr>) = ready b @ line b" "line (b\<lparr>cn_w := cn_e b, cn_wakeups := n\<rparr>) = []"
  using ring_append[OF assms] by (simp_all add: ready_def line_def)

lemma erase_lists:
  assumes "cons_ok b" "line b \<noteq> []"
  shows "cons_ok (b\<lparr>cn_e := cn_e b - 1\<rparr>)" "ready (b\<lparr>cn_e := cn_e b - 1\<rparr>) = ready b" "line (b\<lparr>cn_e := cn_e b - 1\<rparr>) = butlast (line b)"
proof -
  have ne: "cn_e b - cn_w b \<noteq> 0" using assms(2) line_empty[of b] by simp
  have u: "unat (cn_e b - 1 - cn_w b) = unat (cn_e b - cn_w b) - 1"
    using unat_minus_one[OF ne] by (simp add: algebra_simps)
  have pos: "0 < unat (cn_e b - cn_w b)" using ne by (simp add: unat_gt_0)
  note len = cons_lengths[OF assms(1)]
  have er: "cn_e b - cn_r b \<noteq> 0" using len assms(2) by (metis add_is_0 length_0_conv unat_0)
  have v: "unat (cn_e b - 1 - cn_r b) = unat (cn_e b - cn_r b) - 1"
    using unat_minus_one[OF er] by (simp add: algebra_simps)
  show l: "line (b\<lparr>cn_e := cn_e b - 1\<rparr>) = butlast (line b)"
    using ring_take[of "cn_e b - 1" "cn_w b" "cn_e b" INPUT_BUF "cn_buf b"] u by (simp add: line_def butlast_conv_take)
  show "ready (b\<lparr>cn_e := cn_e b - 1\<rparr>) = ready b" by (simp add: ready_def)
  have "10 \<notin> set (butlast (line b))" using assms(1) by (auto simp: cons_ok_def dest: in_set_butlastD)
  then show "cons_ok (b\<lparr>cn_e := cn_e b - 1\<rparr>)"
    using assms(1) l v len pos unfolding cons_ok_def line_def ready_def by simp linarith
qed

section \<open>Editing\<close>

text \<open>The device accepts characters again and again.\<close>

definition responsive :: "devreg \<Rightarrow> bool" where
  "responsive lsr \<longleftrightarrow> (\<forall>n. \<exists>m\<ge>n. lsr m AND LSR_TX_IDLE \<noteq> 0)"

lemma uartputc_sync_returns: "responsive lsr \<Longrightarrow> \<exists>u'. uartputc_sync False lsr c u = Ok u'"
proof -
  assume "responsive lsr"
  then obtain m where "u_lsr_reads u \<le> m" "lsr m AND LSR_TX_IDLE \<noteq> 0" by (auto simp: responsive_def)
  then show ?thesis using wait_idle_returns[of lsr m u] by (auto simp: uartputc_sync_def)
qed

lemma consputc_returns: "responsive lsr \<Longrightarrow> \<exists>u. consputc False lsr c t = Ok (t\<lparr>tt_uart := u\<rparr>)"
proof -
  assume r: "responsive lsr"
  note p = uartputc_sync_returns[OF r]
  obtain u1 where 1: "uartputc_sync False lsr 8 (tt_uart t) = Ok u1" using p by blast
  obtain u2 where 2: "uartputc_sync False lsr 32 u1 = Ok u2" using p by blast
  obtain u3 where 3: "uartputc_sync False lsr 8 u2 = Ok u3" using p by blast
  obtain u4 where 4: "uartputc_sync False lsr (of_int c) (tt_uart t) = Ok u4" using p by blast
  show ?thesis by (auto simp: consputc_def 1 2 3 4 Let_def simp del: bnd_Ok_iff)
qed

lemma consputs_returns: "responsive lsr \<Longrightarrow> \<exists>u. consputs False lsr cs t = Ok (t\<lparr>tt_uart := u\<rparr>)"
proof (induction cs arbitrary: t)
  case Nil
  show ?case by (auto intro!: exI[of _ "tt_uart t"])
next
  case (Cons c cs)
  obtain u where u: "consputc False lsr (uint c) t = Ok (t\<lparr>tt_uart := u\<rparr>)" using consputc_returns[OF Cons.prems] by blast
  then show ?case using Cons.IH[OF Cons.prems, of "t\<lparr>tt_uart := u\<rparr>"] by auto
qed

lemma dump_lines_returns: "\<exists>cs. dump_lines xs = Ok cs"
proof (induction xs)
  case (Cons x xs)
  obtain pid state name where x: "x = (pid, state, name)" by (cases x)
  obtain ds where "printint (of_int pid) 10 True = Ok ds" using printint_returns[of 10] by auto
  then show ?case using Cons x by (auto simp: printf_def out_def)
qed simp

lemma procdump_text_returns: "\<exists>cs. procdump_text k = Ok cs"
  using dump_lines_returns[of "procdump k"] by (auto simp: procdump_text_def printf_def)

text \<open>What each character does to the pair of input ready for readers and line being edited.\<close>

definition edit :: "int \<Rightarrow> byte list \<times> byte list \<Rightarrow> byte list \<times> byte list" where
  "edit c = (\<lambda>(ready, line).
     if c = Ctrl CHR ''P'' then (ready, line)
     else if c = Ctrl CHR ''U'' then (ready, [])
     else if c = Ctrl CHR ''H'' \<or> c = 0x7f then (ready, butlast line)
     else if c = 0 \<or> length ready + length line = INPUT_BUF then (ready, line)
     else let c = (if c = 13 then 10 else c); line = line @ [of_int c]
          in if c = 10 \<or> c = Ctrl CHR ''D'' \<or> length ready + length line = INPUT_BUF then (ready @ line, []) else (ready, line))"

definition cons_view :: "tty \<Rightarrow> byte list \<times> byte list" where
  "cons_view t = (ready (tt_cons t), line (tt_cons t))"

lemma kill_line_empties:
  "responsive lsr \<Longrightarrow> cons_ok (tt_cons t) \<Longrightarrow>
   \<exists>t'. kill_line False lsr t = Ok t' \<and> cons_ok (tt_cons t') \<and> cons_view t' = (ready (tt_cons t), [])"
proof (induction "length (line (tt_cons t))" arbitrary: t)
  case 0
  then show ?case by (subst kill_line.simps) (simp add: line_empty cons_view_def Let_def)
next
  case (Suc n)
  let ?c = "tt_cons t"
  have ne: "line ?c \<noteq> []" using Suc.hyps(2) by auto
  have e: "cn_e ?c \<noteq> cn_w ?c" using ne line_empty by blast
  have last: "cn_buf ?c ! (unat (cn_e ?c - 1) mod INPUT_BUF) = last (line ?c)"
  proof -
    have n: "line ?c ! n = cn_buf ?c ! (unat (cn_w ?c + of_nat n) mod INPUT_BUF)"
      using Suc.hyps(2) by (simp add: line_def ring_def)
    have "unat (cn_e ?c - cn_w ?c) = Suc n" using Suc.hyps(2) by (simp add: line_def)
    moreover have "cn_e ?c - cn_w ?c = of_nat (unat (cn_e ?c - cn_w ?c))" by simp
    ultimately have "cn_e ?c - cn_w ?c = of_nat (Suc n)" by metis
    then have "cn_w ?c + of_nat n = cn_e ?c - 1" by (simp add: algebra_simps)
    then show ?thesis using n ne Suc.hyps(2) by (metis diff_Suc_1 last_conv_nth)
  qed
  have l: "last (line ?c) \<noteq> 10" using Suc.prems(2) ne by (metis cons_ok_def last_in_set)
  let ?t = "t\<lparr>tt_cons := ?c\<lparr>cn_e := cn_e ?c - 1\<rparr>\<rparr>"
  obtain u where u: "consputc False lsr BACKSPACE ?t = Ok (?t\<lparr>tt_uart := u\<rparr>)" using consputc_returns[OF Suc.prems(1)] by blast
  note er = erase_lists[OF Suc.prems(2) ne]
  obtain t' where t': "kill_line False lsr (?t\<lparr>tt_uart := u\<rparr>) = Ok t'" "cons_ok (tt_cons t')" "cons_view t' = (ready ?c, [])"
    using Suc.hyps(1)[of "?t\<lparr>tt_uart := u\<rparr>"] Suc.hyps(2)[symmetric] Suc.prems(1) er by auto
  have "kill_line False lsr t = kill_line False lsr (?t\<lparr>tt_uart := u\<rparr>)"
    using e l last u by (subst kill_line.simps) (simp add: Let_def)
  then show ?case using t' by simp
qed

definition cons_commit :: "int \<Rightarrow> nat \<Rightarrow> console \<Rightarrow> console" where
  "cons_commit c n b = (if c = 10 \<or> c = Ctrl CHR ''D'' \<or> cn_e b = cn_r b + of_nat INPUT_BUF then b\<lparr>cn_w := cn_e b, cn_wakeups := n\<rparr> else b)"

lemma store_step:
  fixes n :: nat
  assumes "cons_ok b" "length (ready b) + length (line b) < INPUT_BUF" "0 \<le> c" "c < 256"
  defines "b1 \<equiv> store (of_int c) b"
  defines "b2 \<equiv> cons_commit c n b1"
  shows "cons_ok b2 \<and> (ready b2, line b2) = (if c = 10 \<or> c = Ctrl CHR ''D'' \<or> length (ready b) + length (line b @ [of_int c]) = INPUT_BUF
    then (ready b @ line b @ [of_int c], []) else (ready b, line b @ [of_int c]))"
proof -
  note st = store_lists[OF assms(1,2), of "of_int c", folded b1_def]
  have w: "unat (cn_w b1 - cn_r b1) = length (ready b)" using st(1) by (metis length_ring ready_def)
  have full: "cn_e b1 = cn_r b1 + of_nat INPUT_BUF \<longleftrightarrow> length (ready b) + length (line b @ [of_int c :: byte]) = INPUT_BUF"
  proof -
    have "cn_e b1 = cn_r b1 + of_nat INPUT_BUF \<longleftrightarrow> cn_e b1 - cn_r b1 = of_nat INPUT_BUF" by (auto simp: algebra_simps)
    also have "\<dots> \<longleftrightarrow> unat (cn_e b1 - cn_r b1) = INPUT_BUF" by (auto simp: INPUT_BUF_def word_unat_eq_iff)
    finally show ?thesis using st(3) by simp
  qed
  show ?thesis
  proof (cases "c = 10 \<or> c = Ctrl CHR ''D'' \<or> cn_e b1 = cn_r b1 + of_nat INPUT_BUF")
    case True
    then have b2: "b2 = b1\<lparr>cn_w := cn_e b1, cn_wakeups := n\<rparr>" by (simp only: b2_def cons_commit_def if_True)
    have "ready b2 = ready b1 @ line b1" "line b2 = []" unfolding b2 using commit_lists[of b1 n] w st(3) by simp_all
    moreover have "cons_ok b2" using calculation(2) st(3,4) assms(2) by (simp add: cons_ok_def b2)
    ultimately show ?thesis using True full st(1,2) by auto
  next
    case False
    then have b2: "b2 = b1" by (simp only: b2_def cons_commit_def if_False)
    have "(of_int c :: byte) \<noteq> 10"
    proof
      assume "(of_int c :: byte) = 10"
      then have "uint (of_int c :: byte) = 10" by simp
      then show False using False assms(3,4) by (simp add: uint_word_of_int_eq take_bit_eq_mod)
    qed
    then have "cons_ok b2" using assms(1,2) st w by (auto simp: cons_ok_def b2)
    then show ?thesis using False full st(1,2) b2 by auto
  qed
qed

text \<open>
  C7: Each input character has exactly the effect of the list editor, for every character and every position of the
  circular buffer: backspace removes the last character of the current line and only of it, kill removes the line, any other
  character is appended or, when the buffer is full, dropped, and the line becomes available to
  readers on newline, end of file or a full buffer.
\<close>

theorem consoleintr_edits_line:
  assumes "responsive lsr" "cons_ok (tt_cons t)" "0 \<le> c" "c < 256"
  shows "\<exists>t'. consoleintr False lsr k c t = Ok t' \<and> cons_ok (tt_cons t') \<and> cons_view t' = edit c (cons_view t)"
proof -
  let ?b = "tt_cons t"
  have ctrl: "Ctrl CHR ''P'' = 16" "Ctrl CHR ''U'' = 21" "Ctrl CHR ''H'' = 8" "Ctrl CHR ''D'' = 4" by (simp_all add: Ctrl_def)
  consider (P) "c = 16" | (U) "c = 21" | (H) "c = 8 \<or> c = 0x7f" | (Z) "c = 0"
    | (other) "c \<noteq> 16" "c \<noteq> 21" "c \<noteq> 8" "c \<noteq> 0x7f" "c \<noteq> 0" by blast
  then show ?thesis
  proof cases
    case P
    obtain cs where cs: "procdump_text k = Ok cs" using procdump_text_returns by blast
    obtain u where u: "consputs False lsr cs t = Ok (t\<lparr>tt_uart := u\<rparr>)" using consputs_returns[OF assms(1)] by blast
    then show ?thesis using P cs assms(2) by (simp add: consoleintr_def ctrl cons_view_def edit_def)
  next
    case U
    then show ?thesis using kill_line_empties[OF assms(1,2)] by (simp add: consoleintr_def ctrl cons_view_def edit_def)
  next
    case H
    obtain u where u: "consputc False lsr BACKSPACE (t\<lparr>tt_cons := ?b\<lparr>cn_e := cn_e ?b - 1\<rparr>\<rparr>) = Ok (t\<lparr>tt_cons := ?b\<lparr>cn_e := cn_e ?b - 1\<rparr>, tt_uart := u\<rparr>)"
      using consputc_returns[OF assms(1)] by fastforce
    have n: "c \<noteq> 16" "c \<noteq> 21" using H by auto
    show ?thesis
    proof (cases "line ?b = []")
      case True
      then show ?thesis using H n assms(2) by (simp add: consoleintr_def ctrl cons_view_def edit_def line_empty)
    next
      case False
      then show ?thesis using H n u erase_lists[OF assms(2) False] by (simp add: consoleintr_def Let_def ctrl cons_view_def edit_def line_empty)
    qed
  next
    case Z
    then show ?thesis using assms(2) by (simp add: consoleintr_def ctrl cons_view_def edit_def)
  next
    case other
    let ?c = "if c = 13 then 10 else c"
    have less: "cn_e ?b - cn_r ?b < of_nat INPUT_BUF \<longleftrightarrow> length (ready ?b) + length (line ?b) < INPUT_BUF"
      using cons_lengths[OF assms(2)] by (simp add: word_less_nat_alt INPUT_BUF_def)
    show ?thesis
    proof (cases "length (ready ?b) + length (line ?b) < INPUT_BUF")
      case False
      then have "length (ready ?b) + length (line ?b) = INPUT_BUF" using cons_lengths[OF assms(2)] assms(2) by (simp add: cons_ok_def)
      then show ?thesis using other less assms(2) by (simp add: consoleintr_def ctrl cons_view_def edit_def)
    next
      case True
      obtain u where u: "consputc False lsr ?c t = Ok (t\<lparr>tt_uart := u\<rparr>)" using consputc_returns[OF assms(1)] by blast
      have c: "0 \<le> ?c" "?c < 256" using assms(3,4) by auto
      note st = store_step[OF assms(2) True c, of "cn_wakeups ?b + 1"]
      have e: "consoleintr False lsr k c t = Ok (t\<lparr>tt_uart := u, tt_cons := cons_commit ?c (cn_wakeups ?b + 1) (store (of_int ?c) ?b)\<rparr>)"
        using other u True less unfolding consoleintr_def Let_def ctrl store_def cons_commit_def by (simp del: bnd_Ok_iff split del: if_split) simp
      show ?thesis using st other True unfolding e by (simp add: cons_view_def edit_def ctrl Let_def split del: if_split)
    qed
  qed
qed

theorem consoleintr_edits_line_witness:
  "\<forall>k. \<exists>t'. consoleintr False (\<lambda>n. 0x20) k 8 \<lparr>tt_cons = store 65 \<lparr>cn_buf = replicate 128 0, cn_r = -1, cn_w = -1, cn_e = -1, cn_wakeups = 0\<rparr>,
       tt_uart = \<lparr>u_buf = replicate 32 0, u_w = 0, u_r = 0, u_lsr_reads = 0, u_rhr_reads = 0, u_writes = [], u_wakeups = 0\<rparr>\<rparr> = Ok t' \<and> cons_view t' = ([], [])"
proof
  fix k
  let ?u = "\<lparr>u_buf = replicate 32 0, u_w = 0, u_r = 0, u_lsr_reads = 0, u_rhr_reads = 0, u_writes = [], u_wakeups = 0\<rparr>"
  let ?b = "\<lparr>cn_buf = replicate 128 0, cn_r = -1, cn_w = -1, cn_e = -1, cn_wakeups = 0\<rparr>"
  have b: "cons_ok ?b" "ready ?b = []" "line ?b = []" by (simp_all add: cons_ok_def ready_def line_def INPUT_BUF_def)
  note st = store_step[OF b(1), of 65 0] store_lists[OF b(1), of 65]
  have n: "cons_commit 65 0 (store 65 ?b) = store 65 ?b" by (simp add: cons_commit_def store_def Ctrl_def INPUT_BUF_def)
  have c: "cons_ok (store 65 ?b)" and v: "ready (store 65 ?b) = []" "line (store 65 ?b) = [65]" using st n b by (auto simp: INPUT_BUF_def)
  have r: "responsive (\<lambda>n. 0x20)" by (auto simp: responsive_def LSR_TX_IDLE_def)
  show "\<exists>t'. consoleintr False (\<lambda>n. 0x20) k 8 \<lparr>tt_cons = store 65 ?b, tt_uart = ?u\<rparr> = Ok t' \<and> cons_view t' = ([], [])"
    using consoleintr_edits_line[OF r, of "\<lparr>tt_cons = store 65 ?b, tt_uart = ?u\<rparr>" 8 k] c v
    by (auto simp: cons_view_def edit_def Ctrl_def)
qed

section \<open>Reading\<close>

text \<open>
  What a reader with room for \<open>n\<close> bytes gets from the ready input: the bytes delivered, the input left, and whether it has to wait for
  more. A line ends the read; end of file ends it without being delivered and is left for the next read unless it comes first.
\<close>

fun read_line :: "nat \<Rightarrow> bool \<Rightarrow> byte list \<Rightarrow> byte list \<times> byte list \<times> bool" where
  "read_line 0 got cs = ([], cs, False)"
| "read_line (Suc n) got [] = ([], [], True)"
| "read_line (Suc n) got (c # cs) =
     (if c = 4 then ([], if got then c # cs else cs, False)
      else if c = 10 then ([c], cs, False)
      else case read_line n True cs of (ds, rest, wt) \<Rightarrow> (c # ds, rest, wt))"

lemma read_line_length: "read_line n got cs = (ds, rest, wt) \<Longrightarrow> length ds \<le> n"
  by (induction n got cs arbitrary: ds rule: read_line.induct) (auto split: if_splits prod.splits)

definition take_one :: "console \<Rightarrow> console" where
  "take_one b = b\<lparr>cn_r := cn_r b + 1\<rparr>"

lemma take_one_lists:
  assumes "cons_ok b" "ready b = c # cs"
  shows "cn_buf b ! (unat (cn_r b) mod INPUT_BUF) = c" "ready (take_one b) = cs" "line (take_one b) = line b" "cons_ok (take_one b)"
proof -
  have "cn_w b \<noteq> cn_r b" using assms(2) ready_empty[of b] by auto
  then have r: "ready b = cn_buf b ! (unat (cn_r b) mod INPUT_BUF) # ready (take_one b)"
    using ring_get[of "cn_w b" "cn_r b" INPUT_BUF "cn_buf b"] by (simp add: ready_def take_one_def)
  then show c: "cn_buf b ! (unat (cn_r b) mod INPUT_BUF) = c" "ready (take_one b) = cs" using assms(2) by auto
  show l: "line (take_one b) = line b" by (simp add: take_one_def line_def)
  have "unat (cn_w b - cn_r b) = Suc (length cs)" using assms(2) by (metis length_Cons length_ring ready_def)
  moreover have "unat (cn_w b - (cn_r b + 1)) = length cs" using c(2) by (simp add: ready_def take_one_def) (metis length_ring)
  moreover have "unat (cn_e b - cn_r b) = Suc (unat (cn_e b - (cn_r b + 1)))"
  proof -
    have "cn_e b - cn_r b \<noteq> 0" using cons_lengths[OF assms(1)] assms(2) by (metis add_is_0 length_0_conv list.distinct(1) unat_0)
    from unat_minus_one[OF this] show ?thesis using unat_gt_0[of "cn_e b - cn_r b"] \<open>cn_e b - cn_r b \<noteq> 0\<close> by (simp add: algebra_simps)
  qed
  ultimately show "cons_ok (take_one b)" using assms(1) l by (simp add: cons_ok_def) (simp add: take_one_def)
qed

lemma consoleread_from_reads:
  assumes "user_space m pt" "cons_ok b" "n \<le> target" "read_line (nat n) (n < target) (ready b) = (ds, rest, wt)" "length ds < 2 ^ 64"
    and "\<forall>j<length ds. ubyte m pt (dst + of_nat j) \<noteq> None"
  shows "\<exists>b' m'. consoleread_from m pt killed target dst n b =
      Ok (if wt then if killed then Ret (-1) else Wait Chan_cons (n - int (length ds)) else Ret (target - n + int (length ds)), b', m') \<and>
    cons_ok b' \<and> ready b' = rest \<and> line b' = line b \<and> user_space m' pt \<and> copied m m' pt dst ds"
  using assms
proof (induction "nat n" arbitrary: n m dst b ds)
  case 0
  then show ?case by (subst consoleread_from.simps) (auto simp: copied_def)
next
  case (Suc k)
  have n: "n > 0" using Suc.hyps(2) by simp
  have k: "nat n = Suc k" "k = nat (n - 1)" using Suc.hyps(2) by simp_all
  show ?case
  proof (cases "ready b")
    case Nil
    then show ?thesis using n Suc.prems k ready_empty[of b] by (subst consoleread_from.simps) (auto simp: copied_def)
  next
    case (Cons c cs)
    note t = take_one_lists[OF Suc.prems(2) Cons]
    have ne: "cn_r b \<noteq> cn_w b" using Cons ready_empty[of b] by auto
    have body: "consoleread_from m pt killed target dst n b =
        (if c = 4 then Ok (Ret (target - n), if n < target then b else take_one b, m)
         else bnd (copyout m pt dst [c]) (\<lambda>(r, m).
          if r = -1 then Ok (Ret (target - n), take_one b, m)
          else if c = 10 then Ok (Ret (target - (n - 1)), take_one b, m)
          else consoleread_from m pt killed target (dst + 1) (n - 1) (take_one b)))"
    proof -
      have "uint c = Ctrl CHR ''D'' \<longleftrightarrow> c = 4" by (auto simp: Ctrl_def word_uint_eq_iff)
      then show ?thesis using n ne t(1) unfolding take_one_def by (subst consoleread_from.simps) (simp add: Let_def)
    qed
    show ?thesis
    proof (cases "c = 4")
      case True
      then show ?thesis using body Suc.prems n k Cons t by (auto simp: copied_def)
    next
      case c: False
      then have ds: "ds \<noteq> []" "hd ds = c" using Suc.prems(4) k Cons by (auto split: if_splits prod.splits)
      then have "ubytes m pt dst (length [c]) \<noteq> None" using Suc.prems(6)[rule_format, of 0] ubytes_1[of m pt dst] by simp
      then obtain m1 where m1: "copyout m pt dst [c] = Ok (0, m1)" "user_space m1 pt" "copied m m1 pt dst [c]"
        using copyout_ubytes[OF Suc.prems(1), of "[c]" dst] by auto
      show ?thesis
      proof (cases "c = 10")
        case True
        then show ?thesis using body m1 Suc.prems(4) n k Cons t by auto
      next
        case False
        obtain es where es: "read_line k True cs = (es, rest, wt)" "ds = c # es" using Suc.prems(4) k Cons c False by (auto split: prod.splits)
        have u: "\<forall>j<length es. ubyte m1 pt (dst + 1 + of_nat j) \<noteq> None"
        proof (intro allI impI)
          fix j assume "j < length es"
          then have "ubyte m pt (dst + of_nat (Suc j)) \<noteq> None" using Suc.prems(6)[rule_format, of "Suc j"] es(2) by simp
          then show "ubyte m1 pt (dst + 1 + of_nat j) \<noteq> None" using copied_mapped[OF m1(3), of "dst + of_nat (Suc j)"] by (simp add: ac_simps)
        qed
        have "\<exists>b' m'. consoleread_from m1 pt killed target (dst + 1) (n - 1) (take_one b) =
            Ok (if wt then if killed then Ret (-1) else Wait Chan_cons (n - 1 - int (length es)) else Ret (target - (n - 1) + int (length es)), b', m') \<and>
          cons_ok b' \<and> ready b' = rest \<and> line b' = line b \<and> user_space m' pt \<and> copied m1 m' pt (dst + 1) es"
          using Suc.hyps(1)[OF k(2) m1(2) t(4) _ _ _ u] es(1) k t(2,3) Suc.prems(3,5) es(2) by simp
        then show ?thesis using body c False m1(1) es(2) copied_Cons[OF m1(3), of _ es] Suc.prems(5)
          by (auto simp: algebra_simps)
      qed
    qed
  qed
qed

text \<open>
  C8: A read of the console returns what the list reader returns: at most one line and at most \<open>n\<close> bytes, stored at the
  destination and removed from the input, with the line that is being edited untouched. It sleeps for want of input, or
  fails if the process has been killed, and end of file ends it.
\<close>

theorem consoleread_delivers_line:
  assumes "user_space m pt" "cons_ok b" "n < 2 ^ 31" "read_line (nat n) False (ready b) = (ds, rest, wt)"
    and "\<forall>j<length ds. ubyte m pt (dst + of_nat j) \<noteq> None"
  shows "\<exists>b' m'. consoleread m pt killed dst n b =
      Ok (if wt then if killed then Ret (-1) else Wait Chan_cons (n - int (length ds)) else Ret (int (length ds)), b', m') \<and>
    cons_ok b' \<and> ready b' = rest \<and> line b' = line b \<and>
    (\<forall>a. ubyte m' pt a = (if unat (a - dst) < length ds then Some (ds ! unat (a - dst)) else ubyte m pt a))"
proof -
  have "length ds < 2 ^ 64" using read_line_length[OF assms(4)] assms(3) by simp
  then show ?thesis using consoleread_from_reads[OF assms(1,2), of n n ds rest wt dst killed] assms(4,5)
    unfolding consoleread_def copied_def by auto
qed

text \<open>A console on which a line has been typed, and the read of it.\<close>

definition ex_cons :: console where
  "ex_cons = \<lparr>cn_buf = replicate 128 10, cn_r = -1, cn_w = 0, cn_e = 0, cn_wakeups = 1\<rparr>"

theorem consoleread_delivers_line_witness:
  "\<exists>b' m'. consoleread ex_space 0x87fff000 False 0x10 5 ex_cons = Ok (Ret 1, b', m') \<and> ready b' = [] \<and> ubyte m' 0x87fff000 0x10 = Some 10"
proof -
  have b: "cons_ok ex_cons" "ready ex_cons = [10]"
    by (simp_all add: cons_ok_def ready_def line_def INPUT_BUF_def ex_cons_def ring_def)
  have r: "read_line (nat 5) False (ready ex_cons) = ([10], [], False)"
  proof -
    have "nat 5 = Suc 4" by simp
    then show ?thesis unfolding b(2) by (simp only: read_line.simps) simp
  qed
  have "\<forall>j<length [10 :: byte]. ubyte ex_space 0x87fff000 (0x10 + of_nat j) \<noteq> None"
    using ex_space_ubyte[of "0x10"] by (auto simp: word_less_nat_alt)
  from consoleread_delivers_line[OF ex_space_user b(1) _ r this, of False] obtain b' m' where
    "consoleread ex_space 0x87fff000 False 0x10 5 ex_cons = Ok (Ret 1, b', m')" "ready b' = []"
    "\<forall>a. ubyte m' 0x87fff000 a = (if unat (a - 0x10) < 1 then Some ([10] ! unat (a - 0x10)) else ubyte ex_space 0x87fff000 a)" by auto
  then show ?thesis by (auto dest: spec[of _ "0x10"])
qed

end
