(* ===== verification/Syscall.thy ===== *)
theory Syscall
  imports Exec Console Disk_Sched
begin

text \<open>
  The system calls of \<open>kernel/sysproc.c\<close> and the dispatcher of \<open>kernel/syscall.c\<close>. The state \<open>system\<close> is the whole kernel: processes and
  files, the I/O scheduler and the disk driver, the console. What the linker and the devices
  determine is the argument \<open>kconf\<close>. A call returns a value, blocks, or never returns.
\<close>

unbundle bit_operations_syntax

section \<open>State\<close>

record kconf =
  kc_end :: uint64
  kc_trampoline :: uint64
  kc_forkret :: uint64
  kc_devsw :: "devsw list"
  kc_pad :: "byte list"
  kc_lsr :: devreg
  kc_rhr :: devreg

record system =
  sy_kern :: kern
  sy_sched :: sched
  sy_disk :: vdisk
  sy_tty :: tty
  sy_panicked :: bool

datatype sysret = Value int | Blocked chan | Gone

fun ret_of :: "wait \<Rightarrow> sysret" where
  "ret_of (Ret n) = Value n"
| "ret_of (Wait c n) = Blocked c"

text \<open>A call of the file system made by process \<open>p\<close>, and one that may block.\<close>

definition file_call :: "(kfile \<Rightarrow> (int \<times> kfile) outcome) \<Rightarrow> kern \<Rightarrow> nat \<Rightarrow> (sysret \<times> kern) outcome" where
  "file_call f s p = bnd (f (enter s p)) (\<lambda>(r, k). Ok (Value r, leave s p k))"

definition wait_call :: "(kfile \<Rightarrow> (wait \<times> kfile) outcome) \<Rightarrow> kern \<Rightarrow> nat \<Rightarrow> (sysret \<times> kern) outcome" where
  "wait_call f s p = bnd (f (enter s p)) (\<lambda>(r, k). Ok (ret_of r, leave s p k))"

section \<open>Calls on processes\<close>

definition sys_exit :: "uint64 \<Rightarrow> kern \<Rightarrow> nat \<Rightarrow> (sysret \<times> kern) outcome" where
  "sys_exit kend s p = bnd (argint (enter s p) 0) (\<lambda>n. bnd (exit kend s p n) (\<lambda>s. Ok (Gone, s)))"

definition sys_getpid :: "kern \<Rightarrow> nat \<Rightarrow> (sysret \<times> kern) outcome" where
  "sys_getpid s p = Ok (Value (pr_pid (proc_at s p)), s)"

definition sys_fork :: "kconf \<Rightarrow> kern \<Rightarrow> nat \<Rightarrow> (sysret \<times> kern) outcome" where
  "sys_fork c s p = bnd (fork (kc_end c) (kc_trampoline c) (kc_forkret c) s p) (\<lambda>(r, s). Ok (Value r, s))"

definition sys_wait :: "uint64 \<Rightarrow> kern \<Rightarrow> nat \<Rightarrow> (sysret \<times> kern) outcome" where
  "sys_wait kend s p = bnd (argaddr (enter s p) 0) (\<lambda>a. bnd (wait kend s p a) (\<lambda>(r, s). Ok (ret_of r, s)))"

text \<open>The old size is returned as a 32-bit integer.\<close>

definition sys_sbrk :: "uint64 \<Rightarrow> kern \<Rightarrow> nat \<Rightarrow> (sysret \<times> kern) outcome" where
  "sys_sbrk kend s p =
     bnd (argint (enter s p) 0) (\<lambda>n.
     let addr = sint (ucast (pr_sz (proc_at s p)) :: uint) in
     bnd (growproc kend s p n) (\<lambda>(r, s). Ok (Value (if r < 0 then -1 else addr), s)))"

text \<open>The loop of \<open>sys_sleep\<close>, where a sleeping process resumes; the comparison is between unsigned numbers.\<close>

definition sys_sleep_from :: "uint \<Rightarrow> int \<Rightarrow> kern \<Rightarrow> nat \<Rightarrow> sysret" where
  "sys_sleep_from ticks0 n s p =
     (if k_ticks s - ticks0 < of_int n then if pr_killed (proc_at s p) then Value (-1) else Blocked Chan_ticks
      else Value 0)"

definition sys_sleep :: "kern \<Rightarrow> nat \<Rightarrow> (sysret \<times> kern) outcome" where
  "sys_sleep s p = bnd (argint (enter s p) 0) (\<lambda>n. Ok (sys_sleep_from (k_ticks s) n s p, s))"

definition sys_kill :: "kern \<Rightarrow> nat \<Rightarrow> (sysret \<times> kern) outcome" where
  "sys_kill s p = bnd (argint (enter s p) 0) (\<lambda>pid. case kill s pid of (r, s) \<Rightarrow> Ok (Value r, s))"

definition sys_uptime :: "kern \<Rightarrow> (sysret \<times> kern) outcome" where
  "sys_uptime s = Ok (Value (uint (k_ticks s)), s)"

definition sys_sysinfo :: "kern \<Rightarrow> nat \<Rightarrow> (sysret \<times> kern) outcome" where
  "sys_sysinfo s p =
     bnd (argaddr (enter s p) 0) (\<lambda>addr.
     case kfree_memory (k_mem s) of None \<Rightarrow> Diverge
     | Some v \<Rightarrow>
         bnd (copyout (k_mem s) (pr_pagetable (proc_at s p)) addr (bytes_of_word 4 (ucast v :: uint))) (\<lambda>(r, m).
         Ok (Value (if r < 0 then -1 else 0), with_kmem s m)))"

definition sys_IO_schedule :: "kern \<Rightarrow> sched \<Rightarrow> nat \<Rightarrow> (sysret \<times> sched) outcome" where
  "sys_IO_schedule s sc p = bnd (argint (enter s p) 0) (\<lambda>t. Ok (Value 0, IO_switch sc t))"

section \<open>Dispatch\<close>

text \<open>The call with number \<open>num\<close>; \<open>None\<close> when there is none.\<close>

definition syscalls :: "kconf \<Rightarrow> int \<Rightarrow> (kern \<Rightarrow> nat \<Rightarrow> (sysret \<times> kern) outcome) option" where
  "syscalls c num =
     (let kend = kc_end c in
      if num = 1 then Some (sys_fork c)
      else if num = 2 then Some (sys_exit kend)
      else if num = 3 then Some (sys_wait kend)
      else if num = 4 then Some (file_call (sys_pipe kend))
      else if num = 5 then Some (wait_call (sys_read (kc_devsw c)))
      else if num = 6 then Some sys_kill
      else if num = 7 then Some (file_call (sys_exec kend (kc_trampoline c)))
      else if num = 8 then Some (file_call (sys_fstat (kc_pad c)))
      else if num = 9 then Some (file_call sys_chdir)
      else if num = 10 then Some (file_call sys_dup)
      else if num = 11 then Some sys_getpid
      else if num = 12 then Some (sys_sbrk kend)
      else if num = 13 then Some sys_sleep
      else if num = 14 then Some (\<lambda>s p. sys_uptime s)
      else if num = 15 then Some (file_call (sys_open kend))
      else if num = 16 then Some (wait_call (sys_write (kc_devsw c)))
      else if num = 17 then Some (file_call sys_mknod)
      else if num = 18 then Some (file_call sys_unlink)
      else if num = 19 then Some (file_call sys_link)
      else if num = 20 then Some (file_call sys_mkdir)
      else if num = 21 then Some (file_call (sys_close kend))
      else if num = 22 then Some sys_sysinfo
      else None)"

definition set_a0 :: "sysret \<Rightarrow> nat \<Rightarrow> kern \<Rightarrow> kern" where
  "set_a0 r p s = (case r of Value n \<Rightarrow> set_tf s p tf_a0 (of_int n) | _ \<Rightarrow> s)"

definition sys_num :: "kern \<Rightarrow> nat \<Rightarrow> int" where
  "sys_num s p = sint (ucast (tf_get (enter s p) tf_a7) :: uint)"

definition print_on :: "kconf \<Rightarrow> system \<Rightarrow> byte list outcome \<Rightarrow> system outcome" where
  "print_on c s r = bnd r (\<lambda>cs. bnd (consputs (sy_panicked s) (kc_lsr c) cs (sy_tty s)) (\<lambda>t. Ok (s\<lparr>sy_tty := t\<rparr>)))"

definition syscall :: "kconf \<Rightarrow> system \<Rightarrow> nat \<Rightarrow> (sysret \<times> system) outcome" where
  "syscall c s p =
     (let k = sy_kern s; num = sys_num k p in
      if num = 23 then
        bnd (sys_IO_schedule k (sy_sched s) p) (\<lambda>(r, sc). Ok (r, s\<lparr>sy_kern := set_a0 r p k, sy_sched := sc\<rparr>))
      else case syscalls c num of
        Some f \<Rightarrow> bnd (f k p) (\<lambda>(r, k). Ok (r, s\<lparr>sy_kern := set_a0 r p k\<rparr>))
      | None \<Rightarrow>
          let pr = proc_at k p in
          bnd (print_on c s (printf (Some (ascii ''%d %s: unknown sys call %d'' @ [10]))
            [VInt (of_int (pr_pid pr)), VStr (Some (pr_name pr)), VInt (of_int num)])) (\<lambda>s.
          Ok (Value (-1), s\<lparr>sy_kern := set_a0 (Value (-1)) p k\<rparr>)))"

end
