(* ===== verification/Trap.thy ===== *)
theory Trap
  imports Syscall
begin

text \<open>
  Traps, \<open>kernel/trap.c\<close>, and the interrupt controller, \<open>kernel/plic.c\<close>. The control registers of the CPU are a record; the
  registers of the interrupt controller are the list of the writes to them. The number that \<open>plic_claim\<close> reads is an argument.
\<close>

unbundle bit_operations_syntax

section \<open>Registers\<close>

record csr =
  cr_sstatus :: uint64
  cr_sepc :: uint64
  cr_scause :: uint64
  cr_stval :: uint64
  cr_stvec :: uint64
  cr_satp :: uint64
  cr_sip :: uint64
  cr_tp :: uint64

definition SSTATUS_SPP :: uint64 where "SSTATUS_SPP = push_bit 8 1"
definition SSTATUS_SPIE :: uint64 where "SSTATUS_SPIE = push_bit 5 1"
definition SSTATUS_SIE :: uint64 where "SSTATUS_SIE = push_bit 1 1"
definition SATP_SV39 :: uint64 where "SATP_SV39 = push_bit 60 8"

definition MAKE_SATP :: "uint64 \<Rightarrow> uint64" where
  "MAKE_SATP pagetable = SATP_SV39 OR drop_bit 12 pagetable"

definition intr_on :: "csr \<Rightarrow> csr" where
  "intr_on r = r\<lparr>cr_sstatus := cr_sstatus r OR SSTATUS_SIE\<rparr>"

definition intr_off :: "csr \<Rightarrow> csr" where
  "intr_off r = r\<lparr>cr_sstatus := cr_sstatus r AND NOT SSTATUS_SIE\<rparr>"

definition intr_get :: "csr \<Rightarrow> bool" where
  "intr_get r = (cr_sstatus r AND SSTATUS_SIE \<noteq> 0)"

section \<open>The interrupt controller\<close>

definition UART0_IRQ :: int where "UART0_IRQ = 10"
definition VIRTIO0_IRQ :: int where "VIRTIO0_IRQ = 1"

definition PLIC_SENABLE :: "uint64 \<Rightarrow> uint64" where "PLIC_SENABLE hart = PLIC + 0x2080 + hart * 0x100"
definition PLIC_SPRIORITY :: "uint64 \<Rightarrow> uint64" where "PLIC_SPRIORITY hart = PLIC + 0x201000 + hart * 0x2000"
definition PLIC_SCLAIM :: "uint64 \<Rightarrow> uint64" where "PLIC_SCLAIM hart = PLIC + 0x201004 + hart * 0x2000"

type_synonym plic = "(uint64 \<times> uint) list"

definition plicinit :: "plic \<Rightarrow> plic" where
  "plicinit w = w @ [(PLIC + of_int UART0_IRQ * 4, 1), (PLIC + of_int VIRTIO0_IRQ * 4, 1)]"

definition plicinithart :: "uint64 \<Rightarrow> plic \<Rightarrow> plic" where
  "plicinithart hart w = w @ [(PLIC_SENABLE hart, push_bit (nat UART0_IRQ) 1 OR push_bit (nat VIRTIO0_IRQ) 1), (PLIC_SPRIORITY hart, 0)]"

definition plic_complete :: "uint64 \<Rightarrow> int \<Rightarrow> plic \<Rightarrow> plic" where
  "plic_complete hart irq w = w @ [(PLIC_SCLAIM hart, of_int irq)]"

section \<open>Device interrupts\<close>

text \<open>\<open>ticks++; wakeup(&ticks)\<close>, in the context of process \<open>p\<close>, or of none when \<open>p\<close> is outside the table.\<close>

definition clockintr :: "nat \<Rightarrow> kern \<Rightarrow> kern" where
  "clockintr p s = wakeup (s\<lparr>k_ticks := k_ticks s + 1\<rparr>) p (Some Chan_ticks)"

text \<open>The calls of \<open>wakeup\<close> that the handlers of the console and of the disk make.\<close>

definition wake_tty :: "nat \<Rightarrow> tty \<Rightarrow> tty \<Rightarrow> kern \<Rightarrow> kern" where
  "wake_tty p t t' s =
     (let s = (if cn_wakeups (tt_cons t') \<noteq> cn_wakeups (tt_cons t) then wakeup s p (Some Chan_cons) else s)
      in if u_wakeups (tt_uart t') \<noteq> u_wakeups (tt_uart t) then wakeup s p (Some Chan_uart) else s)"

fun wake_bufs :: "nat \<Rightarrow> bufp list \<Rightarrow> kern \<Rightarrow> kern" where
  "wake_bufs p [] s = s"
| "wake_bufs p (b # bs) s = wake_bufs p bs (case b of CacheBuf i \<Rightarrow> wakeup s p (Some (Chan_buf i)) | _ \<Rightarrow> s)"

text \<open>The buffers of the requests that the device has completed and the driver has not seen.\<close>

definition completed_bufs :: "vdisk \<Rightarrow> bufp list" where
  "completed_bufs d =
     map (\<lambda>k. vd_info_b d ! unat (vd_used_ring d ! (unat (vd_used_idx d + of_nat k) mod NUM))) [0..<unat (vd_used_dev d - vd_used_idx d)]"

definition devintr :: "kconf \<Rightarrow> blocknos \<Rightarrow> uint64 \<Rightarrow> int \<Rightarrow> csr \<Rightarrow> nat \<Rightarrow> system \<times> plic \<Rightarrow> (int \<times> csr \<times> system \<times> plic) outcome" where
  "devintr c m hart irq r p = (\<lambda>(s, w).
     let scause = cr_scause r in
     if scause AND 0x8000000000000000 \<noteq> 0 \<and> scause AND 0xff = 9 then
       bnd (if irq = UART0_IRQ then
              bnd (uartintr (sy_panicked s) (kc_lsr c) (kc_rhr c) (sy_kern s) (sy_tty s)) (\<lambda>t.
              Ok (s\<lparr>sy_tty := t, sy_kern := wake_tty p (sy_tty s) t (sy_kern s)\<rparr>))
            else if irq = VIRTIO0_IRQ then
              bnd (virtio_disk_intr m (sy_sched s, sy_disk s)) (\<lambda>(sc, d).
              Ok (s\<lparr>sy_sched := sc, sy_disk := d, sy_kern := wake_bufs p (completed_bufs (sy_disk s)) (sy_kern s)\<rparr>))
            else if irq \<noteq> 0 then
              print_on c s (printf (Some (ascii ''unexpected interrupt irq=%d'' @ [10])) [VInt (of_int irq)])
            else Ok s) (\<lambda>s.
       Ok (1, r, s, if irq \<noteq> 0 then plic_complete hart irq w else w))
     else if scause = 0x8000000000000001 then
       let s = (if hart = 0 then s\<lparr>sy_kern := clockintr p (sy_kern s)\<rparr> else s)
       in Ok (2, r\<lparr>cr_sip := cr_sip r AND NOT 2\<rparr>, s, w)
     else Ok (0, r, s, w))"

section \<open>Traps from user space\<close>

definition tf_kernel_satp :: nat where "tf_kernel_satp = 0"
definition tf_kernel_sp :: nat where "tf_kernel_sp = 8"
definition tf_kernel_trap :: nat where "tf_kernel_trap = 16"
definition tf_kernel_hartid :: nat where "tf_kernel_hartid = 32"

text \<open>
  What becomes of the process: it returns to user space with these registers and through the page table register given, it gives up the CPU and then
  returns, it sleeps in a system call, or it has exited.
\<close>

datatype trapres = Return csr uint64 | Yields | Asleep chan | Died

text \<open>\<open>uservec\<close> is the offset of that code in the trampoline page, \<open>usertrap\<close> the address of the handler.\<close>

definition usertrapret :: "uint64 \<Rightarrow> uint64 \<Rightarrow> csr \<Rightarrow> nat \<Rightarrow> kern \<Rightarrow> (csr \<times> uint64) \<times> kern" where
  "usertrapret uservec usertrap r p s =
     (let r = intr_off r;
          r = r\<lparr>cr_stvec := TRAMPOLINE + uservec\<rparr>;
          s = set_tf s p tf_kernel_satp (cr_satp r);
          s = set_tf s p tf_kernel_sp (pr_kstack (proc_at s p) + PGSIZE);
          s = set_tf s p tf_kernel_trap usertrap;
          s = set_tf s p tf_kernel_hartid (cr_tp r);
          x = cr_sstatus r AND NOT SSTATUS_SPP OR SSTATUS_SPIE;
          r = r\<lparr>cr_sstatus := x, cr_sepc := tf_get (enter s p) tf_epc\<rparr>
      in ((r, MAKE_SATP (pr_pagetable (proc_at s p))), s))"

text \<open>The end of \<open>usertrap\<close>, which a process that slept in a system call reaches later.\<close>

definition usertrap_end :: "kconf \<Rightarrow> uint64 \<Rightarrow> uint64 \<Rightarrow> int \<Rightarrow> csr \<Rightarrow> nat \<Rightarrow> system \<Rightarrow> (trapres \<times> system) outcome" where
  "usertrap_end c uservec usertrap which_dev r p s =
     (if pr_killed (proc_at (sy_kern s) p) then
        bnd (exit (kc_end c) (sy_kern s) p (-1)) (\<lambda>k. Ok (Died, s\<lparr>sy_kern := k\<rparr>))
      else if which_dev = 2 then Ok (Yields, s\<lparr>sy_kern := yield (sy_kern s) p\<rparr>)
      else case usertrapret uservec usertrap r p (sy_kern s) of ((r, satp), k) \<Rightarrow> Ok (Return r satp, s\<lparr>sy_kern := k\<rparr>))"

definition usertrap_finish :: "kconf \<Rightarrow> uint64 \<Rightarrow> uint64 \<Rightarrow> int \<Rightarrow> csr \<Rightarrow> nat \<Rightarrow> system \<Rightarrow> plic \<Rightarrow> (trapres \<times> system \<times> plic) outcome" where
  "usertrap_finish c uservec self which_dev r p s w = bnd (usertrap_end c uservec self which_dev r p s) (\<lambda>(x, s). Ok (x, s, w))"

text \<open>The two branches of \<open>usertrap\<close>: system calls, and everything else.\<close>

definition usertrap_ecall :: "kconf \<Rightarrow> uint64 \<Rightarrow> uint64 \<Rightarrow> csr \<Rightarrow> nat \<Rightarrow> system \<Rightarrow> plic \<Rightarrow> (trapres \<times> system \<times> plic) outcome" where
  "usertrap_ecall c uservec self r p s w =
     (if pr_killed (proc_at (sy_kern s) p) then
        bnd (exit (kc_end c) (sy_kern s) p (-1)) (\<lambda>k. Ok (Died, s\<lparr>sy_kern := k\<rparr>, w))
      else
        let s = s\<lparr>sy_kern := set_tf (sy_kern s) p tf_epc (tf_get (enter (sy_kern s) p) tf_epc + 4)\<rparr>; r = intr_on r in
        bnd (syscall c s p) (\<lambda>(x, s).
        case x of Value n \<Rightarrow> usertrap_finish c uservec self 0 r p s w
        | Blocked ch \<Rightarrow> Ok (Asleep ch, s, w)
        | Gone \<Rightarrow> Ok (Died, s, w)))"

definition usertrap_other :: "kconf \<Rightarrow> uint64 \<Rightarrow> uint64 \<Rightarrow> blocknos \<Rightarrow> uint64 \<Rightarrow> int \<Rightarrow> csr \<Rightarrow> nat \<Rightarrow> system \<Rightarrow> plic \<Rightarrow>
    (trapres \<times> system \<times> plic) outcome" where
  "usertrap_other c uservec self m hart irq r p s w =
     bnd (devintr c m hart irq r p (s, w)) (\<lambda>(which_dev, r, s, w).
     if which_dev \<noteq> 0 then usertrap_finish c uservec self which_dev r p s w
     else
       bnd (print_on c s (printf (Some (ascii ''usertrap(): unexpected scause %p pid=%d'' @ [10]))
         [VLong (cr_scause r), VInt (of_int (pr_pid (proc_at (sy_kern s) p)))])) (\<lambda>s.
       bnd (print_on c s (printf (Some (ascii ''            sepc=%p stval=%p'' @ [10])) [VLong (cr_sepc r), VLong (cr_stval r)])) (\<lambda>s.
       usertrap_finish c uservec self 0 r p (s\<lparr>sy_kern := upd_proc (sy_kern s) p (\<lambda>pr. pr\<lparr>pr_killed := True\<rparr>)\<rparr>) w)))"

definition usertrap :: "kconf \<Rightarrow> uint64 \<Rightarrow> uint64 \<Rightarrow> uint64 \<Rightarrow> blocknos \<Rightarrow> uint64 \<Rightarrow> int \<Rightarrow> csr \<Rightarrow> nat \<Rightarrow> system \<times> plic \<Rightarrow>
    (trapres \<times> system \<times> plic) outcome" where
  "usertrap c uservec self kernelvec m hart irq r p = (\<lambda>(s, w).
     if cr_sstatus r AND SSTATUS_SPP \<noteq> 0 then Panic ''usertrap: not from user mode''
     else
       let r = r\<lparr>cr_stvec := kernelvec\<rparr>; s = s\<lparr>sy_kern := set_tf (sy_kern s) p tf_epc (cr_sepc r)\<rparr> in
       if cr_scause r = 8 then usertrap_ecall c uservec self r p s w
       else usertrap_other c uservec self m hart irq r p s w)"

section \<open>Traps from the kernel\<close>

text \<open>Whether \<open>kerneltrap\<close> gives up the CPU of process \<open>p\<close>, and the registers it restores. \<open>p\<close> is outside the table when there is no process.\<close>

definition kerneltrap :: "kconf \<Rightarrow> blocknos \<Rightarrow> uint64 \<Rightarrow> int \<Rightarrow> csr \<Rightarrow> nat \<Rightarrow> system \<times> plic \<Rightarrow> (bool \<times> csr \<times> system \<times> plic) outcome" where
  "kerneltrap c m hart irq r p s =
     (let sepc = cr_sepc r; sstatus = cr_sstatus r in
      if sstatus AND SSTATUS_SPP = 0 then Panic ''kerneltrap: not from supervisor mode''
      else if intr_get r then Panic ''kerneltrap: interrupts enabled''
      else
        bnd (devintr c m hart irq r p s) (\<lambda>(which_dev, r, s, w).
        if which_dev = 0 then
          bnd (print_on c s (printf (Some (ascii ''scause %p'' @ [10])) [VLong (cr_scause r)])) (\<lambda>s.
          bnd (print_on c s (printf (Some (ascii ''sepc=%p stval=%p'' @ [10])) [VLong (cr_sepc r), VLong (cr_stval r)])) (\<lambda>s.
          Panic ''kerneltrap''))
        else
          let k = sy_kern s; y = (which_dev = 2 \<and> p < length (k_proc k) \<and> pr_state (proc_at k p) = RUNNING);
              s = (if y then s\<lparr>sy_kern := yield k p\<rparr> else s)
          in Ok (y, r\<lparr>cr_sepc := sepc, cr_sstatus := sstatus\<rparr>, s, w)))"

end
