(* ===== verification/Trap_Return.thy ===== *)
theory Trap_Return
  imports Trap Proc_Lifecycle
begin

text \<open>
  Properties of traps: what is true when a process returns to user space, and how the clock ends a call of \<open>sleep\<close>.
\<close>

unbundle bit_operations_syntax

section \<open>The killed flag\<close>

text \<open>Interrupt handlers wake processes and do nothing else to the process table.\<close>

definition killed :: "nat \<Rightarrow> kern \<Rightarrow> bool" where
  "killed p s = pr_killed (proc_at s p)"

definition woken :: "kern \<Rightarrow> kern \<Rightarrow> bool" where
  "woken s s' \<longleftrightarrow> length (k_proc s') = length (k_proc s) \<and>
     (\<forall>i<length (k_proc s). proc_at s' i = proc_at s i \<or> proc_at s' i = proc_at s i\<lparr>pr_state := RUNNABLE\<rparr>)"

lemma woken_refl [simp]: "woken s s"
  by (simp add: woken_def)

lemma woken_trans [trans]: "woken s t \<Longrightarrow> woken t u \<Longrightarrow> woken s u"
  unfolding woken_def by (auto; force)

lemma woken_wakeup [simp]: "woken s (wakeup s p c)"
  by (auto simp: woken_def wakeup_at Let_def)

lemma woken_clockintr [simp]: "woken s (clockintr p s)"
  using woken_wakeup[of "s\<lparr>k_ticks := k_ticks s + 1\<rparr>" p "Some Chan_ticks"] unfolding clockintr_def woken_def by (simp add: proc_at_def)

lemma woken_wake_tty [simp]: "woken s (wake_tty p t t' s)"
  unfolding wake_tty_def Let_def using woken_trans[OF woken_wakeup woken_wakeup] by auto

lemma woken_wake_bufs [simp]: "woken s (wake_bufs p bs s)"
proof (induction bs arbitrary: s)
  case (Cons b bs)
  show ?case
  proof (cases b)
    case (CacheBuf i)
    then show ?thesis using woken_trans[OF woken_wakeup Cons[of "wakeup s p (Some (Chan_buf i))"]] by simp
  qed (use Cons in simp_all)
qed simp

lemma woken_killed: "woken s s' \<Longrightarrow> p < length (k_proc s) \<Longrightarrow> killed p s' = killed p s"
proof -
  assume "woken s s'" "p < length (k_proc s)"
  then have "proc_at s' p = proc_at s p \<or> proc_at s' p = proc_at s p\<lparr>pr_state := RUNNABLE\<rparr>" by (simp add: woken_def)
  then show ?thesis by (elim disjE) (simp_all add: killed_def)
qed

lemma set_tf_procs [simp]: "k_proc (set_tf s p off v) = k_proc s" "proc_at (set_tf s p off v) i = proc_at s i"
  by (simp_all add: set_tf_def with_kmem_def proc_at_def Let_def)

lemma print_on_kern: "print_on c s r = Ok s' \<Longrightarrow> sy_kern s' = sy_kern s"
  by (auto simp: print_on_def)

lemma devintr_woken: "devintr c m hart irq r p (s, w) = Ok (d, r', s', w') \<Longrightarrow> woken (sy_kern s) (sy_kern s')"
  by (auto simp: devintr_def Let_def split: if_splits dest: print_on_kern)

lemma devintr_recognised:
  "devintr c m hart irq r p (s, w) = Ok (d, r', s', w') \<Longrightarrow> d \<noteq> 0 \<Longrightarrow> cr_scause r AND 0x8000000000000000 \<noteq> 0"
  by (auto simp: devintr_def Let_def split: if_splits)

section \<open>Returning to user space\<close>

definition user_mode :: "uint64 \<Rightarrow> kern \<Rightarrow> nat \<Rightarrow> csr \<Rightarrow> uint64 \<Rightarrow> bool" where
  "user_mode uservec s p r satp \<longleftrightarrow>
     \<not> bit (cr_sstatus r) 8 \<and> bit (cr_sstatus r) 5 \<and> \<not> bit (cr_sstatus r) 1 \<and>
     cr_stvec r = TRAMPOLINE + uservec \<and> cr_sepc r = tf_get (enter s p) tf_epc \<and> satp = MAKE_SATP (pr_pagetable (proc_at s p))"

lemma usertrapret_user_mode:
  "usertrapret uservec self r p s = ((r', satp), s') \<Longrightarrow> user_mode uservec s' p r' satp \<and> k_proc s' = k_proc s"
  by (auto simp: usertrapret_def Let_def user_mode_def intr_off_def SSTATUS_SPP_def SSTATUS_SPIE_def SSTATUS_SIE_def
    bit_or_iff bit_and_iff bit_not_iff bit_push_bit_iff)

lemma usertrap_end_return:
  assumes "usertrap_end c uservec self d r p s = Ok (Return r' satp, s')"
  shows "\<not> killed p (sy_kern s)" "\<not> killed p (sy_kern s')" "user_mode uservec (sy_kern s') p r' satp"
  using assms usertrapret_user_mode[of uservec self r p "sy_kern s"]
  by (auto simp: usertrap_end_def killed_def proc_at_def split: if_splits prod.splits)

lemma usertrap_end_returns:
  "\<not> pr_killed (proc_at (sy_kern s) p) \<Longrightarrow> d \<noteq> 2 \<Longrightarrow> \<exists>r' satp s'. usertrap_end c uservec self d r p s = Ok (Return r' satp, s')"
  by (cases "usertrapret uservec self r p (sy_kern s)") (auto simp: usertrap_end_def)

lemma usertrap_finish_return:
  "usertrap_finish c uservec self d r p s w = Ok (Return r' satp, s', w') \<Longrightarrow> usertrap_end c uservec self d r p s = Ok (Return r' satp, s')"
  by (auto simp: usertrap_finish_def)

lemma usertrap_ecall_return:
  assumes "usertrap_ecall c uservec self r p s w = Ok (Return r' satp, s', w')"
  shows "\<not> killed p (sy_kern s)" "\<not> killed p (sy_kern s')" "user_mode uservec (sy_kern s') p r' satp"
proof -
  show n: "\<not> killed p (sy_kern s)" using assms by (auto simp: usertrap_ecall_def killed_def split: if_splits)
  then obtain r1 s1 where "usertrap_end c uservec self 0 r1 p s1 = Ok (Return r' satp, s')"
    using assms by (auto simp: usertrap_ecall_def killed_def Let_def split: sysret.splits dest!: usertrap_finish_return) (metis sysret.exhaust)
  then show "\<not> killed p (sy_kern s')" "user_mode uservec (sy_kern s') p r' satp" by (rule usertrap_end_return)+
qed

lemma usertrap_other_return:
  assumes "usertrap_other c uservec self m hart irq r p s w = Ok (Return r' satp, s', w')" "p < length (k_proc (sy_kern s))"
  shows "\<not> killed p (sy_kern s)" "\<not> killed p (sy_kern s')" "user_mode uservec (sy_kern s') p r' satp" "cr_scause r AND 0x8000000000000000 \<noteq> 0"
proof -
  obtain d r1 s1 w1 where d: "devintr c m hart irq r p (s, w) = Ok (d, r1, s1, w1)"
    using assms(1) by (auto simp: usertrap_other_def)
  note wk = devintr_woken[OF d]
  have "d \<noteq> 0"
  proof
    assume "d = 0"
    then obtain s2 where "usertrap_end c uservec self 0 r1 p (s2\<lparr>sy_kern := upd_proc (sy_kern s2) p (\<lambda>pr. pr\<lparr>pr_killed := True\<rparr>)\<rparr>) = Ok (Return r' satp, s')"
        "sy_kern s2 = sy_kern s1"
      using assms(1) d by (auto simp: usertrap_other_def dest!: usertrap_finish_return print_on_kern)
    then have "\<not> killed p (upd_proc (sy_kern s1) p (\<lambda>pr. pr\<lparr>pr_killed := True\<rparr>))" using usertrap_end_return(1) by force
    then show False using wk assms(2) by (simp add: killed_def upd_proc_def proc_at_def woken_def)
  qed
  moreover have e: "usertrap_end c uservec self d r1 p s1 = Ok (Return r' satp, s')"
    using calculation assms(1) d by (auto simp: usertrap_other_def dest!: usertrap_finish_return)
  ultimately show "cr_scause r AND 0x8000000000000000 \<noteq> 0" using devintr_recognised[OF d] by blast
  show "\<not> killed p (sy_kern s)" using usertrap_end_return(1)[OF e] woken_killed[OF wk assms(2)] by simp
  show "\<not> killed p (sy_kern s')" "user_mode uservec (sy_kern s') p r' satp" using usertrap_end_return[OF e] by blast+
qed


text \<open>A device interrupt that another CPU has claimed.\<close>

definition ex_conf :: kconf where
  "ex_conf = \<lparr>kc_end = 0x80020000, kc_trampoline = 0x80007000, kc_forkret = 0, kc_devsw = [], kc_pad = [0, 0, 0, 0],
     kc_lsr = (\<lambda>n. 0x20), kc_rhr = (\<lambda>n. 0)\<rparr>"

definition ex_system :: system where
  "ex_system = \<lparr>sy_kern = ex_kern, sy_sched = sched_init, sy_disk = vdisk_zero,
     sy_tty = \<lparr>tt_cons = ex_cons, tt_uart = \<lparr>u_buf = replicate 32 0, u_w = 0, u_r = 0, u_lsr_reads = 0, u_rhr_reads = 0, u_writes = [], u_wakeups = 0\<rparr>\<rparr>,
     sy_panicked = False\<rparr>"

definition ex_csr :: csr where
  "ex_csr = \<lparr>cr_sstatus = 0, cr_sepc = 0x1000, cr_scause = 0x8000000000000009, cr_stval = 0, cr_stvec = 0, cr_satp = 0, cr_sip = 0, cr_tp = 0\<rparr>"


section \<open>Sleeping for some ticks\<close>

lemma clockintr_pow: "k_ticks ((clockintr q ^^ j) s) = k_ticks s + of_nat j" "length (k_proc ((clockintr q ^^ j) s)) = length (k_proc s)"
  by (induction j) (simp_all add: clockintr_def wakeup_def)

lemma clockintr_killed: "p < length (k_proc s) \<Longrightarrow> pr_killed (proc_at ((clockintr q ^^ j) s) p) = pr_killed (proc_at s p)"
proof (induction j)
  case (Suc j)
  then show ?case using woken_killed[OF woken_clockintr, of p "(clockintr q ^^ j) s" q] by (simp add: killed_def clockintr_pow)
qed simp

text \<open>
  C34: A call of \<open>sleep\<close> for \<open>n\<close> ticks blocks until the clock has ticked \<open>n\<close> times, also when the tick counter wraps around in between, and then
  returns 0; every tick makes the sleeping process runnable again so that it looks at the clock.
\<close>

theorem sleep_returns_after_n_ticks:
  assumes "p < length (k_proc s)" "0 \<le> n" "n < 2 ^ 31" "j < 2 ^ 32" "p \<noteq> q"
  shows "sys_sleep_from (k_ticks s) n ((clockintr q ^^ j) s) p =
      (if int j < n then if pr_killed (proc_at s p) then Value (-1) else Blocked Chan_ticks else Value 0) \<and>
    pr_state (proc_at (clockintr q (sleep s p (Some Chan_ticks))) p) = RUNNABLE"
proof
  have "unat (of_nat j :: uint) = j" "unat (of_int n :: uint) = nat n"
    using assms(2-4) by (simp_all add: unsigned_of_nat take_bit_nat_eq_self unsigned_of_int take_bit_int_eq_self)
  then have "(of_nat j :: uint) < of_int n \<longleftrightarrow> int j < n" using assms(2) by (simp add: word_less_nat_alt) linarith
  then show "sys_sleep_from (k_ticks s) n ((clockintr q ^^ j) s) p =
      (if int j < n then if pr_killed (proc_at s p) then Value (-1) else Blocked Chan_ticks else Value 0)"
    using assms(1) by (simp add: sys_sleep_from_def clockintr_pow clockintr_killed)
  show "pr_state (proc_at (clockintr q (sleep s p (Some Chan_ticks))) p) = RUNNABLE"
    using assms(1,5) wakeup_at[of p "sleep s p (Some Chan_ticks)\<lparr>k_ticks := k_ticks (sleep s p (Some Chan_ticks)) + 1\<rparr>" q "Some Chan_ticks"]
    by (simp add: clockintr_def sleep_def upd_proc_def proc_at_def)
qed

theorem sleep_returns_after_n_ticks_witness:
  "sys_sleep_from (-1) 3 ((clockintr 7 ^^ 3) (ex_kern\<lparr>k_ticks := -1\<rparr>)) 1 = Value 0 \<and>
   sys_sleep_from (-1) 3 ((clockintr 7 ^^ 2) (ex_kern\<lparr>k_ticks := -1\<rparr>)) 1 = Blocked Chan_ticks"
  using sleep_returns_after_n_ticks[of 1 "ex_kern\<lparr>k_ticks := -1\<rparr>" 3 3 7] sleep_returns_after_n_ticks[of 1 "ex_kern\<lparr>k_ticks := -1\<rparr>" 3 2 7]
  by (simp add: ex_kern_def ex_proc_def proc_at_def)

text \<open>A negative argument is compared as an unsigned number: \<open>sleep(-1)\<close> does not return for as long as the counter has not gone once around.\<close>

theorem negative_sleep_blocks:
  assumes "p < length (k_proc s)" "- (2 ^ 31) \<le> n" "n < 0" "int j < 2 ^ 32 + n" "\<not> pr_killed (proc_at s p)"
  shows "sys_sleep_from (k_ticks s) n ((clockintr q ^^ j) s) p = Blocked Chan_ticks"
proof -
  have "uint (of_int n :: uint) = n mod 2 ^ 32" by (subst uint_word_of_int) simp
  also have "\<dots> = n + 2 ^ 32" using assms(2,3) by (subst mod_pos_pos_trivial[symmetric, of "n + 2 ^ 32" "2 ^ 32"]) simp_all
  finally have n: "uint (of_int n :: uint) = n + 2 ^ 32" .
  have "uint (of_nat j :: uint) = int j" using assms(3,4) by (simp add: unsigned_of_nat take_bit_nat_eq_self)
  then have "(of_nat j :: uint) < of_int n" using n assms(4) by (simp add: word_less_alt)
  then show ?thesis using assms(1,5) by (simp add: sys_sleep_from_def clockintr_pow clockintr_killed)
qed

end
