(* ===== verification/Spec2Isabelle.thy ===== *)
theory Spec2Isabelle
  imports Disk_Sched Sleep_Wakeup Fs_Data Fs_Path Grep Shell_Syntax Trap_Return
begin

text \<open>
  Verification development for an xv6 kernel (RISC-V) whose disk driver has selectable I/O
  schedulers. Header in progress.
\<close>

end
